(* ===== verification/Prelude.thy ===== *)
theory Prelude
  imports Main "HOL-Library.Word"
begin

text \<open>
  Shared vocabulary of the development: the machine types the C++ code uses
  (\<open>uint8_t\<close>, \<open>uint16_t\<close>, \<open>uint32_t\<close>, \<open>int32_t\<close>, \<open>size_t\<close>), the outcomes of an operation that
  may throw or run into undefined behaviour, \<open>std::string\<close> literals as byte lists, the
  little-endian layout of integers in memory, block copies (\<open>memcpy\<close>), and the lemma
  collections that the component theories fill and use.
\<close>

section \<open>Machine types\<close>

type_synonym byte = "8 word"
type_synonym u16 = "16 word"
type_synonym u32 = "32 word"
type_synonym u64 = "64 word"

text \<open>
  A \<open>size_t\<close> that is only compared and added below its range is a \<open>nat\<close>. Where the code converts
  between \<open>int32_t\<close> and \<open>size_t\<close> the conversions are explicit: \<open>to_int32\<close> narrows to 32 bits and
  reads the result as two's complement, \<open>to_size_t\<close> reduces modulo \<open>2 ^ 64\<close>.
\<close>

definition to_int32 :: "int \<Rightarrow> int" where
  "to_int32 x = (x + 2 ^ 31) mod 2 ^ 32 - 2 ^ 31"

definition to_size_t :: "int \<Rightarrow> nat" where
  "to_size_t x = nat (x mod 2 ^ 64)"

lemma to_int32_id: "- (2 ^ 31) \<le> x \<Longrightarrow> x < 2 ^ 31 \<Longrightarrow> to_int32 x = x"
  by (simp add: to_int32_def)

lemma to_int32_range: "- (2 ^ 31) \<le> to_int32 x \<and> to_int32 x < 2 ^ 31"
proof -
  have "0 \<le> (x + 2 ^ 31) mod 2 ^ 32 \<and> (x + 2 ^ 31) mod 2 ^ 32 < (2 ^ 32 :: int)" by simp
  then show ?thesis by (simp add: to_int32_def)
qed

lemma to_size_t_id: "0 \<le> x \<Longrightarrow> x < 2 ^ 64 \<Longrightarrow> to_size_t x = nat x"
  by (simp add: to_size_t_def)

lemma to_size_t_int [simp]: "n < 2 ^ 64 \<Longrightarrow> to_size_t (int n) = n"
  by (simp add: to_size_t_id)

section \<open>Outcomes\<close>

text \<open>
  What can end an operation other than a return: a C++ exception (which a \<open>catch\<close> clause may
  stop) or undefined behaviour (an access outside an object, a null dereference), which nothing
  stops. \<open>Inl\<close> carries the fault, \<open>Inr\<close> the value.
\<close>

datatype fault =
    Runtime_error string
  | Bad_function_call
  | Other_exception string
  | Undefined string

type_synonym 'a result = "fault + 'a"

definition is_exception :: "fault \<Rightarrow> bool" where
  "is_exception f = (case f of Undefined _ \<Rightarrow> False | _ \<Rightarrow> True)"

definition bindR :: "'a result \<Rightarrow> ('a \<Rightarrow> 'b result) \<Rightarrow> 'b result" where
  "bindR r k = (case r of Inl f \<Rightarrow> Inl f | Inr x \<Rightarrow> k x)"

lemma bindR_simps [simp]:
  "bindR (Inl f) k = Inl f"
  "bindR (Inr x) k = k x"
  by (simp_all add: bindR_def)

lemma bindR_eq_Inr:
  "bindR r k = Inr y \<longleftrightarrow> (\<exists>x. r = Inr x \<and> k x = Inr y)"
  by (cases r) auto

section \<open>Numbers as text\<close>

text \<open>\<open>std::to_string\<close> of a number that is not negative.\<close>

fun decimal :: "nat \<Rightarrow> string" where
  "decimal n = (if n < 10 then [char_of (48 + n)] else decimal (n div 10) @ [char_of (48 + n mod 10)])"

declare decimal.simps [simp del]

text \<open>\<open>%0wd\<close>, and the number that a text of digits stands for.\<close>

definition padded :: "nat \<Rightarrow> nat \<Rightarrow> string" where
  "padded w n = replicate (w - length (decimal n)) (CHR ''0'') @ decimal n"

definition undecimal :: "string \<Rightarrow> nat" where
  "undecimal s = foldl (\<lambda>a c. 10 * a + (of_char c - 48)) 0 s"

lemma undecimal_decimal [simp]: "undecimal (decimal n) = n"
  by (induction n rule: decimal.induct) (subst decimal.simps, simp add: undecimal_def)

lemma decimal_digits: "\<forall>c \<in> set (decimal n). 48 \<le> (of_char c :: nat) \<and> (of_char c :: nat) < 58"
proof (induction n rule: decimal.induct)
  case (1 n)
  show ?case
  proof (cases "n < 10")
    case True
    then show ?thesis by (simp add: decimal.simps [of n])
  next
    case False
    have "(48 + n mod 10) mod 256 = 48 + n mod 10" by simp
    moreover have "48 + n mod 10 < 58" by simp
    ultimately show ?thesis using False 1 by (simp add: decimal.simps [of n])
  qed
qed

lemma decimal_not_Nil [simp]: "decimal n \<noteq> []"
  by (simp add: decimal.simps [of n])

lemma char_of_48: "char_of (48 :: nat) = CHR ''0''"
  by code_simp

lemma padded_2: "n < 100 \<Longrightarrow> padded 2 n = [char_of (48 + n div 10), char_of (48 + n mod 10)]"
  by (auto simp: padded_def decimal.simps [of n] decimal.simps [of "n div 10"] char_of_48)

lemma undecimal_padded_2: "n < 100 \<Longrightarrow> undecimal (padded 2 n) = n"
  by (simp add: padded_2 undecimal_def)

section \<open>Ordered maps\<close>

text \<open>A \<open>std::map\<close> is a list sorted by key.\<close>

lemma map_of_insort_new:
  "map_of xs k = None \<Longrightarrow> map_of (insort_key fst (k, v) xs) = (map_of xs)(k \<mapsto> v)"
  by (induction xs) (auto simp: fun_eq_iff split: if_splits)

lemma map_of_filter_key:
  "map_of (filter (\<lambda>e. fst e \<noteq> k) xs) j = (if j = k then None else map_of xs j)"
  by (induction xs) auto

section \<open>Memory blocks\<close>

text \<open>\<open>overwrite i src mem\<close> is \<open>memcpy(mem + i, src, |src|)\<close> inside the block \<open>mem\<close>.\<close>

definition overwrite :: "nat \<Rightarrow> 'a list \<Rightarrow> 'a list \<Rightarrow> 'a list" where
  "overwrite i src mem = take i mem @ src @ drop (i + length src) mem"

lemma length_overwrite [simp]:
  "i + length src \<le> length mem \<Longrightarrow> length (overwrite i src mem) = length mem"
  by (simp add: overwrite_def)

lemma take_overwrite_before [simp]:
  "j \<le> i \<Longrightarrow> i + length src \<le> length mem \<Longrightarrow> take j (overwrite i src mem) = take j mem"
  by (simp add: overwrite_def min_def)

lemma slice_overwrite_extend:
  assumes "j \<le> i" and "i + length src \<le> length mem"
  shows "take (i + length src - j) (drop j (overwrite i src mem))
       = take (i - j) (drop j mem) @ src"
proof -
  have *: "i + length src - j = (i - j) + length src" using assms(1) by simp
  show ?thesis using assms unfolding * by (simp add: overwrite_def take_add drop_take)
qed

lemma overwrite_mid:
  "length b = length src \<Longrightarrow> overwrite (length a) src (a @ b @ c) = a @ src @ c"
  by (simp add: overwrite_def)

lemma overwrite_at:
  assumes "i = length a" and "length b = length src" and "mem = a @ b @ c"
  shows "overwrite i src mem = a @ src @ c"
  using assms overwrite_mid by metis

text \<open>Running an operation over a list of inputs, stopping at the first fault.\<close>

fun seqR :: "('x \<Rightarrow> 's \<Rightarrow> 's result) \<Rightarrow> 'x list \<Rightarrow> 's \<Rightarrow> 's result" where
  "seqR f [] s = Inr s"
| "seqR f (x # xs) s = bindR (f x s) (seqR f xs)"

fun collectR :: "('x \<Rightarrow> 's \<Rightarrow> ('y \<times> 's) result) \<Rightarrow> 'x list \<Rightarrow> 's \<Rightarrow> ('y list \<times> 's) result" where
  "collectR f [] s = Inr ([], s)"
| "collectR f (x # xs) s =
     bindR (f x s) (\<lambda>(y, s'). bindR (collectR f xs s') (\<lambda>(ys, s''). Inr (y # ys, s'')))"

section \<open>Integers in memory\<close>

text \<open>Little-endian layout: \<open>k\<close> bytes of a number, and the number they stand for.\<close>

fun le_bytes :: "nat \<Rightarrow> nat \<Rightarrow> byte list" where
  "le_bytes 0 x = []"
| "le_bytes (Suc k) x = of_nat (x mod 256) # le_bytes k (x div 256)"

fun le_val :: "byte list \<Rightarrow> nat" where
  "le_val [] = 0"
| "le_val (b # bs) = unat b + 256 * le_val bs"

lemma unat_byte: "unat (b :: byte) < 256"
  using unsigned_less [of b] by simp

lemma length_le_bytes [simp]: "length (le_bytes k x) = k"
  by (induction k arbitrary: x) auto

lemma le_val_le_bytes: "x < 256 ^ k \<Longrightarrow> le_val (le_bytes k x) = x"
proof (induction k arbitrary: x)
  case (Suc k)
  have "unat (of_nat (x mod 256) :: byte) = x mod 256"
    by (simp add: unat_of_nat)
  moreover have "x div 256 < 256 ^ k" using Suc.prems by (simp add: less_mult_imp_div_less mult.commute)
  ultimately show ?case using Suc.IH [of "x div 256"] by simp
qed simp

lemma le_val_bound: "le_val bs < 256 ^ length bs"
proof (induction bs)
  case (Cons b bs)
  have "unat b < 256" by (rule unat_byte)
  moreover have "Suc (le_val bs) * 256 \<le> 256 ^ length bs * 256"
    using Cons by (intro mult_right_mono) auto
  ultimately show ?case by simp
qed simp

lemma le_bytes_le_val: "le_bytes (length bs) (le_val bs) = bs"
proof (induction bs)
  case (Cons b bs)
  have "unat b < 256" by (rule unat_byte)
  then show ?case using Cons by simp
qed simp

text \<open>\<open>std::string\<close> and \<open>char\<close> arrays hold bytes; a source literal is turned into its bytes.\<close>

definition str :: "string \<Rightarrow> byte list" where
  "str s = map of_char s"

section \<open>Lemma collections\<close>

named_theorems stream_simps \<open>equations of the byte stream under its invariant\<close>
named_theorems frame_simps \<open>what an operation leaves alone\<close>
named_theorems inv_intros \<open>preservation of component invariants\<close>

section \<open>Loops\<close>

text \<open>
  A loop that may run forever: one turn of its body fails to return, ends the loop or goes around
  again. The result \<open>None\<close> is a loop that does not end.
\<close>

datatype ('l, 'r) iter = Done 'r | Next 'l

partial_function (option) loop :: "('l \<Rightarrow> ('l, 'r) iter option) \<Rightarrow> 'l \<Rightarrow> 'r option" where
  "loop body l = Option.bind (body l) (\<lambda>i. case i of Done r \<Rightarrow> Some r | Next l' \<Rightarrow> loop body l')"

lemma loop_Done: "body l = Some (Done r) \<Longrightarrow> loop body l = Some r"
  by (subst loop.simps) simp

lemma loop_Next: "body l = Some (Next l') \<Longrightarrow> loop body l = loop body l'"
  by (subst loop.simps) simp

text \<open>Inside a loop body, a fault ends the loop.\<close>

definition orFault :: "'a result \<Rightarrow> ('a \<Rightarrow> ('l, 'r result) iter option) \<Rightarrow> ('l, 'r result) iter option" where
  "orFault r k = (case r of Inl f \<Rightarrow> Some (Done (Inl f)) | Inr x \<Rightarrow> k x)"

lemma orFault_simps [simp]:
  "orFault (Inl f) k = Some (Done (Inl f))"
  "orFault (Inr x) k = k x"
  by (simp_all add: orFault_def)

end
