(* ===== verification/Reclaimer.thy ===== *)
theory Reclaimer
  imports Prelude
begin

text \<open>
  Hazard pointers, \<open>src/include/net/container/reclaimer.h\<close>: the reclaimer of one thread together
  with the list of hazard pointers that all threads share. A node that was unlinked from a shared
  structure is kept in \<open>reclaim_map\<close> until no hazard pointer refers to it.

  The shared list only grows, at its head, and its links never change; the model keeps its cells
  in the order they were added and names a cell by its position, so that walking the list from
  the head is walking the positions downwards.
\<close>

section \<open>State\<close>

record internal_hazard_pointer =
  hflag :: bool
  hptr :: u64

record reclaim_node =
  rn_ptr :: u64

text \<open>
  \<open>hps\<close> and \<open>gsize\<close> are the shared \<open>HazardPointerList\<close>, the other fields the thread's own
  \<open>Reclaimer\<close>. The deletion function of a node is always the one of the list and is left out.
\<close>

record reclaim_state =
  hps :: "internal_hazard_pointer list"
  gsize :: nat
  hp_list :: "nat list"
  reclaim_map :: "(u64 \<times> reclaim_node) list"
  reclaim_pool :: "reclaim_node list"

definition HP_INDEX_NULL :: int where "HP_INDEX_NULL = -1"

definition kCoefficient :: nat where "kCoefficient = 4 + 1 div 4"

definition newHazardPointerList :: "internal_hazard_pointer list \<times> nat" where
  "newHazardPointerList = ([\<lparr>hflag = False, hptr = 0\<rparr>], 0)"

definition newReclaimer :: "internal_hazard_pointer list \<times> nat \<Rightarrow> reclaim_state" where
  "newReclaimer g = \<lparr>hps = fst g, gsize = snd g, hp_list = [], reclaim_map = [],
     reclaim_pool = [\<lparr>rn_ptr = 0\<rparr>]\<rparr>"

section \<open>The pool of reclaim nodes\<close>

definition poolPush :: "reclaim_node \<Rightarrow> reclaim_node list \<Rightarrow> reclaim_node list" where
  "poolPush node pool = node # pool"

fun poolPop :: "reclaim_node list \<Rightarrow> reclaim_node \<times> reclaim_node list" where
  "poolPop (h # h' # rest) = (h, h' # rest)"
| "poolPop pool = (\<lparr>rn_ptr = 0\<rparr>, pool)"

section \<open>Hazard pointers\<close>

definition storeHp :: "nat \<Rightarrow> u64 \<Rightarrow> reclaim_state \<Rightarrow> reclaim_state" where
  "storeHp k p r = r\<lparr>hps := (hps r)[k := (hps r ! k)\<lparr>hptr := p\<rparr>]\<rparr>"

definition TryAcquireHazardPointer :: "reclaim_state \<Rightarrow> reclaim_state" where
  "TryAcquireHazardPointer r =
     (case find (\<lambda>k. \<not> hflag (hps r ! k)) (rev [0..<length (hps r)]) of
        Some k \<Rightarrow> r\<lparr>hps := (hps r)[k := (hps r ! k)\<lparr>hflag := True\<rparr>], hp_list := hp_list r @ [k]\<rparr>
      | None \<Rightarrow> r\<lparr>hps := hps r @ [\<lparr>hflag = True, hptr = 0\<rparr>], gsize := gsize r + 1,
                  hp_list := hp_list r @ [length (hps r)]\<rparr>)"

definition MarkHazard :: "u64 \<Rightarrow> reclaim_state \<Rightarrow> int \<times> reclaim_state" where
  "MarkHazard ptr r =
     (if ptr = 0 then (HP_INDEX_NULL, r)
      else
        case find (\<lambda>i. hptr (hps r ! (hp_list r ! i)) = 0) [0..<length (hp_list r)] of
          Some i \<Rightarrow> (int i, storeHp (hp_list r ! i) ptr r)
        | None \<Rightarrow>
            (let r1 = TryAcquireHazardPointer r;
                 index = length (hp_list r1) - 1
             in (int index, storeHp (hp_list r1 ! index) ptr r1)))"

definition UnMarkHazard :: "int \<Rightarrow> reclaim_state \<Rightarrow> reclaim_state result" where
  "UnMarkHazard index r =
     (if index = HP_INDEX_NULL then Inr r
      else if 0 \<le> index \<and> index < int (length (hp_list r)) then
        Inr (storeHp (hp_list r ! nat index) 0 r)
      else Inl (Undefined ''hazard pointer index out of range''))"

definition GetHazardPtr :: "int \<Rightarrow> reclaim_state \<Rightarrow> u64 result" where
  "GetHazardPtr index r =
     (if index = HP_INDEX_NULL then Inr 0
      else if 0 \<le> index \<and> index < int (length (hp_list r)) then
        Inr (hptr (hps r ! (hp_list r ! nat index)))
      else Inl (Undefined ''hazard pointer index out of range''))"

definition Hazard :: "u64 \<Rightarrow> reclaim_state \<Rightarrow> bool" where
  "Hazard ptr r \<longleftrightarrow> ptr \<in> set (map hptr (hps r))"

section \<open>Reclaiming\<close>

text \<open>\<open>unordered_map::insert\<close> keeps an entry that is there.\<close>

definition ReclaimLater :: "u64 \<Rightarrow> reclaim_state \<Rightarrow> reclaim_state" where
  "ReclaimLater ptr r =
     (let (new_node, pool) = poolPop (reclaim_pool r);
          n = new_node\<lparr>rn_ptr := ptr\<rparr>
      in r\<lparr>reclaim_pool := pool,
           reclaim_map := (if ptr \<in> fst ` set (reclaim_map r) then reclaim_map r
                           else reclaim_map r @ [(ptr, n)])\<rparr>)"

text \<open>The loop over \<open>reclaim_map\<close>: what is deleted, what stays, and the pool afterwards.\<close>

fun reclaimLoop :: "u64 set \<Rightarrow> (u64 \<times> reclaim_node) list \<Rightarrow> reclaim_node list
    \<Rightarrow> u64 list \<times> (u64 \<times> reclaim_node) list \<times> reclaim_node list" where
  "reclaimLoop notAllow [] pool = ([], [], pool)"
| "reclaimLoop notAllow ((p, node) # m) pool =
     (if p \<notin> notAllow then
        let (del, rest, pool') = reclaimLoop notAllow m (poolPush node pool)
        in (rn_ptr node # del, rest, pool')
      else
        let (del, rest, pool') = reclaimLoop notAllow m pool
        in (del, (p, node) # rest, pool'))"

definition ReclaimNoHazardPointer :: "reclaim_state \<Rightarrow> u64 list \<times> reclaim_state" where
  "ReclaimNoHazardPointer r =
     (if length (reclaim_map r) < kCoefficient * gsize r then ([], r)
      else
        let not_allow_delete_set = set (filter (\<lambda>p. p \<noteq> 0) (map hptr (hps r)));
            (del, rest, pool) = reclaimLoop not_allow_delete_set (reclaim_map r) (reclaim_pool r)
        in (del, r\<lparr>reclaim_map := rest, reclaim_pool := pool\<rparr>))"

text \<open>
  \<open>~Reclaimer\<close>, when the thread exits: its hazard pointers are handed over (they must be clear),
  then every node that is left is deleted, waiting as long as some thread holds it; \<open>None\<close> means
  that it waits.
\<close>

definition reclaimerExit :: "reclaim_state \<Rightarrow> (u64 list \<times> reclaim_state) result option" where
  "reclaimerExit r =
     (if \<exists>k \<in> set (hp_list r). hptr (hps r ! k) \<noteq> 0 then Some (Inl (Undefined ''assertion failed''))
      else
        let r1 = fold (\<lambda>k r. r\<lparr>hps := (hps r)[k := (hps r ! k)\<lparr>hflag := False\<rparr>]\<rparr>) (hp_list r) r
        in if \<exists>e \<in> set (reclaim_map r1). Hazard (fst e) r1 then None
           else Some (Inr (map (rn_ptr \<circ> snd) (reclaim_map r1), r1\<lparr>reclaim_map := []\<rparr>)))"

section \<open>Invariant\<close>

definition rc_wf :: "reclaim_state \<Rightarrow> bool" where
  "rc_wf r \<longleftrightarrow> distinct (hp_list r) \<and> (\<forall>k \<in> set (hp_list r). k < length (hps r) \<and> hflag (hps r ! k))
     \<and> (\<forall>k < length (hps r). \<not> hflag (hps r ! k) \<longrightarrow> hptr (hps r ! k) = 0)
     \<and> distinct (map fst (reclaim_map r)) \<and> (\<forall>e \<in> set (reclaim_map r). rn_ptr (snd e) = fst e)
     \<and> length (hps r) = gsize r + 1 \<and> reclaim_pool r \<noteq> []"

definition own :: "reclaim_state \<Rightarrow> nat \<Rightarrow> u64" where
  "own r i = hptr (hps r ! (hp_list r ! i))"

text \<open>The indices of the thread's hazard pointers that are in use.\<close>

definition marked :: "reclaim_state \<Rightarrow> int set" where
  "marked r = {int i | i. i < length (hp_list r) \<and> own r i \<noteq> 0}"

definition pendingPtrs :: "reclaim_state \<Rightarrow> u64 set" where
  "pendingPtrs r = fst ` set (reclaim_map r)"

lemma newReclaimer_wf: "rc_wf (newReclaimer newHazardPointerList)"
  by (simp add: rc_wf_def newReclaimer_def newHazardPointerList_def)

lemma storeHp_facts:
  assumes "rc_wf r" and "i < length (hp_list r)"
  shows "rc_wf (storeHp (hp_list r ! i) p r)"
    and "j < length (hp_list r) \<Longrightarrow>
      own (storeHp (hp_list r ! i) p r) j = (if j = i then p else own r j)"
    and "hp_list (storeHp (hp_list r ! i) p r) = hp_list r"
    and "reclaim_map (storeHp (hp_list r ! i) p r) = reclaim_map r"
proof -
  have k: "hp_list r ! i < length (hps r)" "hflag (hps r ! (hp_list r ! i))"
    using assms by (auto simp: rc_wf_def)
  show "rc_wf (storeHp (hp_list r ! i) p r)"
    using assms k by (auto simp: rc_wf_def storeHp_def nth_list_update)
  show "own (storeHp (hp_list r ! i) p r) j = (if j = i then p else own r j)"
    if "j < length (hp_list r)"
    using that assms k by (auto simp: own_def storeHp_def nth_list_update rc_wf_def nth_eq_iff_index_eq)
qed (simp_all add: storeHp_def)

lemma UnMarkHazard_ok:
  assumes "rc_wf r" and "index = HP_INDEX_NULL \<or> 0 \<le> index \<and> index < int (length (hp_list r))"
  obtains r' where "UnMarkHazard index r = Inr r'" and "rc_wf r'" and "marked r' = marked r - {index}"
    and "hp_list r' = hp_list r" and "reclaim_map r' = reclaim_map r"
proof (cases "index = HP_INDEX_NULL")
  case True
  then have "index \<notin> marked r" by (auto simp: marked_def HP_INDEX_NULL_def)
  then show thesis using True that assms(1) by (simp add: UnMarkHazard_def)
next
  case False
  then obtain i where i: "index = int i" "i < length (hp_list r)"
    using assms(2) by (metis nat_0_le of_nat_less_iff)
  note f = storeHp_facts [OF assms(1) i(2), where p = 0]
  have "marked (storeHp (hp_list r ! i) 0 r) = marked r - {index}"
    using i f(2,3) by (auto simp: marked_def split: if_splits)
  then show thesis using that f i False by (simp add: UnMarkHazard_def)
qed

lemma TryAcquire_facts:
  assumes wf: "rc_wf r" and full: "\<forall>i < length (hp_list r). own r i \<noteq> 0"
  defines "r' \<equiv> TryAcquireHazardPointer r"
  shows "rc_wf r'" and "length (hp_list r') = length (hp_list r) + 1"
    and "\<And>i. i < length (hp_list r) \<Longrightarrow> own r' i = own r i"
    and "reclaim_map r' = reclaim_map r" and "own r' (length (hp_list r)) = 0"
proof -
  consider (idle) k where "find (\<lambda>k. \<not> hflag (hps r ! k)) (rev [0..<length (hps r)]) = Some k"
      "k < length (hps r)" "\<not> hflag (hps r ! k)"
    | (none) "find (\<lambda>k. \<not> hflag (hps r ! k)) (rev [0..<length (hps r)]) = None"
      "\<forall>k < length (hps r). hflag (hps r ! k)"
    by (cases "find (\<lambda>k. \<not> hflag (hps r ! k)) (rev [0..<length (hps r)])")
       (auto simp: find_None_iff find_Some_iff rev_nth)
  then have "rc_wf r' \<and> length (hp_list r') = length (hp_list r) + 1
      \<and> (\<forall>i < length (hp_list r). own r' i = own r i) \<and> reclaim_map r' = reclaim_map r
      \<and> own r' (length (hp_list r)) = 0"
  proof cases
    case idle
    have new: "k \<notin> set (hp_list r)" using idle(3) wf by (auto simp: rc_wf_def)
    have r': "r' = r\<lparr>hps := (hps r)[k := (hps r ! k)\<lparr>hflag := True\<rparr>], hp_list := hp_list r @ [k]\<rparr>"
      using idle(1) by (simp add: r'_def TryAcquireHazardPointer_def)
    have z: "hptr (hps r ! k) = 0" using wf idle(2,3) by (auto simp: rc_wf_def)
    have "rc_wf r'"
      using wf new idle(2) z unfolding r' by (auto simp: rc_wf_def nth_list_update)
    then show ?thesis
      using new idle(2) z by (auto simp: r' own_def nth_append nth_list_update)
  next
    case none
    have r': "r' = r\<lparr>hps := hps r @ [\<lparr>hflag = True, hptr = 0\<rparr>], gsize := gsize r + 1,
                  hp_list := hp_list r @ [length (hps r)]\<rparr>"
      using none(1) by (simp add: r'_def TryAcquireHazardPointer_def)
    have lt: "\<forall>k \<in> set (hp_list r). k < length (hps r)" using wf by (auto simp: rc_wf_def)
    have "rc_wf r'"
      using wf none(2) unfolding r' by (auto simp: rc_wf_def nth_append less_Suc_eq)
    then show ?thesis using lt by (auto simp: r' own_def nth_append)
  qed
  then show "rc_wf r'" "length (hp_list r') = length (hp_list r) + 1"
    "\<And>i. i < length (hp_list r) \<Longrightarrow> own r' i = own r i" "reclaim_map r' = reclaim_map r"
    "own r' (length (hp_list r)) = 0"
    by auto
qed

text \<open>
  Marking a pointer leaves every other hazard pointer of the thread alone: a hazard pointer that is
  in use is never taken for another node.
\<close>

lemma MarkHazard_ok:
  assumes wf: "rc_wf r" and "MarkHazard ptr r = (index, r')"
  shows "rc_wf r'" and "length (hp_list r) \<le> length (hp_list r')" and "reclaim_map r' = reclaim_map r"
    and "ptr = 0 \<Longrightarrow> index = HP_INDEX_NULL \<and> r' = r"
    and "ptr \<noteq> 0 \<Longrightarrow> 0 \<le> index \<and> index < int (length (hp_list r')) \<and> own r' (nat index) = ptr
      \<and> index \<notin> marked r \<and> marked r' = insert index (marked r)"
    and "\<And>i. int i \<in> marked r \<Longrightarrow> own r' i = own r i"
proof -
  have "rc_wf r' \<and> length (hp_list r) \<le> length (hp_list r') \<and> reclaim_map r' = reclaim_map r
      \<and> (ptr = 0 \<longrightarrow> index = HP_INDEX_NULL \<and> r' = r)
      \<and> (ptr \<noteq> 0 \<longrightarrow> 0 \<le> index \<and> index < int (length (hp_list r')) \<and> own r' (nat index) = ptr
          \<and> index \<notin> marked r \<and> marked r' = insert index (marked r))
      \<and> (\<forall>i. int i \<in> marked r \<longrightarrow> own r' i = own r i)"
  proof (cases "ptr = 0")
    case True
    then show ?thesis using assms by (auto simp: MarkHazard_def)
  next
    case nz: False
    let ?f = "find (\<lambda>i. hptr (hps r ! (hp_list r ! i)) = 0) [0..<length (hp_list r)]"
    show ?thesis
    proof (cases ?f)
      case (Some i)
      then have i: "i < length (hp_list r)" "own r i = 0"
        by (auto simp: find_Some_iff own_def)
      have eq: "index = int i" "r' = storeHp (hp_list r ! i) ptr r"
        using assms(2) nz Some by (auto simp: MarkHazard_def)
      note f = storeHp_facts [OF wf i(1), where p = ptr]
      show ?thesis using f i nz by (auto simp: eq marked_def)
    next
      case None
      then have full: "\<forall>i < length (hp_list r). own r i \<noteq> 0"
        by (auto simp: find_None_iff own_def)
      let ?r = "TryAcquireHazardPointer r"
      note t = TryAcquire_facts [OF wf full]
      have i: "length (hp_list r) < length (hp_list ?r)" using t(2) by simp
      have eq: "index = int (length (hp_list r))"
        "r' = storeHp (hp_list ?r ! length (hp_list r)) ptr ?r"
        using assms(2) nz None t(2) by (auto simp: MarkHazard_def Let_def)
      note f = storeHp_facts [OF t(1) i, where p = ptr]
      show ?thesis using f t(2-5) nz full by (auto simp: eq marked_def less_Suc_eq)
    qed
  qed
  then show "rc_wf r'" and "length (hp_list r) \<le> length (hp_list r')" and "reclaim_map r' = reclaim_map r"
    and "ptr = 0 \<Longrightarrow> index = HP_INDEX_NULL \<and> r' = r"
    and "ptr \<noteq> 0 \<Longrightarrow> 0 \<le> index \<and> index < int (length (hp_list r')) \<and> own r' (nat index) = ptr
      \<and> index \<notin> marked r \<and> marked r' = insert index (marked r)"
    and "\<And>i. int i \<in> marked r \<Longrightarrow> own r' i = own r i"
    by auto
qed

section \<open>Reclaiming is safe and complete\<close>

lemma reclaimLoop_facts:
  "reclaimLoop A m pool = (del, rest, pool') \<Longrightarrow> \<forall>e \<in> set m. rn_ptr (snd e) = fst e \<Longrightarrow>
   rest = filter (\<lambda>e. fst e \<in> A) m \<and> del = map fst (filter (\<lambda>e. fst e \<notin> A) m)
   \<and> (pool \<noteq> [] \<longrightarrow> pool' \<noteq> [])"
  by (induction A m pool arbitrary: del rest pool' rule: reclaimLoop.induct)
     (auto simp: poolPush_def split: if_splits prod.splits)

lemma ReclaimNoHazardPointer_facts:
  assumes wf: "rc_wf r" and run: "ReclaimNoHazardPointer r = (del, r')"
  shows "rc_wf r'" and "hps r' = hps r" and "hp_list r' = hp_list r"
    and "\<forall>p \<in> set del. p \<noteq> 0 \<longrightarrow> \<not> Hazard p r" and "distinct del"
    and "set del \<union> pendingPtrs r' = pendingPtrs r" and "set del \<inter> pendingPtrs r' = {}"
    and "kCoefficient * gsize r \<le> length (reclaim_map r) \<Longrightarrow> \<forall>p \<in> pendingPtrs r'. Hazard p r"
proof -
  let ?A = "set (filter (\<lambda>p. p \<noteq> 0) (map hptr (hps r)))"
  have nodes: "\<forall>e \<in> set (reclaim_map r). rn_ptr (snd e) = fst e" and pool: "reclaim_pool r \<noteq> []"
    and dist: "distinct (map fst (reclaim_map r))"
    using wf by (simp_all add: rc_wf_def)
  consider (few) "length (reclaim_map r) < kCoefficient * gsize r" "del = []" "r' = r"
    | (go) pool' where "kCoefficient * gsize r \<le> length (reclaim_map r)"
      "del = map fst (filter (\<lambda>e. fst e \<notin> ?A) (reclaim_map r))"
      "r' = r\<lparr>reclaim_map := filter (\<lambda>e. fst e \<in> ?A) (reclaim_map r), reclaim_pool := pool'\<rparr>"
      "pool' \<noteq> []"
    using run reclaimLoop_facts [OF _ nodes, of ?A "reclaim_pool r"] pool
    by (cases "reclaimLoop ?A (reclaim_map r) (reclaim_pool r)")
       (auto simp: ReclaimNoHazardPointer_def Let_def split: if_splits)
  then have "rc_wf r' \<and> hps r' = hps r \<and> hp_list r' = hp_list r
      \<and> (\<forall>p \<in> set del. p \<noteq> 0 \<longrightarrow> \<not> Hazard p r) \<and> distinct del
      \<and> set del \<union> pendingPtrs r' = pendingPtrs r \<and> set del \<inter> pendingPtrs r' = {}
      \<and> (kCoefficient * gsize r \<le> length (reclaim_map r) \<longrightarrow> (\<forall>p \<in> pendingPtrs r'. Hazard p r))"
  proof cases
    case few
    then show ?thesis using wf by simp
  next
    case go
    have "rc_wf r'" using wf go(4) unfolding go(3)
      by (auto simp: rc_wf_def intro: distinct_map_filter)
    then show ?thesis using dist go
      by (auto simp: Hazard_def pendingPtrs_def distinct_map_filter)
  qed
  then show "rc_wf r'" and "hps r' = hps r" and "hp_list r' = hp_list r"
    and "\<forall>p \<in> set del. p \<noteq> 0 \<longrightarrow> \<not> Hazard p r" and "distinct del"
    and "set del \<union> pendingPtrs r' = pendingPtrs r" and "set del \<inter> pendingPtrs r' = {}"
    and "kCoefficient * gsize r \<le> length (reclaim_map r) \<Longrightarrow> \<forall>p \<in> pendingPtrs r'. Hazard p r"
    by blast+
qed

lemma ReclaimLater_facts:
  assumes "rc_wf r"
  shows "rc_wf (ReclaimLater p r)" and "pendingPtrs (ReclaimLater p r) = insert p (pendingPtrs r)"
    and "hps (ReclaimLater p r) = hps r" and "hp_list (ReclaimLater p r) = hp_list r"
proof -
  obtain n pool where pop: "poolPop (reclaim_pool r) = (n, pool)" "pool \<noteq> []"
    using assms by (cases "reclaim_pool r" rule: poolPop.cases) (auto simp: rc_wf_def)
  then show "rc_wf (ReclaimLater p r)" "pendingPtrs (ReclaimLater p r) = insert p (pendingPtrs r)"
    "hps (ReclaimLater p r) = hps r" "hp_list (ReclaimLater p r) = hp_list r"
    using assms by (auto simp: rc_wf_def ReclaimLater_def pendingPtrs_def)
qed

section \<open>Properties\<close>

text \<open>
  C14. Reclaiming is safe and complete: no node that any thread's hazard pointer protects is deleted,
  each deleted node was handed over for deletion and is deleted once, nothing is lost, and once
  enough nodes wait, all that no hazard pointer protects are deleted.
\<close>

theorem reclaim_safe_and_complete:
  assumes "rc_wf r" and "ReclaimNoHazardPointer r = (del, r')"
  shows "rc_wf r' \<and> (\<forall>p \<in> set del. p \<noteq> 0 \<longrightarrow> \<not> Hazard p r) \<and> distinct del
    \<and> set del \<union> pendingPtrs r' = pendingPtrs r \<and> set del \<inter> pendingPtrs r' = {}
    \<and> (kCoefficient * gsize r \<le> length (reclaim_map r) \<longrightarrow> (\<forall>p \<in> pendingPtrs r'. Hazard p r))"
  using ReclaimNoHazardPointer_facts [OF assms] by blast

theorem reclaim_safe_and_complete_witness:
  "\<exists>del r'. ReclaimNoHazardPointer (ReclaimLater 48 (newReclaimer newHazardPointerList)) = (del, r')
    \<and> set del \<union> pendingPtrs r' = {48} \<and> (\<forall>p \<in> pendingPtrs r'. p = 0)"
proof -
  let ?r = "ReclaimLater 48 (newReclaimer newHazardPointerList)"
  obtain del r' where run: "ReclaimNoHazardPointer ?r = (del, r')" by fastforce
  have "pendingPtrs ?r = {48}" "gsize ?r = 0" "Hazard p ?r \<Longrightarrow> p = 0" for p
    by (simp_all add: ReclaimLater_def newReclaimer_def newHazardPointerList_def pendingPtrs_def Hazard_def)
  then show ?thesis
    using reclaim_safe_and_complete [OF ReclaimLater_facts(1) [OF newReclaimer_wf] run] run by auto
qed

lemma own_Hazard:
  assumes "rc_wf r" and "i < length (hp_list r)" and "own r i = p"
  shows "Hazard p r"
proof -
  have "hp_list r ! i < length (hps r)" using assms(1,2) by (auto simp: rc_wf_def)
  then have "hps r ! (hp_list r ! i) \<in> set (hps r)" by (rule nth_mem)
  then show ?thesis using assms(3) by (auto simp: Hazard_def own_def)
qed

text \<open>
  A marked node survives: after \<open>MarkHazard\<close> on a node, handing it over for deletion and
  reclaiming does not delete it; it stays in the set of waiting nodes. The other hazard pointers of
  the thread are untouched by the mark.
\<close>

lemma marked_node_survives:
  assumes "rc_wf r" and "p \<noteq> 0" and "MarkHazard p r = (i, r1)"
    and "ReclaimNoHazardPointer (ReclaimLater p r1) = (del, r2)"
  shows "p \<notin> set del \<and> p \<in> pendingPtrs r2 \<and> (\<forall>j. int j \<in> marked r \<longrightarrow> own r1 j = own r j)"
proof -
  note m = MarkHazard_ok [OF assms(1,3)]
  note l = ReclaimLater_facts [OF m(1)]
  have "Hazard p r1" using own_Hazard [OF m(1), of "nat i" p] m(5) assms(2) by (simp add: nat_less_iff)
  then have "Hazard p (ReclaimLater p r1)" using l(3) [of p] by (simp add: Hazard_def)
  then have "p \<notin> set del"
    using ReclaimNoHazardPointer_facts(4) [OF l(1) assms(4)] assms(2) by blast
  then show ?thesis
    using ReclaimNoHazardPointer_facts(6) [OF l(1) assms(4)] l(2) [of p] m(6) by blast
qed

end
