(* ===== verification/Hazard_Threads.thy ===== *)
theory Hazard_Threads
  imports Reclaimer
begin

text \<open>
  Hazard pointers between threads, \<open>src/include/net/container/reclaimer.h\<close> again, now as the steps of any
  number of threads that interleave at every access to shared memory: the walk that looks for an idle
  hazard pointer, the store of a hazard pointer, the check that the node is still linked (which the list
  makes after the store), the walk that collects the hazard pointers, and each deletion are steps of
  their own.

  The shared structure is the set of the nodes that are linked in it: a thread may link a node, which
  may have the address of one that was freed, and unlink one, which it hands to its reclaimer at once.
  A check succeeds only while the node is linked. The relation is defined twice over, by its first
  argument: with a fence after the store of a hazard pointer, and without one, as the code is written;
  then the store may stay in the buffer of the processor while the thread goes on, in the way that x86
  processors and release stores allow.
\<close>

section \<open>State\<close>

datatype hp_pc =
    Idle
  | Acquire u64 nat
  | Push u64
  | Store u64 nat
  | Validate u64 nat
  | Scan "u64 set" nat
  | Sweep "u64 set" "u64 list"
  | Exit_scan u64 nat
  | Gone

record hp_thread =
  own :: "nat list"
  retired :: "u64 list"
  hpc :: hp_pc
  held :: "nat \<rightharpoonup> u64"
  buf :: "(nat \<times> u64) list"

record hp_state =
  cells :: "internal_hazard_pointer list"
  hp_count :: nat
  linked :: "u64 set"
  freed :: "u64 set"
  threads :: "nat \<Rightarrow> hp_thread"

definition newThread :: hp_thread where
  "newThread = \<lparr>own = [], retired = [], hpc = Idle, held = Map.empty, buf = []\<rparr>"

definition hp_start :: hp_state where
  "hp_start = \<lparr>cells = fst newHazardPointerList, hp_count = snd newHazardPointerList, linked = {}, freed = {},
     threads = (\<lambda>t. newThread)\<rparr>"

definition setThread :: "nat \<Rightarrow> hp_thread \<Rightarrow> hp_state \<Rightarrow> hp_state" where
  "setThread t x s = s\<lparr>threads := (threads s)(t := x)\<rparr>"

definition storeCell :: "nat \<Rightarrow> u64 \<Rightarrow> hp_state \<Rightarrow> hp_state" where
  "storeCell k p s = s\<lparr>cells := (cells s)[k := (cells s ! k)\<lparr>hptr := p\<rparr>]\<rparr>"

text \<open>The value a thread sees in a cell: its own last store, or the shared one.\<close>

definition seen :: "hp_state \<Rightarrow> hp_thread \<Rightarrow> nat \<Rightarrow> u64" where
  "seen s x k = (case map_of (rev (buf x)) k of Some p \<Rightarrow> p | None \<Rightarrow> hptr (cells s ! k))"

definition nextExit :: "hp_state \<Rightarrow> u64 list \<Rightarrow> hp_pc" where
  "nextExit s ps = (case ps of [] \<Rightarrow> Gone | p # _ \<Rightarrow> Exit_scan p (length (cells s)))"

section \<open>Steps\<close>

inductive hp_step :: "bool \<Rightarrow> nat \<Rightarrow> hp_state \<Rightarrow> hp_state \<Rightarrow> bool" for fence t where
  \<comment> \<open>\<open>MarkHazard\<close>: an own cell that is free, or a new one\<close>
  mark_own: "threads s t = x \<Longrightarrow> hpc x = Idle \<Longrightarrow> p \<noteq> 0 \<Longrightarrow>
     find (\<lambda>k. seen s x k = 0) (own x) = Some k \<Longrightarrow>
     hp_step fence t s (setThread t (x\<lparr>hpc := Store p k\<rparr>) s)"
| mark_acquire: "threads s t = x \<Longrightarrow> hpc x = Idle \<Longrightarrow> p \<noteq> 0 \<Longrightarrow>
     find (\<lambda>k. seen s x k = 0) (own x) = None \<Longrightarrow>
     hp_step fence t s (setThread t (x\<lparr>hpc := Acquire p (length (cells s) - 1)\<rparr>) s)"
  \<comment> \<open>\<open>TryAcquireHazardPointer\<close>: walk the list, or push a new cell\<close>
| acquire_idle: "threads s t = x \<Longrightarrow> hpc x = Acquire p k \<Longrightarrow> buf x = [] \<Longrightarrow> \<not> hflag (cells s ! k) \<Longrightarrow>
     hp_step fence t s (setThread t (x\<lparr>hpc := Store p k, own := own x @ [k]\<rparr>)
       (s\<lparr>cells := (cells s)[k := (cells s ! k)\<lparr>hflag := True\<rparr>]\<rparr>))"
| acquire_next: "threads s t = x \<Longrightarrow> hpc x = Acquire p (Suc k) \<Longrightarrow> buf x = [] \<Longrightarrow> hflag (cells s ! Suc k) \<Longrightarrow>
     hp_step fence t s (setThread t (x\<lparr>hpc := Acquire p k\<rparr>) s)"
| acquire_none: "threads s t = x \<Longrightarrow> hpc x = Acquire p 0 \<Longrightarrow> buf x = [] \<Longrightarrow> hflag (cells s ! 0) \<Longrightarrow>
     hp_step fence t s (setThread t (x\<lparr>hpc := Push p\<rparr>) (s\<lparr>hp_count := hp_count s + 1\<rparr>))"
| push: "threads s t = x \<Longrightarrow> hpc x = Push p \<Longrightarrow> buf x = [] \<Longrightarrow>
     hp_step fence t s (setThread t (x\<lparr>hpc := Store p (length (cells s)), own := own x @ [length (cells s)]\<rparr>)
       (s\<lparr>cells := cells s @ [\<lparr>hflag = True, hptr = 0\<rparr>]\<rparr>))"
  \<comment> \<open>the store of the hazard pointer, and of \<open>nullptr\<close> in \<open>UnMarkHazard\<close>\<close>
| store: "threads s t = x \<Longrightarrow> hpc x = Store p k \<Longrightarrow> fence \<Longrightarrow>
     hp_step fence t s (setThread t (x\<lparr>hpc := Validate p k\<rparr>) (storeCell k p s))"
| store_buffered: "threads s t = x \<Longrightarrow> hpc x = Store p k \<Longrightarrow> \<not> fence \<Longrightarrow>
     hp_step fence t s (setThread t (x\<lparr>hpc := Validate p k, buf := buf x @ [(k, p)]\<rparr>) s)"
| unmark: "threads s t = x \<Longrightarrow> hpc x = Idle \<Longrightarrow> k \<in> set (own x) \<Longrightarrow> fence \<Longrightarrow>
     hp_step fence t s (setThread t (x\<lparr>held := (held x)(k := None)\<rparr>) (storeCell k 0 s))"
| unmark_buffered: "threads s t = x \<Longrightarrow> hpc x = Idle \<Longrightarrow> k \<in> set (own x) \<Longrightarrow> \<not> fence \<Longrightarrow>
     hp_step fence t s (setThread t (x\<lparr>held := (held x)(k := None), buf := buf x @ [(k, 0)]\<rparr>) s)"
| drain: "threads s t = x \<Longrightarrow> buf x = (k, p) # ps \<Longrightarrow>
     hp_step fence t s (setThread t (x\<lparr>buf := ps\<rparr>) (storeCell k p s))"
  \<comment> \<open>the list's check \<open>prev->next == cur\<close> after the store\<close>
| valid: "threads s t = x \<Longrightarrow> hpc x = Validate p k \<Longrightarrow> p \<in> linked s \<Longrightarrow>
     hp_step fence t s (setThread t (x\<lparr>hpc := Idle, held := (held x)(k \<mapsto> p)\<rparr>) s)"
| invalid: "threads s t = x \<Longrightarrow> hpc x = Validate p k \<Longrightarrow>
     hp_step fence t s (setThread t (x\<lparr>hpc := Idle\<rparr>) s)"
  \<comment> \<open>a node is linked into the structure; a node is unlinked, and \<open>ReclaimLater\<close>\<close>
| link: "threads s t = x \<Longrightarrow> hpc x = Idle \<Longrightarrow> buf x = [] \<Longrightarrow> p \<noteq> 0 \<Longrightarrow> p \<notin> linked s \<Longrightarrow>
     (\<forall>u. p \<notin> set (retired (threads s u))) \<Longrightarrow>
     hp_step fence t s (s\<lparr>linked := insert p (linked s), freed := freed s - {p}\<rparr>)"
| retire: "threads s t = x \<Longrightarrow> hpc x = Idle \<Longrightarrow> buf x = [] \<Longrightarrow> p \<in> linked s \<Longrightarrow>
     hp_step fence t s (setThread t (x\<lparr>retired := retired x @ [p]\<rparr>) (s\<lparr>linked := linked s - {p}\<rparr>))"
  \<comment> \<open>\<open>ReclaimNoHazardPointer\<close>: collect the hazard pointers, then delete\<close>
| scan_start: "threads s t = x \<Longrightarrow> hpc x = Idle \<Longrightarrow> kCoefficient * hp_count s \<le> length (retired x) \<Longrightarrow>
     hp_step fence t s (setThread t (x\<lparr>hpc := Scan {} (length (cells s))\<rparr>) s)"
| scan_read: "threads s t = x \<Longrightarrow> hpc x = Scan A (Suc k) \<Longrightarrow>
     hp_step fence t s (setThread t (x\<lparr>hpc :=
       Scan (if seen s x k \<noteq> 0 then insert (seen s x k) A else A) k\<rparr>) s)"
| scan_done: "threads s t = x \<Longrightarrow> hpc x = Scan A 0 \<Longrightarrow>
     hp_step fence t s (setThread t (x\<lparr>hpc := Sweep A (retired x)\<rparr>) s)"
| sweep_free: "threads s t = x \<Longrightarrow> hpc x = Sweep A (p # ps) \<Longrightarrow> p \<notin> A \<Longrightarrow>
     hp_step fence t s (setThread t (x\<lparr>hpc := Sweep A ps, retired := remove1 p (retired x)\<rparr>)
       (s\<lparr>freed := insert p (freed s)\<rparr>))"
| sweep_keep: "threads s t = x \<Longrightarrow> hpc x = Sweep A (p # ps) \<Longrightarrow> p \<in> A \<Longrightarrow>
     hp_step fence t s (setThread t (x\<lparr>hpc := Sweep A ps\<rparr>) s)"
| sweep_done: "threads s t = x \<Longrightarrow> hpc x = Sweep A [] \<Longrightarrow>
     hp_step fence t s (setThread t (x\<lparr>hpc := Idle\<rparr>) s)"
  \<comment> \<open>\<open>~Reclaimer\<close>: hand over the cells, wait for each node that is left, delete it\<close>
| exit_start: "threads s t = x \<Longrightarrow> hpc x = Idle \<Longrightarrow> buf x = [] \<Longrightarrow> (\<forall>k \<in> set (own x). hptr (cells s ! k) = 0) \<Longrightarrow>
     cs = map (\<lambda>k. if k \<in> set (own x) then (cells s ! k)\<lparr>hflag := False\<rparr> else cells s ! k) [0..<length (cells s)] \<Longrightarrow>
     hp_step fence t s (setThread t (x\<lparr>hpc := nextExit s (retired x), own := []\<rparr>) (s\<lparr>cells := cs\<rparr>))"
| exit_read: "threads s t = x \<Longrightarrow> hpc x = Exit_scan p (Suc k) \<Longrightarrow>
     hp_step fence t s (setThread t (x\<lparr>hpc :=
       Exit_scan p (if hptr (cells s ! k) = p then length (cells s) else k)\<rparr>) s)"
| exit_free: "threads s t = x \<Longrightarrow> hpc x = Exit_scan p 0 \<Longrightarrow> ps = remove1 p (retired x) \<Longrightarrow>
     hp_step fence t s (setThread t (x\<lparr>hpc := nextExit s ps, retired := ps\<rparr>) (s\<lparr>freed := insert p (freed s)\<rparr>))"

inductive hp_reach :: "bool \<Rightarrow> hp_state \<Rightarrow> bool" for fence where
  start: "hp_reach fence hp_start"
| step: "hp_reach fence s \<Longrightarrow> hp_step fence t s s' \<Longrightarrow> hp_reach fence s'"

section \<open>The invariant\<close>

text \<open>What a thread may rely on at its program point; \<open>held\<close> of the others is what it must not free.\<close>

fun pc_ok :: "hp_state \<Rightarrow> hp_thread \<Rightarrow> hp_pc \<Rightarrow> bool" where
  "pc_ok s x (Acquire p k) \<longleftrightarrow> p \<noteq> 0 \<and> k < length (cells s)"
| "pc_ok s x (Push p) \<longleftrightarrow> p \<noteq> 0"
| "pc_ok s x (Store p k) \<longleftrightarrow> p \<noteq> 0 \<and> k \<in> set (own x) \<and> held x k = None"
| "pc_ok s x (Validate p k) \<longleftrightarrow> p \<noteq> 0 \<and> k \<in> set (own x) \<and> held x k = None \<and> hptr (cells s ! k) = p"
| "pc_ok s x (Scan A j) \<longleftrightarrow> j \<le> length (cells s)
     \<and> (\<forall>u k p. held (threads s u) k = Some p \<longrightarrow> p \<in> set (retired x) \<longrightarrow> k < j \<or> p \<in> A)"
| "pc_ok s x (Sweep A todo) \<longleftrightarrow> set todo \<subseteq> set (retired x) \<and> distinct todo
     \<and> (\<forall>u k p. held (threads s u) k = Some p \<longrightarrow> p \<in> set todo \<longrightarrow> p \<in> A)"
| "pc_ok s x (Exit_scan q j) \<longleftrightarrow> j \<le> length (cells s) \<and> q \<in> set (retired x)
     \<and> (\<forall>u k. held (threads s u) k = Some q \<longrightarrow> k < j)"
| "pc_ok s x Idle \<longleftrightarrow> True"
| "pc_ok s x Gone \<longleftrightarrow> True"

definition owns_ok :: "hp_state \<Rightarrow> bool" where
  "owns_ok s \<longleftrightarrow> cells s \<noteq> []
     \<and> (\<forall>t. distinct (own (threads s t)) \<and> buf (threads s t) = [])
     \<and> (\<forall>t. \<forall>k \<in> set (own (threads s t)). k < length (cells s) \<and> hflag (cells s ! k))
     \<and> (\<forall>t u k. k \<in> set (own (threads s t)) \<longrightarrow> k \<in> set (own (threads s u)) \<longrightarrow> t = u)"

definition nodes_ok :: "hp_state \<Rightarrow> bool" where
  "nodes_ok s \<longleftrightarrow> 0 \<notin> linked s \<and> linked s \<inter> freed s = {}
     \<and> (\<forall>t. distinct (retired (threads s t)) \<and> 0 \<notin> set (retired (threads s t)))
     \<and> (\<forall>t. set (retired (threads s t)) \<inter> (linked s \<union> freed s) = {})
     \<and> (\<forall>t u p. p \<in> set (retired (threads s t)) \<longrightarrow> p \<in> set (retired (threads s u)) \<longrightarrow> t = u)"

definition held_ok :: "hp_state \<Rightarrow> bool" where
  "held_ok s \<longleftrightarrow> (\<forall>t k p. held (threads s t) k = Some p \<longrightarrow>
     k \<in> set (own (threads s t)) \<and> hptr (cells s ! k) = p \<and> p \<noteq> 0
     \<and> (p \<in> linked s \<or> (\<exists>u. p \<in> set (retired (threads s u)))))"

definition hp_inv :: "hp_state \<Rightarrow> bool" where
  "hp_inv s \<longleftrightarrow> owns_ok s \<and> nodes_ok s \<and> held_ok s \<and> (\<forall>t. pc_ok s (threads s t) (hpc (threads s t)))"

lemma pc_ok_frame:
  assumes "pc_ok s x pc" and "length (cells s) \<le> length (cells s')"
    and "\<And>k. k \<in> set (own x) \<Longrightarrow> hptr (cells s' ! k) = hptr (cells s ! k)"
    and "\<And>u k p. held (threads s' u) k = Some p \<Longrightarrow> held (threads s u) k = Some p \<or> p \<notin> set (retired x)"
  shows "pc_ok s' x pc"
proof (cases pc)
  case (Scan A j)
  then show ?thesis using assms(1,2,4) by fastforce
next
  case (Sweep A todo)
  then show ?thesis using assms(1,4) by simp (meson subsetD)
next
  case (Exit_scan q j)
  then show ?thesis using assms(1,2,4) by simp (meson order_trans)
qed (use assms(1-3) in auto)

text \<open>
  The shape of every step: one thread moves, the cells of the others stay, and what is newly held is
  linked.
\<close>

lemma hp_inv_step:
  assumes inv: "hp_inv s" and th: "threads s' = (threads s)(t := x')"
    and parts: "owns_ok s'" "nodes_ok s'" "held_ok s'" "pc_ok s' x' (hpc x')"
    and len: "length (cells s) \<le> length (cells s')"
    and cell: "\<And>u k. u \<noteq> t \<Longrightarrow> k \<in> set (own (threads s u)) \<Longrightarrow> hptr (cells s' ! k) = hptr (cells s ! k)"
    and new: "\<And>k p. held x' k = Some p \<Longrightarrow> held (threads s t) k = Some p \<or> p \<in> linked s"
  shows "hp_inv s'"
proof -
  have "pc_ok s' (threads s' u) (hpc (threads s' u))" for u
  proof (cases "u = t")
    case True
    then show ?thesis using th parts(4) by simp
  next
    case False
    have "pc_ok s (threads s u) (hpc (threads s u))" using inv by (simp add: hp_inv_def)
    then have "pc_ok s' (threads s u) (hpc (threads s u))"
    proof (rule pc_ok_frame [OF _ len])
      show "hptr (cells s' ! k) = hptr (cells s ! k)" if "k \<in> set (own (threads s u))" for k
        by (rule cell [OF False that])
      show "held (threads s v) k = Some p \<or> p \<notin> set (retired (threads s u))"
        if "held (threads s' v) k = Some p" for v k p
        using that new [of k p] inv th by (auto simp: hp_inv_def nodes_ok_def split: if_splits)
    qed
    then show ?thesis using th False by simp
  qed
  then show ?thesis using parts by (simp add: hp_inv_def)
qed

lemmas hp_parts = owns_ok_def nodes_ok_def held_ok_def

lemma hp_invD:
  assumes "hp_inv s"
  shows "owns_ok s" and "nodes_ok s" and "held_ok s" and "pc_ok s (threads s t) (hpc (threads s t))"
  using assms by (simp_all add: hp_inv_def)

lemma held_cell:
  assumes "hp_inv s" and "held (threads s t) k = Some p"
  shows "k < length (cells s)" and "hptr (cells s ! k) = p" and "p \<noteq> 0" and "k \<in> set (own (threads s t))"
proof -
  have "k \<in> set (own (threads s t)) \<and> hptr (cells s ! k) = p \<and> p \<noteq> 0"
    using assms unfolding hp_inv_def held_ok_def by blast
  moreover have "\<forall>k \<in> set (own (threads s t)). k < length (cells s)"
    using assms(1) unfolding hp_inv_def owns_ok_def by blast
  ultimately show "k < length (cells s)" and "hptr (cells s ! k) = p" and "p \<noteq> 0" and "k \<in> set (own (threads s t))"
    by blast+
qed

lemma seen_shared: "hp_inv s \<Longrightarrow> seen s (threads s t) k = hptr (cells s ! k)"
  by (simp add: hp_inv_def owns_ok_def seen_def)

text \<open>The three parts that do not look at the program points.\<close>

lemma owns_cong:
  assumes "\<And>u. own (threads s' u) = own (threads s u)" and "\<And>u. buf (threads s' u) = buf (threads s u)"
    and "cells s' = cells s"
  shows "owns_ok s' = owns_ok s"
  by (simp add: owns_ok_def assms)

lemma nodes_cong:
  assumes "\<And>u. retired (threads s' u) = retired (threads s u)" and "linked s' = linked s" and "freed s' = freed s"
  shows "nodes_ok s' = nodes_ok s"
  by (simp add: nodes_ok_def assms)

lemma held_mono:
  assumes "held_ok s"
    and "\<And>u k p. held (threads s' u) k = Some p \<Longrightarrow>
      held (threads s u) k = Some p \<and> hptr (cells s' ! k) = hptr (cells s ! k)"
    and "\<And>u. set (own (threads s u)) \<subseteq> set (own (threads s' u))"
    and "\<And>u k p. held (threads s' u) k = Some p \<Longrightarrow> p \<in> linked s \<or> (\<exists>v. p \<in> set (retired (threads s v))) \<Longrightarrow>
      p \<in> linked s' \<or> (\<exists>v. p \<in> set (retired (threads s' v)))"
  shows "held_ok s'"
  unfolding held_ok_def
proof (intro allI impI)
  fix u k p
  assume h: "held (threads s' u) k = Some p"
  then have "held (threads s u) k = Some p" and c: "hptr (cells s' ! k) = hptr (cells s ! k)"
    using assms(2) by blast+
  then have "k \<in> set (own (threads s u)) \<and> hptr (cells s ! k) = p \<and> p \<noteq> 0
      \<and> (p \<in> linked s \<or> (\<exists>v. p \<in> set (retired (threads s v))))"
    using assms(1) unfolding held_ok_def by blast
  then show "k \<in> set (own (threads s' u)) \<and> hptr (cells s' ! k) = p \<and> p \<noteq> 0
      \<and> (p \<in> linked s' \<or> (\<exists>v. p \<in> set (retired (threads s' v))))"
    using c assms(3,4) h by (metis subsetD)
qed

lemma nodes_cong_set:
  "(\<And>u. retired (threads s' u) = retired (threads s u)) \<Longrightarrow> linked s' = linked s \<Longrightarrow>
   p \<in> linked s \<or> (\<exists>v. p \<in> set (retired (threads s v))) \<Longrightarrow>
   p \<in> linked s' \<or> (\<exists>v. p \<in> set (retired (threads s' v)))"
  by simp

lemma threads_setThread [simp]:
  "threads (setThread t x s) = (threads s)(t := x)" "cells (setThread t x s) = cells s"
  "linked (setThread t x s) = linked s" "freed (setThread t x s) = freed s"
  by (simp_all add: setThread_def)

text \<open>A step that only moves the program point.\<close>

lemma move_inv:
  assumes inv: "hp_inv s" and pc: "pc_ok s (threads s t) pc"
  shows "hp_inv (setThread t ((threads s t)\<lparr>hpc := pc\<rparr>) s)"
proof (rule hp_inv_step [OF inv])
  let ?x = "(threads s t)\<lparr>hpc := pc\<rparr>"
  let ?s = "setThread t ?x s"
  show "threads ?s = (threads s)(t := ?x)" by (simp add: setThread_def)
  show "owns_ok ?s" "nodes_ok ?s" "held_ok ?s"
    using hp_invD(1-3) [OF inv] by (simp_all add: owns_cong [of ?s s] nodes_cong [of ?s s])
       (erule held_mono; auto intro: nodes_cong_set split: if_splits)
  have "pc_ok s ?x pc" using pc by (cases pc) auto
  then have "pc_ok ?s ?x pc"
    by (rule pc_ok_frame) (auto simp: setThread_def split: if_splits)
  then show "pc_ok ?s ?x (hpc ?x)" by simp
qed (auto simp: setThread_def)

lemma scan_read_ok:
  assumes inv: "hp_inv s" and "pc_ok s x (Scan A (Suc k))"
  shows "pc_ok s x (Scan (if hptr (cells s ! k) \<noteq> 0 then insert (hptr (cells s ! k)) A else A) k)"
proof -
  have "k' < k \<or> p \<in> (if hptr (cells s ! k) \<noteq> 0 then insert (hptr (cells s ! k)) A else A)"
    if h: "held (threads s u) k' = Some p" and "p \<in> set (retired x)" for u k' p
  proof (cases "k' = k")
    case True
    then show ?thesis using held_cell [OF inv h] by simp
  next
    case False
    have "k' < Suc k \<or> p \<in> A" using assms(2) that by simp
    then show ?thesis using False by auto
  qed
  then show ?thesis using assms(2) by simp
qed

lemma exit_read_ok:
  assumes inv: "hp_inv s" and "pc_ok s x (Exit_scan p (Suc k))"
  shows "pc_ok s x (Exit_scan p (if hptr (cells s ! k) = p then length (cells s) else k))"
proof -
  have "k' < (if hptr (cells s ! k) = p then length (cells s) else k)"
    if h: "held (threads s u) k' = Some p" for u k'
  proof (cases "hptr (cells s ! k) = p")
    case False
    then have "k' \<noteq> k" using held_cell(2) [OF inv h] by auto
    moreover have "k' < Suc k" using assms(2) h by simp
    ultimately show ?thesis using False by simp
  qed (use held_cell(1) [OF inv h] in simp)
  then show ?thesis using assms(2) by simp
qed

lemma walk_inv:
  assumes inv: "hp_inv s" and p: "p \<noteq> 0"
  shows "find (\<lambda>k. seen s (threads s t) k = 0) (own (threads s t)) = Some k \<Longrightarrow> pc_ok s (threads s t) (Store p k)"
    and "pc_ok s (threads s t) (Acquire p (length (cells s) - 1))"
    and "pc_ok s (threads s t) (Scan {} (length (cells s)))"
    and "pc_ok s (threads s t) (Scan A 0) \<Longrightarrow> pc_ok s (threads s t) (Sweep A (retired (threads s t)))"
proof -
  show "pc_ok s (threads s t) (Store p k)" if "find (\<lambda>k. seen s (threads s t) k = 0) (own (threads s t)) = Some k"
  proof -
    have k: "k \<in> set (own (threads s t))" "hptr (cells s ! k) = 0"
      using that seen_shared [OF inv] by (auto simp: find_Some_iff)
    then show ?thesis using held_cell(2,3) [OF inv, of t k] p by (cases "held (threads s t) k") auto
  qed
  show "pc_ok s (threads s t) (Acquire p (length (cells s) - 1))"
    using p hp_invD(1) [OF inv] by (cases "cells s") (auto simp: owns_ok_def)
  show "pc_ok s (threads s t) (Scan {} (length (cells s)))" using held_cell(1) [OF inv] by auto
  show "pc_ok s (threads s t) (Sweep A (retired (threads s t)))" if "pc_ok s (threads s t) (Scan A 0)"
    using that hp_invD(2) [OF inv] by (auto simp: nodes_ok_def)
qed

text \<open>Acquiring a cell: it becomes the thread's own.\<close>

lemma acquire_inv:
  assumes inv: "hp_inv s" and pc: "hpc (threads s t) = Acquire p k" and idle: "\<not> hflag (cells s ! k)"
  shows "hp_inv (setThread t ((threads s t)\<lparr>hpc := Store p k, own := own (threads s t) @ [k]\<rparr>)
       (s\<lparr>cells := (cells s)[k := (cells s ! k)\<lparr>hflag := True\<rparr>]\<rparr>))" (is "hp_inv ?s")
proof (rule hp_inv_step [OF inv])
  let ?x = "(threads s t)\<lparr>hpc := Store p k, own := own (threads s t) @ [k]\<rparr>"
  note o = hp_invD(1) [OF inv, unfolded owns_ok_def]
  have k: "k < length (cells s)" "p \<noteq> 0" using hp_invD(4) [OF inv, of t] pc by auto
  have free: "k \<notin> set (own (threads s u))" for u using o idle by blast
  then have nh: "held (threads s u) k = None" for u using held_cell(4) [OF inv, of u k] by (cases "held (threads s u) k") auto
  have ptr: "hptr (cells ?s ! j) = hptr (cells s ! j)" for j
    using k by (cases "j = k") (simp_all add: setThread_def)
  show "threads ?s = (threads s)(t := ?x)" by (simp add: setThread_def)
  show "owns_ok ?s"
    unfolding owns_ok_def using o k free by (auto simp: nth_list_update)
  show "nodes_ok ?s" using hp_invD(2) [OF inv] by (simp add: nodes_cong [of ?s s])
  show "held_ok ?s"
    using hp_invD(3) [OF inv]
  proof (rule held_mono)
    show "held (threads s u) j = Some q \<and> hptr (cells ?s ! j) = hptr (cells s ! j)"
      if "held (threads ?s u) j = Some q" for u j q
      using that ptr by (auto split: if_splits)
  qed (auto intro: nodes_cong_set split: if_splits)
  show "pc_ok ?s ?x (hpc ?x)" using k(2) nh by simp
  show "hptr (cells ?s ! j) = hptr (cells s ! j)" if "u \<noteq> t" for u j by (rule ptr)
qed (auto simp: setThread_def)

lemma push_inv:
  assumes inv: "hp_inv s" and pc: "hpc (threads s t) = Push p"
  shows "hp_inv (setThread t ((threads s t)\<lparr>hpc := Store p (length (cells s)),
         own := own (threads s t) @ [length (cells s)]\<rparr>)
       (s\<lparr>cells := cells s @ [\<lparr>hflag = True, hptr = 0\<rparr>]\<rparr>))" (is "hp_inv ?s")
proof (rule hp_inv_step [OF inv])
  let ?x = "(threads s t)\<lparr>hpc := Store p (length (cells s)), own := own (threads s t) @ [length (cells s)]\<rparr>"
  note o = hp_invD(1) [OF inv, unfolded owns_ok_def]
  have old: "k < length (cells s)" if "k \<in> set (own (threads s u))" for u k using o that by blast
  then have fresh: "length (cells s) \<notin> set (own (threads s u))" for u by blast
  have nh: "held (threads s u) (length (cells s)) = None" for u
    using held_cell(1) [OF inv, of u "length (cells s)"] by (cases "held (threads s u) (length (cells s))") auto
  show "threads ?s = (threads s)(t := ?x)" by simp
  show "owns_ok ?s"
    unfolding owns_ok_def using o fresh by (auto simp: nth_append dest: old)
  show "nodes_ok ?s" using hp_invD(2) [OF inv] by (simp add: nodes_cong [of ?s s])
  show "held_ok ?s"
    using hp_invD(3) [OF inv]
  proof (rule held_mono)
    show "held (threads s u) j = Some q \<and> hptr (cells ?s ! j) = hptr (cells s ! j)"
      if "held (threads ?s u) j = Some q" for u j q
    proof -
      have "held (threads s u) j = Some q" using that by (auto split: if_splits)
      then show ?thesis using held_cell(1) [OF inv] by (simp add: nth_append)
    qed
  qed (auto intro: nodes_cong_set split: if_splits)
  show "pc_ok ?s ?x (hpc ?x)" using hp_invD(4) [OF inv, of t] pc nh by simp
  show "hptr (cells ?s ! k) = hptr (cells s ! k)" if "k \<in> set (own (threads s u))" for u k
    using old [OF that] by (simp add: nth_append)
qed auto

text \<open>Stores into an own cell: of the pointer, before it is held, and of \<open>nullptr\<close>.\<close>

lemma store_inv:
  assumes inv: "hp_inv s" and k: "k \<in> set (own (threads s t))"
    and x: "own x = own (threads s t)" "retired x = retired (threads s t)" "buf x = []"
    and h: "held x = (held (threads s t))(k := None)"
    and pc: "hpc x = Validate p k \<and> p \<noteq> 0 \<or> hpc x = Idle"
  shows "hp_inv (setThread t x (storeCell k p s))" (is "hp_inv ?s")
proof (rule hp_inv_step [OF inv])
  note o = hp_invD(1) [OF inv, unfolded owns_ok_def]
  have len: "k < length (cells s)" using o k by blast
  have ptr: "hptr (cells ?s ! j) = hptr (cells s ! j)" if "j \<noteq> k" for j
    using that by (simp add: storeCell_def)
  have other: "j \<noteq> k" if "u \<noteq> t" "j \<in> set (own (threads s u))" for u j using o k that by blast
  show "threads ?s = (threads s)(t := x)" by (simp add: storeCell_def)
  show "owns_ok ?s"
    unfolding owns_ok_def using o len x by (auto simp: storeCell_def nth_list_update)
  show "nodes_ok ?s" using hp_invD(2) [OF inv] x by (subst nodes_cong [of ?s s]) (simp_all add: storeCell_def)
  show "held_ok ?s"
    using hp_invD(3) [OF inv]
  proof (rule held_mono)
    show "held (threads s u) j = Some q \<and> hptr (cells ?s ! j) = hptr (cells s ! j)"
      if hu: "held (threads ?s u) j = Some q" for u j q
    proof (cases "u = t")
      case True
      then have "j \<noteq> k" "held (threads s u) j = Some q" using hu h by (auto simp: storeCell_def split: if_splits)
      then show ?thesis using ptr by blast
    next
      case False
      then have "held (threads s u) j = Some q" using hu by (simp add: storeCell_def)
      then show ?thesis using ptr other [OF False] held_cell(4) [OF inv] by blast
    qed
  qed (auto simp: storeCell_def x intro: nodes_cong_set split: if_splits)
  show "pc_ok ?s x (hpc x)" using pc k x(1) h len by (auto simp: storeCell_def)
  show "hptr (cells ?s ! j) = hptr (cells s ! j)" if "u \<noteq> t" "j \<in> set (own (threads s u))" for u j
    by (rule ptr [OF other [OF that]])
qed (auto simp: storeCell_def h split: if_splits)

lemma valid_inv:
  assumes inv: "hp_inv s" and pc: "hpc (threads s t) = Validate p k" and p: "p \<in> linked s"
  shows "hp_inv (setThread t ((threads s t)\<lparr>hpc := Idle, held := (held (threads s t))(k \<mapsto> p)\<rparr>) s)" (is "hp_inv ?s")
proof (rule hp_inv_step [OF inv])
  let ?x = "(threads s t)\<lparr>hpc := Idle, held := (held (threads s t))(k \<mapsto> p)\<rparr>"
  have v: "p \<noteq> 0" "k \<in> set (own (threads s t))" "hptr (cells s ! k) = p"
    using hp_invD(4) [OF inv, of t] pc by simp_all
  show "threads ?s = (threads s)(t := ?x)" by simp
  show "owns_ok ?s" using hp_invD(1) [OF inv] by (simp add: owns_cong [of ?s s])
  show "nodes_ok ?s" using hp_invD(2) [OF inv] by (simp add: nodes_cong [of ?s s])
  have "\<And>q. (\<exists>u. q \<in> set (retired (threads ?s u))) \<longleftrightarrow> (\<exists>u. q \<in> set (retired (threads s u)))"
    by (auto split: if_splits)
  then show "held_ok ?s" using hp_invD(3) [OF inv] v p unfolding held_ok_def by (auto split: if_splits)
qed (use p in \<open>auto split: if_splits\<close>)

text \<open>The structure: linking and unlinking a node.\<close>

lemma link_inv:
  assumes inv: "hp_inv s" and p: "p \<noteq> 0" "p \<notin> linked s" "\<forall>u. p \<notin> set (retired (threads s u))"
  shows "hp_inv (s\<lparr>linked := insert p (linked s), freed := freed s - {p}\<rparr>)" (is "hp_inv ?s")
proof (rule hp_inv_step [OF inv, where t = t and x' = "threads s t" for t])
  show "owns_ok ?s" using hp_invD(1) [OF inv] by (simp add: owns_cong [of ?s s])
  show "nodes_ok ?s" using hp_invD(2) [OF inv] p unfolding nodes_ok_def by auto
  show "held_ok ?s" using hp_invD(3) [OF inv] unfolding held_ok_def by auto
  show "pc_ok ?s (threads s t) (hpc (threads s t))" for t
    by (rule pc_ok_frame [OF hp_invD(4) [OF inv]]) auto
qed auto

lemma retire_inv:
  assumes inv: "hp_inv s" and p: "p \<in> linked s" and idle: "hpc (threads s t) = Idle"
  shows "hp_inv (setThread t ((threads s t)\<lparr>retired := retired (threads s t) @ [p]\<rparr>) (s\<lparr>linked := linked s - {p}\<rparr>))"
    (is "hp_inv ?s")
proof (rule hp_inv_step [OF inv])
  let ?x = "(threads s t)\<lparr>retired := retired (threads s t) @ [p]\<rparr>"
  note n = hp_invD(2) [OF inv, unfolded nodes_ok_def]
  have new: "p \<noteq> 0" "p \<notin> freed s" "\<And>u. p \<notin> set (retired (threads s u))" using n p by auto
  show "threads ?s = (threads s)(t := ?x)" by simp
  show "owns_ok ?s" using hp_invD(1) [OF inv] by (subst owns_cong [of ?s s]) simp_all
  show "nodes_ok ?s" unfolding nodes_ok_def using n new by (auto split: if_splits)
  show "held_ok ?s"
    using hp_invD(3) [OF inv]
  proof (rule held_mono)
    show "q \<in> linked ?s \<or> (\<exists>v. q \<in> set (retired (threads ?s v)))"
      if "q \<in> linked s \<or> (\<exists>v. q \<in> set (retired (threads s v)))" for q
      using that by (auto intro: exI [of _ t])
  qed (auto split: if_splits)
  show "pc_ok ?s ?x (hpc ?x)" using idle by simp
qed auto

text \<open>Freeing a node that nobody holds.\<close>

lemma free_inv:
  assumes inv: "hp_inv s" and p: "p \<in> set (retired (threads s t))"
    and unheld: "\<And>u k. held (threads s u) k \<noteq> Some p"
    and x: "own x = own (threads s t)" "buf x = []" "held x = held (threads s t)"
      "retired x = remove1 p (retired (threads s t))"
    and pc: "pc_ok s x (hpc x)"
  shows "hp_inv (setThread t x (s\<lparr>freed := insert p (freed s)\<rparr>))" (is "hp_inv ?s")
proof (rule hp_inv_step [OF inv])
  note n = hp_invD(2) [OF inv, unfolded nodes_ok_def]
  have ret: "set (retired x) = set (retired (threads s t)) - {p}" using n x(4) by simp
  have other: "p \<notin> set (retired (threads s u))" if "u \<noteq> t" for u using n p that by blast
  show "threads ?s = (threads s)(t := x)" by simp
  show "owns_ok ?s"
    using hp_invD(1) [OF inv] x unfolding owns_ok_def by auto
  show "nodes_ok ?s" unfolding nodes_ok_def using n ret other x(4) p by (auto split: if_splits)
  show "held_ok ?s"
    using hp_invD(3) [OF inv]
  proof (rule held_mono)
    show "q \<in> linked ?s \<or> (\<exists>v. q \<in> set (retired (threads ?s v)))"
      if h: "held (threads ?s u) k = Some q" and "q \<in> linked s \<or> (\<exists>v. q \<in> set (retired (threads s v)))" for u k q
    proof -
      have "q \<noteq> p" using h unheld [of u k] unheld [of t k] x(3) by (auto split: if_splits)
      then show ?thesis using that(2) ret by (auto intro: exI [of _ t])
    qed
  qed (auto simp: x split: if_splits)
  have "pc_ok s x (hpc x)" by (rule pc)
  then show "pc_ok ?s x (hpc x)" by (rule pc_ok_frame) (auto simp: x split: if_splits)
qed (auto simp: x)

lemma nextExit_ok:
  assumes "hp_inv s" and "set ps \<subseteq> set (retired x)"
  shows "pc_ok s x (nextExit s ps)"
  using assms held_cell(1) [OF assms(1)] by (auto simp: nextExit_def split: list.splits)

lemma exit_inv:
  assumes inv: "hp_inv s" and clear: "\<forall>k \<in> set (own (threads s t)). hptr (cells s ! k) = 0"
    and cs: "cs = map (\<lambda>k. if k \<in> set (own (threads s t)) then (cells s ! k)\<lparr>hflag := False\<rparr> else cells s ! k)
      [0..<length (cells s)]"
  shows "hp_inv (setThread t ((threads s t)\<lparr>hpc := nextExit s (retired (threads s t)), own := []\<rparr>) (s\<lparr>cells := cs\<rparr>))"
    (is "hp_inv ?s")
proof (rule hp_inv_step [OF inv])
  let ?x = "(threads s t)\<lparr>hpc := nextExit s (retired (threads s t)), own := []\<rparr>"
  note o = hp_invD(1) [OF inv, unfolded owns_ok_def]
  have len: "length cs = length (cells s)" by (simp add: cs)
  have ptr: "hptr (cs ! j) = hptr (cells s ! j)" if "j < length (cells s)" for j using that by (simp add: cs)
  have none: "held (threads s t) k = None" for k
    using held_cell [OF inv, of t k] clear by (cases "held (threads s t) k") auto
  show "threads ?s = (threads s)(t := ?x)" by simp
  show "owns_ok ?s"
    unfolding owns_ok_def using o len by (auto simp: cs)
  show "nodes_ok ?s" using hp_invD(2) [OF inv] by (subst nodes_cong [of ?s s]) simp_all
  show "held_ok ?s"
    unfolding held_ok_def
  proof (intro allI impI)
    fix u k p
    assume "held (threads ?s u) k = Some p"
    then have u: "u \<noteq> t" and h: "held (threads s u) k = Some p" using none by (auto split: if_splits)
    have "p \<in> linked s \<or> (\<exists>v. p \<in> set (retired (threads s v)))"
      using hp_invD(3) [OF inv] h unfolding held_ok_def by blast
    then have "p \<in> linked ?s \<or> (\<exists>v. p \<in> set (retired (threads ?s v)))"
      by (rule nodes_cong_set [rotated 2]) simp_all
    then show "k \<in> set (own (threads ?s u)) \<and> hptr (cells ?s ! k) = p \<and> p \<noteq> 0
        \<and> (p \<in> linked ?s \<or> (\<exists>v. p \<in> set (retired (threads ?s v))))"
      using held_cell [OF inv h] u ptr by simp
  qed
  have "pc_ok s (threads s t) (nextExit s (retired (threads s t)))" by (rule nextExit_ok [OF inv]) simp
  then have "pc_ok ?s (threads s t) (nextExit s (retired (threads s t)))"
    by (rule pc_ok_frame) (use o len ptr in \<open>auto split: if_splits\<close>)
  then show "pc_ok ?s ?x (hpc ?x)" by (cases "retired (threads s t)") (simp_all add: nextExit_def)
  show "hptr (cells ?s ! k) = hptr (cells s ! k)" if "k \<in> set (own (threads s u))" for u k
    using o that ptr by auto
qed (auto simp: cs)

lemma count_inv: "hp_inv s \<Longrightarrow> hp_inv (s\<lparr>hp_count := n\<rparr>)"
proof -
  assume inv: "hp_inv s"
  have "pc_ok (s\<lparr>hp_count := n\<rparr>) (threads s t) (hpc (threads s t))" for t
    by (rule pc_ok_frame [OF hp_invD(4) [OF inv]]) auto
  then show ?thesis using inv by (simp add: hp_inv_def hp_parts)
qed

lemma hp_step_inv:
  assumes "hp_step True t s s'" and inv: "hp_inv s"
  shows "hp_inv s'"
  using assms(1)
proof cases
  case (mark_own x p k)
  then show ?thesis using move_inv [OF inv walk_inv(1) [OF inv]] by blast
next
  case (mark_acquire x p)
  then show ?thesis using move_inv [OF inv walk_inv(2) [OF inv]] by blast
next
  case (acquire_idle x p k)
  then show ?thesis using acquire_inv [OF inv] by blast
next
  case (acquire_next x p k)
  then show ?thesis using move_inv [OF inv, of t "Acquire p k"] hp_invD(4) [OF inv, of t] by simp
next
  case (acquire_none x p)
  then have "pc_ok (s\<lparr>hp_count := hp_count s + 1\<rparr>) (threads s t) (Push p)" using hp_invD(4) [OF inv, of t] by simp
  then show ?thesis
    using move_inv [OF count_inv [OF inv, of "hp_count s + 1"], of t "Push p"] acquire_none by simp
next
  case (push x p)
  then show ?thesis using push_inv [OF inv] by blast
next
  case (store x p k)
  then have "p \<noteq> 0" "k \<in> set (own x)" "held x k = None" using hp_invD(4) [OF inv, of t] by simp_all
  moreover from this have "held x = (held x)(k := None)" by (simp add: fun_upd_idem)
  moreover have "buf x = []" using hp_invD(1) [OF inv] store(2) by (auto simp: owns_ok_def)
  ultimately show ?thesis using store by (auto intro!: store_inv [OF inv])
next
  case (unmark x k)
  have "buf x = []" using hp_invD(1) [OF inv] unmark(2) by (auto simp: owns_ok_def)
  then show ?thesis using unmark by (auto intro!: store_inv [OF inv])
next
  case (drain x k p ps)
  then show ?thesis using hp_invD(1) [OF inv] by (auto simp: owns_ok_def)
next
  case (valid x p k)
  then show ?thesis using valid_inv [OF inv] by blast
next
  case (invalid x p k)
  then show ?thesis using move_inv [OF inv, of t Idle] by simp
next
  case (link x p)
  then show ?thesis using link_inv [OF inv] by blast
next
  case (retire x p)
  then show ?thesis using retire_inv [OF inv] by blast
next
  case (scan_start x)
  then show ?thesis using move_inv [OF inv walk_inv(3) [OF inv, of 1 t]] by simp
next
  case (scan_read x A k)
  then show ?thesis
    using move_inv [OF inv scan_read_ok [OF inv, of "threads s t" A k]] hp_invD(4) [OF inv, of t]
      seen_shared [OF inv, of t k]
    by (simp del: pc_ok.simps split: if_splits)
next
  case (scan_done x A)
  then show ?thesis using move_inv [OF inv walk_inv(4) [OF inv, of 1 t A]] hp_invD(4) [OF inv, of t] by simp
next
  case (sweep_free x A p ps)
  have pc: "pc_ok s x (Sweep A (p # ps))" using hp_invD(4) [OF inv, of t] sweep_free by simp
  have "distinct (retired x)" using hp_invD(2) [OF inv] sweep_free(2) by (auto simp: nodes_ok_def)
  then have "pc_ok s (x\<lparr>hpc := Sweep A ps, retired := remove1 p (retired x)\<rparr>) (Sweep A ps)"
    using pc by auto
  moreover have "held (threads s u) k \<noteq> Some p" for u k using pc sweep_free(4) by (metis pc_ok.simps(6) list.set_intros(1))
  moreover have "buf x = []" "p \<in> set (retired x)"
    using hp_invD(1) [OF inv] sweep_free(2) pc by (auto simp: owns_ok_def)
  ultimately show ?thesis using free_inv [OF inv] sweep_free(1,2) by simp
next
  case (sweep_keep x A p ps)
  then show ?thesis using move_inv [OF inv, of t "Sweep A ps"] hp_invD(4) [OF inv, of t] by auto
next
  case (sweep_done x A)
  then show ?thesis using move_inv [OF inv, of t Idle] by simp
next
  case (exit_start x cs)
  then show ?thesis using exit_inv [OF inv] by blast
next
  case (exit_read x p k)
  then show ?thesis
    using move_inv [OF inv exit_read_ok [OF inv, of "threads s t" p k]] hp_invD(4) [OF inv, of t]
    by (simp del: pc_ok.simps)
next
  case (exit_free x p ps)
  have pc: "pc_ok s x (Exit_scan p 0)" using hp_invD(4) [OF inv, of t] exit_free by simp
  have "pc_ok s (x\<lparr>hpc := nextExit s ps, retired := ps\<rparr>) (nextExit s ps)" by (rule nextExit_ok [OF inv]) simp
  moreover have "held (threads s u) k \<noteq> Some p" for u k using pc by auto
  moreover have "buf x = []" "p \<in> set (retired x)"
    using hp_invD(1) [OF inv] exit_free(2) pc by (auto simp: owns_ok_def)
  ultimately show ?thesis using free_inv [OF inv] exit_free by simp
qed simp_all

lemma hp_start_inv: "hp_inv hp_start"
  by (simp add: hp_inv_def hp_parts hp_start_def newThread_def newHazardPointerList_def)

lemma hp_reach_inv: "hp_reach True s \<Longrightarrow> hp_inv s"
  by (induction rule: hp_reach.induct) (auto intro: hp_start_inv hp_step_inv)

section \<open>Properties\<close>

text \<open>
  C15. Hazard pointers are safe between threads, with a fence: whatever any number of threads do, and
  however their steps interleave, a node that a thread has marked as hazard and found linked
  afterwards is not freed before the thread takes the mark back. Besides, no linked node is freed, and
  no node waits for two deletions or for one after it was freed.
\<close>

theorem held_node_is_not_freed:
  assumes "hp_reach True s"
  shows "(held (threads s t) k = Some p \<longrightarrow> p \<notin> freed s) \<and> linked s \<inter> freed s = {}
    \<and> distinct (retired (threads s t)) \<and> set (retired (threads s t)) \<inter> freed s = {}
    \<and> (u \<noteq> t \<longrightarrow> set (retired (threads s t)) \<inter> set (retired (threads s u)) = {})"
proof -
  have inv: "hp_inv s" by (rule hp_reach_inv [OF assms])
  note n = hp_invD(2) [OF inv, unfolded nodes_ok_def]
  have "p \<notin> freed s" if "held (threads s t) k = Some p"
  proof -
    have "p \<in> linked s \<or> (\<exists>v. p \<in> set (retired (threads s v)))"
      using hp_invD(3) [OF inv] that unfolding held_ok_def by blast
    then show ?thesis using n by blast
  qed
  then show ?thesis using n by auto
qed

text \<open>Runs of two threads, written out state by state.\<close>

definition twoThreads :: "bool \<Rightarrow> u64 \<Rightarrow> u64 set \<Rightarrow> u64 set \<Rightarrow> hp_thread \<Rightarrow> hp_thread \<Rightarrow> hp_state" where
  "twoThreads fl p l f a b = \<lparr>cells = [\<lparr>hflag = fl, hptr = p\<rparr>], hp_count = 0, linked = l, freed = f,
     threads = (\<lambda>t. newThread)(0 := a, 1 := b)\<rparr>"

lemma twoThreads_start: "hp_start = twoThreads False 0 {} {} newThread newThread"
  by (simp add: hp_start_def newHazardPointerList_def twoThreads_def fun_upd_idem)

lemma twoThreads_simps [simp]:
  "threads (twoThreads fl p l f a b) 0 = a" "threads (twoThreads fl p l f a b) (Suc 0) = b"
  "cells (twoThreads fl p l f a b) = [\<lparr>hflag = fl, hptr = p\<rparr>]" "hp_count (twoThreads fl p l f a b) = 0"
  "linked (twoThreads fl p l f a b) = l" "freed (twoThreads fl p l f a b) = f"
  "setThread 0 a' (twoThreads fl p l f a b) = twoThreads fl p l f a' b"
  "setThread (Suc 0) b' (twoThreads fl p l f a b) = twoThreads fl p l f a b'"
  "twoThreads fl p l f a b\<lparr>linked := l', freed := f'\<rparr> = twoThreads fl p l' f' a b"
  "twoThreads fl p l f a b\<lparr>linked := l'\<rparr> = twoThreads fl p l' f a b"
  "twoThreads fl p l f a b\<lparr>freed := f'\<rparr> = twoThreads fl p l f' a b"
  "twoThreads fl p l f a b\<lparr>cells := [\<lparr>hflag = fl', hptr = p'\<rparr>]\<rparr> = twoThreads fl' p' l f a b"
  "storeCell 0 q (twoThreads fl p l f a b) = twoThreads fl q l f a b"
  by (simp_all add: twoThreads_def setThread_def storeCell_def fun_eq_iff)

lemma twoThreads_unretired:
  "(\<forall>u. q \<notin> set (retired (threads (twoThreads fl p l f a b) u))) \<longleftrightarrow> q \<notin> set (retired a) \<and> q \<notin> set (retired b)"
  by (auto simp: twoThreads_def newThread_def)

lemma newThread_simps [simp]:
  "own newThread = []" "retired newThread = []" "hpc newThread = Idle" "held newThread = Map.empty" "buf newThread = []"
  by (simp_all add: newThread_def)

text \<open>Both runs begin alike: thread 1 links a node, and thread 0 acquires a cell to mark it.\<close>

lemma run_acquire:
  "hp_reach fence (twoThreads True 0 {16} {} (newThread\<lparr>hpc := Store 16 0, own := [0]\<rparr>) newThread)"
proof -
  have "hp_reach fence (twoThreads False 0 {} {} newThread newThread)"
    using hp_reach.start by (simp add: twoThreads_start)
  from hp_reach.step [OF this hp_step.link [OF refl, where t = 1 and p = 16]]
  have "hp_reach fence (twoThreads False 0 {16} {} newThread newThread)"
    by (simp add: twoThreads_unretired)
  from hp_reach.step [OF this hp_step.mark_acquire [OF refl, where t = 0 and p = 16]]
  have "hp_reach fence (twoThreads False 0 {16} {} (newThread\<lparr>hpc := Acquire 16 0\<rparr>) newThread)"
    by simp
  from hp_reach.step [OF this hp_step.acquire_idle [OF refl, where t = 0 and p = 16 and k = 0]]
  show ?thesis by simp
qed

theorem held_node_is_not_freed_witness:
  "\<exists>s. hp_reach True s \<and> held (threads s 0) 0 = Some 16 \<and> retired (threads s 1) = [16] \<and> 16 \<notin> freed s"
proof -
  let ?a = "newThread\<lparr>hpc := Validate 16 0, own := [0]\<rparr>"
  let ?b = "newThread\<lparr>hpc := Idle, own := [0], held := [0 \<mapsto> 16]\<rparr>"
  from hp_reach.step [OF run_acquire [of True] hp_step.store [OF refl, where t = 0 and p = 16 and k = 0]]
  have "hp_reach True (twoThreads True 16 {16} {} ?a newThread)" by (simp add: newThread_def)
  from hp_reach.step [OF this hp_step.valid [OF refl, where t = 0 and p = 16 and k = 0]]
  have "hp_reach True (twoThreads True 16 {16} {} ?b newThread)" by (simp add: newThread_def)
  from hp_reach.step [OF this hp_step.retire [OF refl, where t = 1 and p = 16]]
  have reach: "hp_reach True (twoThreads True 16 {} {} ?b (newThread\<lparr>retired := [16]\<rparr>))" by simp
  show ?thesis
    using held_node_is_not_freed [OF reach, of 0 0 16 1] reach
    by (intro exI [of _ "twoThreads True 16 {} {} ?b (newThread\<lparr>retired := [16]\<rparr>)"]) simp
qed

text \<open>
  C16. Without a fence they are not: the store of the hazard pointer is a release store, and the check
  that follows may be done before it reaches memory. There is a run in which a thread marks a node and
  finds it linked while another unlinks it, collects the hazard pointers without this one, and frees it.
\<close>

theorem unfenced_mark_is_too_late:
  "\<exists>s. hp_reach False s \<and> held (threads s 0) 0 = Some 16 \<and> 16 \<in> freed s"
proof -
  let ?a = "newThread\<lparr>hpc := Idle, own := [0], buf := [(0, 16)], held := [0 \<mapsto> 16]\<rparr>"
  let ?b = "\<lambda>ps pc. newThread\<lparr>retired := ps, hpc := pc\<rparr>"
  from hp_reach.step [OF run_acquire [of False] hp_step.store_buffered [OF refl, where t = 0 and p = 16 and k = 0]]
  have "hp_reach False (twoThreads True 0 {16} {}
      (newThread\<lparr>hpc := Validate 16 0, own := [0], buf := [(0, 16)]\<rparr>) newThread)" by (simp add: newThread_def)
  from hp_reach.step [OF this hp_step.valid [OF refl, where t = 0 and p = 16 and k = 0]]
  have "hp_reach False (twoThreads True 0 {16} {} ?a newThread)" by (simp add: newThread_def)
  from hp_reach.step [OF this hp_step.retire [OF refl, where t = 1 and p = 16]]
  have "hp_reach False (twoThreads True 0 {} {} ?a (?b [16] Idle))" by (simp add: newThread_def)
  from hp_reach.step [OF this hp_step.scan_start [OF refl, where t = 1]]
  have "hp_reach False (twoThreads True 0 {} {} ?a (?b [16] (Scan {} 1)))" by simp
  from hp_reach.step [OF this hp_step.scan_read [OF refl, where t = 1 and A = "{}" and k = 0]]
  have "hp_reach False (twoThreads True 0 {} {} ?a (?b [16] (Scan {} 0)))" by (simp add: seen_def)
  from hp_reach.step [OF this hp_step.scan_done [OF refl, where t = 1 and A = "{}"]]
  have "hp_reach False (twoThreads True 0 {} {} ?a (?b [16] (Sweep {} [16])))" by simp
  from hp_reach.step [OF this hp_step.sweep_free [OF refl, where t = 1 and A = "{}" and p = 16 and ps = "[]"]]
  have "hp_reach False (twoThreads True 0 {} {16} ?a (?b [] (Sweep {} [])))" by (simp add: newThread_def)
  then show ?thesis by (intro exI [of _ "twoThreads True 0 {} {16} ?a (?b [] (Sweep {} []))"]) simp
qed

end
