(* ===== verification/Lockfree_List.thy ===== *)
theory Lockfree_List
  imports Reclaimer
begin

unbundle bit_operations_syntax

text \<open>
  The sorted linked list of \<open>src/include/net/container/lockfreeLinkedlist.h\<close>, at its only
  instance in the repository, the table of \<open>UserSessionKey\<close>s. Nodes live in an explicit heap; the
  lowest bit of a link marks the node that holds the link as deleted. The operations are those of
  one thread that is not interrupted between their steps; every check for interference and every
  retry of the code is there all the same.
\<close>

section \<open>Keys\<close>

datatype UserSessionKey = UserSessionKey (userKey: u64) (sessionKey: u64)

text \<open>\<open>operator <\<close> compares the user keys only.\<close>

instantiation UserSessionKey :: preorder
begin

definition less_UserSessionKey :: "UserSessionKey \<Rightarrow> UserSessionKey \<Rightarrow> bool" where
  "less_UserSessionKey a b \<longleftrightarrow> userKey a < userKey b"

definition less_eq_UserSessionKey :: "UserSessionKey \<Rightarrow> UserSessionKey \<Rightarrow> bool" where
  "less_eq_UserSessionKey a b \<longleftrightarrow> userKey a \<le> userKey b"

instance
  by standard (auto simp: less_UserSessionKey_def less_eq_UserSessionKey_def)

end

definition Less :: "UserSessionKey \<Rightarrow> UserSessionKey \<Rightarrow> bool" where
  "Less data1 data2 \<longleftrightarrow> data1 < data2"

definition GreaterOrEquals :: "UserSessionKey \<Rightarrow> UserSessionKey \<Rightarrow> bool" where
  "GreaterOrEquals data1 data2 \<longleftrightarrow> \<not> Less data1 data2"

definition Equals :: "UserSessionKey \<Rightarrow> UserSessionKey \<Rightarrow> bool" where
  "Equals data1 data2 \<longleftrightarrow> \<not> Less data1 data2 \<and> \<not> Less data2 data1"

lemmas key_order = Less_def GreaterOrEquals_def Equals_def less_UserSessionKey_def

section \<open>Marked links\<close>

text \<open>
  A link is cast to \<open>unsigned long\<close>, of \<open>w\<close> bits, and back: 64 bits on Linux, 32 on Windows.
\<close>

definition is_marked_reference :: "nat \<Rightarrow> u64 \<Rightarrow> bool" where
  "is_marked_reference w next \<longleftrightarrow> take_bit w next AND 1 = 1"

definition get_marked_reference :: "nat \<Rightarrow> u64 \<Rightarrow> u64" where
  "get_marked_reference w next = take_bit w next OR 1"

definition get_unmarked_reference :: "nat \<Rightarrow> u64 \<Rightarrow> u64" where
  "get_unmarked_reference w next = take_bit w next AND NOT 1"

definition LONG_BIT :: nat where "LONG_BIT = 64"

section \<open>State\<close>

record node =
  ndata :: "UserSessionKey option"
  nnext :: u64

record lf_list =
  heap :: "u64 \<rightharpoonup> node"
  listHead :: u64
  listSize :: u64
  rcl :: reclaim_state

text \<open>The address of a new node is chosen by the allocator and an argument of the operation.\<close>

definition newLockFreeLinkedList :: "u64 \<Rightarrow> reclaim_state \<Rightarrow> lf_list" where
  "newLockFreeLinkedList a r =
     \<lparr>heap = [a \<mapsto> \<lparr>ndata = None, nnext = 0\<rparr>], listHead = a, listSize = 0, rcl = r\<rparr>"

definition getNode :: "u64 \<Rightarrow> lf_list \<Rightarrow> node result" where
  "getNode p s = (case heap s p of None \<Rightarrow> Inl (Undefined ''access to no node'') | Some n \<Rightarrow> Inr n)"

definition loadNext :: "u64 \<Rightarrow> lf_list \<Rightarrow> u64 result" where
  "loadNext p s = bindR (getNode p s) (\<lambda>n. Inr (nnext n))"

definition storeNext :: "u64 \<Rightarrow> u64 \<Rightarrow> lf_list \<Rightarrow> lf_list result" where
  "storeNext p x s = bindR (getNode p s) (\<lambda>n. Inr (s\<lparr>heap := (heap s)(p \<mapsto> n\<lparr>nnext := x\<rparr>)\<rparr>))"

definition compare_exchange_strong :: "u64 \<Rightarrow> u64 \<Rightarrow> u64 \<Rightarrow> lf_list \<Rightarrow> (bool \<times> lf_list) result" where
  "compare_exchange_strong p expected desired s =
     bindR (getNode p s) (\<lambda>n.
       if nnext n = expected then Inr (True, s\<lparr>heap := (heap s)(p \<mapsto> n\<lparr>nnext := desired\<rparr>)\<rparr>)
       else Inr (False, s))"

text \<open>The weak form may also fail for no reason; \<open>w\<close> counts the times it still does.\<close>

definition compare_exchange_weak :: "u64 \<Rightarrow> u64 \<Rightarrow> u64 \<Rightarrow> nat \<Rightarrow> lf_list \<Rightarrow> (bool \<times> nat \<times> lf_list) result" where
  "compare_exchange_weak p expected desired w s =
     (case w of
        Suc w' \<Rightarrow> bindR (getNode p s) (\<lambda>n. Inr (False, w', s))
      | 0 \<Rightarrow> bindR (compare_exchange_strong p expected desired s) (\<lambda>(b, s'). Inr (b, 0, s')))"

definition OnDeleteNode :: "u64 \<Rightarrow> lf_list \<Rightarrow> lf_list result" where
  "OnDeleteNode p s = bindR (getNode p s) (\<lambda>n. Inr (s\<lparr>heap := (heap s)(p := None)\<rparr>))"

definition reclaim :: "u64 \<Rightarrow> lf_list \<Rightarrow> lf_list result" where
  "reclaim p s =
     (let (del, r) = ReclaimNoHazardPointer (ReclaimLater p (rcl s))
      in seqR OnDeleteNode del (s\<lparr>rcl := r\<rparr>))"

definition unMark :: "int \<Rightarrow> lf_list \<Rightarrow> lf_list result" where
  "unMark hp s = bindR (UnMarkHazard hp (rcl s)) (\<lambda>r. Inr (s\<lparr>rcl := r\<rparr>))"

text \<open>
  \<open>unMark\<close> is \<open>HazardPointer::UnMark\<close> of an object with the index \<open>hp\<close>. For a default object the source calls
  \<open>UnMarkHazard\<close> through a null pointer; the body looks at the index alone and returns, which is what is
  modelled. The object keeps its index after \<open>UnMark\<close>.

  The destructors of the two hazard pointers of an operation.\<close>

definition release :: "int \<Rightarrow> int \<Rightarrow> lf_list \<Rightarrow> lf_list result" where
  "release prev_hp cur_hp s = bindR (unMark cur_hp s) (unMark prev_hp)"

section \<open>Searching\<close>

type_synonym search_state = "u64 \<times> u64 \<times> int \<times> int \<times> lf_list"
type_synonym search_result = "(UserSessionKey option \<times> u64 \<times> u64 \<times> int \<times> int \<times> lf_list) result"

definition try_again :: "int \<Rightarrow> int \<Rightarrow> lf_list \<Rightarrow> (search_state, search_result) iter option" where
  "try_again prev_hp cur_hp s =
     orFault (loadNext (listHead s) s) (\<lambda>cur. Some (Next (listHead s, cur, prev_hp, cur_hp, s)))"

text \<open>
  The beginning of a turn: \<open>cur_hp\<close> takes its mark back and is assigned a new object that marks \<open>cur\<close>. The
  links are read after that.
\<close>

definition markCur :: "u64 \<Rightarrow> int \<Rightarrow> lf_list \<Rightarrow> (int \<times> lf_list) result" where
  "markCur cur cur_hp s =
     bindR (unMark cur_hp s) (\<lambda>s1. let (cur_hp', r) = MarkHazard cur (rcl s1) in Inr (cur_hp', s1\<lparr>rcl := r\<rparr>))"

text \<open>
  One turn of the search loop. The result holds the data of the node that was found (\<open>Search\<close>
  reports only whether there is one, \<open>SearchReset\<close> copies it), its predecessor and the node.
\<close>

definition searchTurn :: "UserSessionKey \<Rightarrow> search_state \<Rightarrow> (search_state, search_result) iter option" where
  "searchTurn dat = (\<lambda>(prev, cur, prev_hp, cur_hp, s0).
     orFault (markCur cur cur_hp s0) (\<lambda>(cur_hp', s).
       orFault (loadNext prev s) (\<lambda>pn.
         if pn \<noteq> cur then try_again prev_hp cur_hp' s
         else if cur = 0 then Some (Done (Inr (None, prev, cur, prev_hp, cur_hp', s)))
         else orFault (loadNext cur s) (\<lambda>next.
           if is_marked_reference LONG_BIT next then
             orFault (compare_exchange_strong prev cur (get_unmarked_reference LONG_BIT next) s) (\<lambda>(ok, s2).
               if \<not> ok then try_again prev_hp cur_hp' s2
               else orFault (reclaim cur s2) (\<lambda>s3.
                 Some (Next (prev, get_unmarked_reference LONG_BIT next, prev_hp, cur_hp',
                             s3\<lparr>listSize := listSize s3 - 1\<rparr>))))
           else orFault (getNode cur s) (\<lambda>n.
             case ndata n of
               None \<Rightarrow> Some (Done (Inl (Undefined ''null data'')))
             | Some cur_data \<Rightarrow>
                 orFault (loadNext prev s) (\<lambda>pn2.
                   if pn2 \<noteq> cur then try_again prev_hp cur_hp' s
                   else if GreaterOrEquals cur_data dat then
                     Some (Done (Inr (if Equals cur_data dat then Some cur_data else None,
                                      prev, cur, prev_hp, cur_hp', s)))
                   else Some (Next (cur, next, cur_hp', prev_hp, s))))))))"

definition SearchReset :: "UserSessionKey \<Rightarrow> int \<Rightarrow> int \<Rightarrow> lf_list \<Rightarrow> search_result option" where
  "SearchReset dat prev_hp cur_hp s =
     (case loadNext (listHead s) s of
        Inl f \<Rightarrow> Some (Inl f)
      | Inr cur \<Rightarrow> loop (searchTurn dat) (listHead s, cur, prev_hp, cur_hp, s))"

definition Search :: "UserSessionKey \<Rightarrow> int \<Rightarrow> int \<Rightarrow> lf_list
    \<Rightarrow> (bool \<times> u64 \<times> u64 \<times> int \<times> int \<times> lf_list) result option" where
  "Search dat prev_hp cur_hp s =
     map_option (\<lambda>r. bindR r (\<lambda>(d, x). Inr (d \<noteq> None, x))) (SearchReset dat prev_hp cur_hp s)"

section \<open>Operations\<close>

definition emplaceTurn :: "UserSessionKey \<Rightarrow> u64 \<Rightarrow> nat \<times> int \<times> int \<times> lf_list
    \<Rightarrow> (nat \<times> int \<times> int \<times> lf_list, (bool \<times> int \<times> int \<times> lf_list) result) iter option" where
  "emplaceTurn dat new_node = (\<lambda>(w, prev_hp, cur_hp, s).
     Option.bind (Search dat prev_hp cur_hp s) (\<lambda>res.
       orFault res (\<lambda>(found, prev, cur, php, chp, s1).
         if found then orFault (OnDeleteNode new_node s1) (\<lambda>s2. Some (Done (Inr (False, php, chp, s2))))
         else orFault (storeNext new_node cur s1) (\<lambda>s2.
           orFault (compare_exchange_weak prev cur new_node w s2) (\<lambda>(ok, w', s3).
             if ok then Some (Done (Inr (True, php, chp, s3\<lparr>listSize := listSize s3 + 1\<rparr>)))
             else Some (Next (w', php, chp, s3)))))))"

text \<open>\<open>new_node\<close> is the address of the node, \<open>w\<close> the number of spurious failures.\<close>

definition Emplace :: "u64 \<Rightarrow> nat \<Rightarrow> UserSessionKey \<Rightarrow> lf_list \<Rightarrow> (bool \<times> lf_list) result option" where
  "Emplace new_node w dat s =
     (let s1 = s\<lparr>heap := (heap s)(new_node \<mapsto> \<lparr>ndata = Some dat, nnext = 0\<rparr>)\<rparr>
      in map_option (\<lambda>r. bindR r (\<lambda>(b, php, chp, s'). bindR (release php chp s') (\<lambda>s''. Inr (b, s''))))
           (loop (emplaceTurn dat new_node) (w, HP_INDEX_NULL, HP_INDEX_NULL, s1)))"

definition Insert :: "u64 \<Rightarrow> nat \<Rightarrow> UserSessionKey \<Rightarrow> lf_list \<Rightarrow> (bool \<times> lf_list) result option" where
  "Insert new_node w dat s = Emplace new_node w dat s"

text \<open>The two nested loops of \<open>Delete\<close> start over in the same place, so they are one loop.\<close>

definition deleteTurn :: "UserSessionKey \<Rightarrow> nat \<times> int \<times> int \<times> lf_list
    \<Rightarrow> (nat \<times> int \<times> int \<times> lf_list,
        ((u64 \<times> u64 \<times> u64) option \<times> int \<times> int \<times> lf_list) result) iter option" where
  "deleteTurn dat = (\<lambda>(w, prev_hp, cur_hp, s).
     Option.bind (Search dat prev_hp cur_hp s) (\<lambda>res.
       orFault res (\<lambda>(found, prev, cur, php, chp, s1).
         if \<not> found then Some (Done (Inr (None, php, chp, s1)))
         else orFault (loadNext cur s1) (\<lambda>next.
           if is_marked_reference LONG_BIT next then Some (Next (w, php, chp, s1))
           else orFault (compare_exchange_weak cur next (get_marked_reference LONG_BIT next) w s1) (\<lambda>(ok, w', s2).
             if ok then Some (Done (Inr (Some (prev, cur, next), php, chp, s2)))
             else Some (Next (w', php, chp, s2)))))))"

text \<open>
  When the node cannot be unlinked, both objects take their marks back; they go on with the same indices
  into the search that cleans up.
\<close>

definition deleteUnmark :: "int \<Rightarrow> int \<Rightarrow> lf_list \<Rightarrow> (int \<times> int \<times> lf_list) result" where
  "deleteUnmark prev_hp cur_hp s =
     bindR (unMark prev_hp s) (\<lambda>s1. bindR (unMark cur_hp s1) (\<lambda>s2. Inr (prev_hp, cur_hp, s2)))"

definition deleteUnlink :: "UserSessionKey \<Rightarrow> u64 \<times> u64 \<times> u64 \<Rightarrow> int \<Rightarrow> int \<Rightarrow> lf_list
    \<Rightarrow> (bool \<times> lf_list) result option" where
  "deleteUnlink dat = (\<lambda>(prev, cur, next) php chp s.
     case compare_exchange_strong prev cur next s of
       Inl f \<Rightarrow> Some (Inl f)
     | Inr (ok, s1) \<Rightarrow>
         if ok then
           Some (bindR (reclaim cur (s1\<lparr>listSize := listSize s1 - 1\<rparr>)) (\<lambda>s2.
             bindR (release php chp s2) (\<lambda>s3. Inr (True, s3))))
         else
           (case deleteUnmark php chp s1 of
              Inl f \<Rightarrow> Some (Inl f)
            | Inr (php1, chp1, s2) \<Rightarrow>
                map_option (\<lambda>r. bindR r (\<lambda>(found, p, c, php', chp', s3).
                    bindR (release php' chp' s3) (\<lambda>s4. Inr (True, s4))))
                  (Search dat php1 chp1 s2)))"

definition Delete :: "nat \<Rightarrow> UserSessionKey \<Rightarrow> lf_list \<Rightarrow> (bool \<times> lf_list) result option" where
  "Delete w dat s =
     Option.bind (loop (deleteTurn dat) (w, HP_INDEX_NULL, HP_INDEX_NULL, s)) (\<lambda>res.
       case res of
         Inl f \<Rightarrow> Some (Inl f)
       | Inr (None, php, chp, s1) \<Rightarrow> Some (bindR (release php chp s1) (\<lambda>s2. Inr (False, s2)))
       | Inr (Some x, php, chp, s1) \<Rightarrow> deleteUnlink dat x php chp s1)"

definition Find :: "UserSessionKey \<Rightarrow> lf_list \<Rightarrow> (bool \<times> lf_list) result option" where
  "Find dat s =
     map_option (\<lambda>r. bindR r (\<lambda>(found, prev, cur, php, chp, s1).
         bindR (release php chp s1) (\<lambda>s2. Inr (found, s2))))
       (Search dat HP_INDEX_NULL HP_INDEX_NULL s)"

text \<open>\<open>Find(T&)\<close> overwrites its argument with the data it found.\<close>

definition FindRef :: "UserSessionKey \<Rightarrow> lf_list \<Rightarrow> (bool \<times> UserSessionKey \<times> lf_list) result option" where
  "FindRef dat s =
     map_option (\<lambda>r. bindR r (\<lambda>(d, prev, cur, php, chp, s1).
         bindR (release php chp s1) (\<lambda>s2. Inr (d \<noteq> None, case d of None \<Rightarrow> dat | Some x \<Rightarrow> x, s2))))
       (SearchReset dat HP_INDEX_NULL HP_INDEX_NULL s)"

definition lsize :: "lf_list \<Rightarrow> u64" where
  "lsize s = listSize s"

text \<open>The destructor walks the list and deletes every node.\<close>

definition destroyTurn :: "u64 \<times> lf_list \<Rightarrow> (u64 \<times> lf_list, lf_list result) iter option" where
  "destroyTurn = (\<lambda>(p, s).
     if p = 0 then Some (Done (Inr s))
     else orFault (loadNext p s) (\<lambda>q. orFault (OnDeleteNode p s) (\<lambda>s'. Some (Next (q, s')))))"

definition destroyList :: "lf_list \<Rightarrow> lf_list result option" where
  "destroyList s = loop destroyTurn (listHead s, s)"

end
