(* ===== verification/Lockfree_Correct.thy ===== *)
theory Lockfree_Correct
  imports Lockfree_List
begin

text \<open>
  The linked list as an ordered table: its representation invariant, the search, and that insert,
  delete and find behave as on a finite map from user keys to session keys, never touch a node
  that was freed, and leave no hazard pointer behind.
\<close>

section \<open>Marks\<close>

lemma take_bit_u64 [simp]: "take_bit 64 (p :: u64) = p"
  by (rule take_bit_word_eq_self) simp

lemma mark_odd [simp]: "is_marked_reference LONG_BIT p \<longleftrightarrow> odd p"
  by (simp add: is_marked_reference_def LONG_BIT_def and_one_eq odd_iff_mod_2_eq_one)

lemma mark_roundtrip:
  assumes "even p"
  shows "odd (get_marked_reference LONG_BIT p)"
    and "get_unmarked_reference LONG_BIT (get_marked_reference LONG_BIT p) = p"
proof -
  show "odd (get_marked_reference LONG_BIT p)"
    by (simp add: get_marked_reference_def LONG_BIT_def even_or_iff)
  have "\<not> bit p 0" using assms by (simp add: bit_0)
  then show "get_unmarked_reference LONG_BIT (get_marked_reference LONG_BIT p) = p"
    by (intro bit_eqI)
       (auto intro: gr0I simp: get_unmarked_reference_def get_marked_reference_def LONG_BIT_def bit_simps)
qed

section \<open>Representation\<close>

fun lseg :: "(u64 \<rightharpoonup> node) \<Rightarrow> u64 \<Rightarrow> (u64 \<times> UserSessionKey) list \<Rightarrow> bool" where
  "lseg h p [] = (p = 0)"
| "lseg h p ((a, d) # xs) =
     (p = a \<and> a \<noteq> 0 \<and> even a \<and> (\<exists>n. h a = Some \<lparr>ndata = Some d, nnext = n\<rparr> \<and> lseg h n xs))"

definition hp_ok :: "int \<Rightarrow> reclaim_state \<Rightarrow> bool" where
  "hp_ok i r \<longleftrightarrow> i = HP_INDEX_NULL \<or> 0 \<le> i \<and> i < int (length (hp_list r))"

text \<open>\<open>list_inv s xs\<close>: the list holds the nodes \<open>xs\<close>, and no operation is under way.\<close>

definition list_inv :: "lf_list \<Rightarrow> (u64 \<times> UserSessionKey) list \<Rightarrow> bool" where
  "list_inv s xs \<longleftrightarrow>
     (\<exists>n. heap s (listHead s) = Some \<lparr>ndata = None, nnext = n\<rparr> \<and> lseg (heap s) n xs)
   \<and> distinct (map fst xs) \<and> 0 \<notin> dom (heap s) \<and> sorted_wrt (<) (map snd xs)
   \<and> listSize s = of_nat (length xs)
   \<and> rc_wf (rcl s) \<and> marked (rcl s) = {}
   \<and> pendingPtrs (rcl s) \<subseteq> dom (heap s) \<and> pendingPtrs (rcl s) \<inter> insert (listHead s) (fst ` set xs) = {}"

lemma lseg_even: "lseg h p xs \<Longrightarrow> even p"
  by (cases xs) auto

lemma lseg_data: "lseg h p xs \<Longrightarrow> (a, d) \<in> set xs \<Longrightarrow> \<exists>n. h a = Some \<lparr>ndata = Some d, nnext = n\<rparr>"
  by (induction xs arbitrary: p) auto

lemma lseg_dom: "lseg h p xs \<Longrightarrow> fst ` set xs \<subseteq> dom h"
  using lseg_data by fastforce

lemma lseg_frame: "(\<And>a. a \<in> fst ` set xs \<Longrightarrow> h' a = h a) \<Longrightarrow> lseg h' p xs = lseg h p xs"
  by (induction xs arbitrary: p) auto

definition firstAddr :: "(u64 \<times> UserSessionKey) list \<Rightarrow> u64" where
  "firstAddr xs = (case xs of [] \<Rightarrow> 0 | e # _ \<Rightarrow> fst e)"

lemma lseg_first: "lseg h p xs \<Longrightarrow> p = firstAddr xs"
  by (cases xs) (auto simp: firstAddr_def)

lemma lseg_suffix: "lseg h p (as @ bs) \<Longrightarrow> lseg h (firstAddr bs) bs"
proof (induction as arbitrary: p)
  case Nil
  then show ?case using lseg_first by force
qed auto

lemma lseg_last:
  "lseg h p (as @ bs) \<Longrightarrow> as \<noteq> [] \<Longrightarrow>
   h (fst (last as)) = Some \<lparr>ndata = Some (snd (last as)), nnext = firstAddr bs\<rparr>"
proof (induction as arbitrary: p)
  case (Cons e as)
  then show ?case using lseg_first by (cases e; cases as) fastforce+
qed simp

text \<open>Linking another suffix to the last node of a prefix.\<close>

lemma lseg_relink:
  assumes "lseg h p (as @ bs)" and "as \<noteq> []" and "lseg h' q cs"
    and "\<And>a. a \<in> fst ` set (butlast as) \<Longrightarrow> h' a = h a"
    and "h' (fst (last as)) = Some \<lparr>ndata = Some (snd (last as)), nnext = q\<rparr>"
  shows "lseg h' p (as @ cs)"
  using assms(1,2,4,5)
proof (induction as arbitrary: p)
  case (Cons e as)
  obtain a d where e: "e = (a, d)" by force
  then obtain n where n: "p = a" "a \<noteq> 0" "even a" "h a = Some \<lparr>ndata = Some d, nnext = n\<rparr>"
      "lseg h n (as @ bs)"
    using Cons.prems(1) by auto
  show ?case
  proof (cases "as = []")
    case True
    then show ?thesis using Cons.prems(4) e n assms(3) by simp
  next
    case False
    have "lseg h' n (as @ cs)"
      using Cons.IH [OF n(5) False] Cons.prems(3,4) False by simp
    moreover have "h' a = h a" using Cons.prems(3) False e by simp
    ultimately show ?thesis using e n by simp
  qed
qed simp

section \<open>Searching\<close>

lemma searchTurn_prepare:
  assumes wf: "rc_wf (rcl s)" and m: "marked (rcl s) \<subseteq> {php, chp}"
    and ok: "hp_ok php (rcl s)" "hp_ok chp (rcl s)"
  obtains r1 r chp' where "UnMarkHazard chp (rcl s) = Inr r1" and "MarkHazard cur r1 = (chp', r)"
    and "rc_wf r" and "marked r \<subseteq> {php, chp'}" and "hp_ok php r" and "hp_ok chp' r"
    and "reclaim_map r = reclaim_map (rcl s)"
    and "cur \<noteq> 0 \<Longrightarrow> 0 \<le> chp' \<and> own r (nat chp') = cur"
proof -
  obtain r1 where r1: "UnMarkHazard chp (rcl s) = Inr r1" "rc_wf r1" "marked r1 = marked (rcl s) - {chp}"
      "hp_list r1 = hp_list (rcl s)" "reclaim_map r1 = reclaim_map (rcl s)"
    using UnMarkHazard_ok [OF wf] ok(2) unfolding hp_ok_def by metis
  obtain chp' r where r: "MarkHazard cur r1 = (chp', r)" by force
  note k = MarkHazard_ok [OF r1(2) r]
  show thesis
    by (rule that [OF r1(1) r k(1)])
       (use k r1 m ok in \<open>cases "cur = 0"; auto simp: hp_ok_def\<close>)+
qed

text \<open>The part of the list before and from the place of a key.\<close>

abbreviation before :: "UserSessionKey \<Rightarrow> (u64 \<times> UserSessionKey) list \<Rightarrow> (u64 \<times> UserSessionKey) list" where
  "before d xs \<equiv> takeWhile (\<lambda>e. snd e < d) xs"

abbreviation atOrAfter :: "UserSessionKey \<Rightarrow> (u64 \<times> UserSessionKey) list \<Rightarrow> (u64 \<times> UserSessionKey) list" where
  "atOrAfter d xs \<equiv> dropWhile (\<lambda>e. snd e < d) xs"

definition foundAt :: "UserSessionKey \<Rightarrow> (u64 \<times> UserSessionKey) list \<Rightarrow> UserSessionKey option" where
  "foundAt d xs = (case atOrAfter d xs of
     [] \<Rightarrow> None | e # _ \<Rightarrow> if Equals (snd e) d then Some (snd e) else None)"

text \<open>The state of the reclaimer while an operation holds the hazard pointers \<open>php\<close> and \<open>chp\<close>.\<close>

definition holds_hp :: "int \<Rightarrow> int \<Rightarrow> reclaim_state \<Rightarrow> bool" where
  "holds_hp php chp r \<longleftrightarrow> rc_wf r \<and> marked r \<subseteq> {php, chp} \<and> hp_ok php r \<and> hp_ok chp r"

lemma search_run:
  assumes "rc_wf (rcl s)" and "marked (rcl s) \<subseteq> {php, chp}"
    and "hp_ok php (rcl s)" and "hp_ok chp (rcl s)"
    and "heap s prev = Some pn" and "nnext pn = cur" and "lseg (heap s) cur xs"
  shows "\<exists>php' chp' r. loop (searchTurn d) (prev, cur, php, chp, s) =
      Some (Inr (foundAt d xs, last (prev # map fst (before d xs)), firstAddr (atOrAfter d xs),
                 php', chp', s\<lparr>rcl := r\<rparr>))
    \<and> holds_hp php' chp' r \<and> reclaim_map r = reclaim_map (rcl s)
    \<and> (\<forall>e bs. atOrAfter d xs = e # bs \<longrightarrow> 0 \<le> chp' \<and> own r (nat chp') = fst e)"
  using assms
proof (induction xs arbitrary: s prev pn cur php chp)
  case Nil
  obtain r1 r chp' where p: "UnMarkHazard chp (rcl s) = Inr r1" "MarkHazard cur r1 = (chp', r)"
      "rc_wf r" "marked r \<subseteq> {php, chp'}" "hp_ok php r" "hp_ok chp' r"
      "reclaim_map r = reclaim_map (rcl s)"
    using searchTurn_prepare [OF Nil.prems(1-4)] by metis
  have "searchTurn d (prev, cur, php, chp, s) =
      Some (Done (Inr (None, prev, 0, php, chp', s\<lparr>rcl := r\<rparr>)))"
    using Nil.prems(5-7) p(1,2) by (simp add: searchTurn_def markCur_def unMark_def loadNext_def getNode_def)
  then show ?case
    using p by (auto simp: loop_Done foundAt_def firstAddr_def holds_hp_def)
next
  case (Cons e xs)
  obtain a x where e: "e = (a, x)" by force
  then obtain n where a: "cur = a" "a \<noteq> 0" "heap s a = Some \<lparr>ndata = Some x, nnext = n\<rparr>"
      and seg: "lseg (heap s) n xs"
    using Cons.prems(7) by auto
  have even: "even n" using seg by (rule lseg_even)
  obtain r1 r chp' where p: "UnMarkHazard chp (rcl s) = Inr r1" "MarkHazard cur r1 = (chp', r)"
      "rc_wf r" "marked r \<subseteq> {php, chp'}" "hp_ok php r" "hp_ok chp' r"
      "reclaim_map r = reclaim_map (rcl s)" "0 \<le> chp' \<and> own r (nat chp') = cur"
    using searchTurn_prepare [OF Cons.prems(1-4), of cur] a(1,2) by metis
  let ?s = "s\<lparr>rcl := r\<rparr>"
  have turn: "searchTurn d (prev, cur, php, chp, s) =
      (if x < d then Some (Next (a, n, chp', php, ?s))
       else Some (Done (Inr (if Equals x d then Some x else None, prev, a, php, chp', ?s))))"
    using Cons.prems(5,6) p(1,2) a even
    by (simp add: searchTurn_def markCur_def unMark_def loadNext_def getNode_def GreaterOrEquals_def Less_def)
  show ?case
  proof (cases "x < d")
    case True
    then have "loop (searchTurn d) (prev, cur, php, chp, s) = loop (searchTurn d) (a, n, chp', php, ?s)"
      using turn by (simp add: loop_Next)
    moreover have "marked (rcl ?s) \<subseteq> {chp', php}" using p(4) by auto
    ultimately show ?thesis
      using Cons.IH [of ?s chp' php a "\<lparr>ndata = Some x, nnext = n\<rparr>" n] p a seg True e
      by (simp add: foundAt_def)
  next
    case False
    then have "loop (searchTurn d) (prev, cur, php, chp, s) =
        Some (Inr (if Equals x d then Some x else None, prev, a, php, chp', ?s))"
      using turn by (simp add: loop_Done)
    then show ?thesis
      using p False e a(1) by (auto simp: foundAt_def firstAddr_def holds_hp_def)
  qed
qed

text \<open>The chain of nodes from the head, as it is in the middle of an operation.\<close>

definition chain :: "lf_list \<Rightarrow> (u64 \<times> UserSessionKey) list \<Rightarrow> bool" where
  "chain s xs \<longleftrightarrow> heap s (listHead s) = Some \<lparr>ndata = None, nnext = firstAddr xs\<rparr>
     \<and> lseg (heap s) (firstAddr xs) xs"

lemma SearchReset_ok:
  assumes "chain s xs" and "holds_hp php chp (rcl s)"
  obtains php' chp' r where "SearchReset d php chp s =
      Some (Inr (foundAt d xs, last (listHead s # map fst (before d xs)), firstAddr (atOrAfter d xs),
                 php', chp', s\<lparr>rcl := r\<rparr>))"
    and "holds_hp php' chp' r" and "reclaim_map r = reclaim_map (rcl s)"
    and "\<forall>e bs. atOrAfter d xs = e # bs \<longrightarrow> 0 \<le> chp' \<and> own r (nat chp') = fst e"
proof -
  have "loadNext (listHead s) s = Inr (firstAddr xs)"
    using assms(1) by (simp add: chain_def loadNext_def getNode_def)
  then have eq: "SearchReset d php chp s =
      loop (searchTurn d) (listHead s, firstAddr xs, php, chp, s)"
    by (simp add: SearchReset_def)
  have h: "rc_wf (rcl s)" "marked (rcl s) \<subseteq> {php, chp}" "hp_ok php (rcl s)" "hp_ok chp (rcl s)"
    "heap s (listHead s) = Some \<lparr>ndata = None, nnext = firstAddr xs\<rparr>" "lseg (heap s) (firstAddr xs) xs"
    using assms by (simp_all add: chain_def holds_hp_def)
  note run = search_run [OF h(1-5) node.select_convs(2) h(6), of d]
  show thesis
    using run [folded eq] by (elim exE conjE) (rule that)
qed

lemma Search_ok:
  assumes "chain s xs" and "holds_hp php chp (rcl s)"
  obtains php' chp' r where "Search d php chp s =
      Some (Inr (foundAt d xs \<noteq> None, last (listHead s # map fst (before d xs)),
                 firstAddr (atOrAfter d xs), php', chp', s\<lparr>rcl := r\<rparr>))"
    and "holds_hp php' chp' r" and "reclaim_map r = reclaim_map (rcl s)"
proof (rule SearchReset_ok [OF assms, of d])
  fix php' chp' r
  assume "SearchReset d php chp s = Some (Inr (foundAt d xs,
      last (listHead s # map fst (before d xs)), firstAddr (atOrAfter d xs), php', chp', s\<lparr>rcl := r\<rparr>))"
    and "holds_hp php' chp' r" and "reclaim_map r = reclaim_map (rcl s)"
  then show thesis by (intro that [of php' chp' r]) (simp_all add: Search_def)
qed

lemma release_ok:
  assumes "holds_hp php chp (rcl s)"
  obtains r where "release php chp s = Inr (s\<lparr>rcl := r\<rparr>)" and "rc_wf r" and "marked r = {}"
    and "reclaim_map r = reclaim_map (rcl s)"
proof -
  obtain r1 where r1: "UnMarkHazard chp (rcl s) = Inr r1" "rc_wf r1" "marked r1 = marked (rcl s) - {chp}"
      "hp_list r1 = hp_list (rcl s)" "reclaim_map r1 = reclaim_map (rcl s)"
    using UnMarkHazard_ok [of "rcl s" chp] assms unfolding holds_hp_def hp_ok_def by metis
  obtain r2 where r2: "UnMarkHazard php r1 = Inr r2" "rc_wf r2" "marked r2 = marked r1 - {php}"
      "reclaim_map r2 = reclaim_map r1"
    using UnMarkHazard_ok [OF r1(2), of php] assms r1(4) unfolding holds_hp_def hp_ok_def by metis
  have "release php chp s = Inr (s\<lparr>rcl := r2\<rparr>)"
    using r1(1) r2(1) by (simp add: release_def unMark_def)
  then show thesis using that r1 r2 assms by (auto simp: holds_hp_def)
qed

lemma prev_node:
  assumes "chain s xs"
  shows "\<exists>dt. heap s (last (listHead s # map fst (before d xs))) =
    Some \<lparr>ndata = dt, nnext = firstAddr (atOrAfter d xs)\<rparr>"
proof (cases "before d xs = []")
  case True
  then have "atOrAfter d xs = xs" using takeWhile_dropWhile_id [of "\<lambda>e. snd e < d" xs] by simp
  then show ?thesis using assms True by (simp add: chain_def)
next
  case False
  then show ?thesis
    using lseg_last [of "heap s" "firstAddr xs" "before d xs" "atOrAfter d xs"] assms
    by (simp add: chain_def last_map)
qed

lemma list_inv_chain:
  "list_inv s xs \<Longrightarrow> chain s xs \<and> holds_hp HP_INDEX_NULL HP_INDEX_NULL (rcl s)"
  using lseg_first by (fastforce simp: list_inv_def chain_def holds_hp_def hp_ok_def)

lemma list_inv_rcl:
  assumes "list_inv s xs" and "rc_wf r" and "marked r = {}" and "reclaim_map r = reclaim_map (rcl s)"
  shows "list_inv (s\<lparr>rcl := r\<rparr>) xs"
  using assms by (simp add: list_inv_def pendingPtrs_def)

lemma chain_frame:
  assumes "chain s xs" and "\<And>p. p \<in> insert (listHead s) (fst ` set xs) \<Longrightarrow> heap s' p = heap s p"
    and "listHead s' = listHead s"
  shows "chain s' xs"
  using assms lseg_frame [of xs "heap s'" "heap s"] by (simp add: chain_def)

section \<open>Finding\<close>

lemma FindRef_ok:
  assumes "list_inv s xs"
  obtains r where "FindRef d s = Some (Inr (foundAt d xs \<noteq> None,
        case foundAt d xs of None \<Rightarrow> d | Some e \<Rightarrow> e, s\<lparr>rcl := r\<rparr>))"
    and "list_inv (s\<lparr>rcl := r\<rparr>) xs"
proof (rule SearchReset_ok [of s xs HP_INDEX_NULL HP_INDEX_NULL d])
  fix php chp r
  assume sr: "SearchReset d HP_INDEX_NULL HP_INDEX_NULL s = Some (Inr (foundAt d xs,
      last (listHead s # map fst (before d xs)), firstAddr (atOrAfter d xs), php, chp, s\<lparr>rcl := r\<rparr>))"
    and hp: "holds_hp php chp r" and rm: "reclaim_map r = reclaim_map (rcl s)"
  obtain r' where r': "release php chp (s\<lparr>rcl := r\<rparr>) = Inr (s\<lparr>rcl := r'\<rparr>)" "rc_wf r'" "marked r' = {}"
      "reclaim_map r' = reclaim_map (rcl s)"
    using release_ok [of php chp "s\<lparr>rcl := r\<rparr>"] hp rm by auto
  show thesis
    by (rule that [of r']) (use sr r' list_inv_rcl [OF assms] in \<open>simp_all add: FindRef_def\<close>)
qed (use list_inv_chain [OF assms] in simp_all)

lemma Find_ok:
  assumes "list_inv s xs"
  obtains r where "Find d s = Some (Inr (foundAt d xs \<noteq> None, s\<lparr>rcl := r\<rparr>))"
    and "list_inv (s\<lparr>rcl := r\<rparr>) xs"
proof (rule Search_ok [of s xs HP_INDEX_NULL HP_INDEX_NULL d])
  fix php chp r
  assume sr: "Search d HP_INDEX_NULL HP_INDEX_NULL s = Some (Inr (foundAt d xs \<noteq> None,
      last (listHead s # map fst (before d xs)), firstAddr (atOrAfter d xs), php, chp, s\<lparr>rcl := r\<rparr>))"
    and hp: "holds_hp php chp r" and rm: "reclaim_map r = reclaim_map (rcl s)"
  obtain r' where r': "release php chp (s\<lparr>rcl := r\<rparr>) = Inr (s\<lparr>rcl := r'\<rparr>)" "rc_wf r'" "marked r' = {}"
      "reclaim_map r' = reclaim_map (rcl s)"
    using release_ok [of php chp "s\<lparr>rcl := r\<rparr>"] hp rm by auto
  show thesis
    by (rule that [of r']) (use sr r' list_inv_rcl [OF assms] in \<open>simp_all add: Find_def\<close>)
qed (use list_inv_chain [OF assms] in simp_all)

section \<open>Inserting\<close>

abbreviation prevAddr :: "lf_list \<Rightarrow> UserSessionKey \<Rightarrow> (u64 \<times> UserSessionKey) list \<Rightarrow> u64" where
  "prevAddr s d xs \<equiv> last (listHead s # map fst (before d xs))"

lemma prevAddr_in: "prevAddr s d xs \<in> insert (listHead s) (fst ` set xs)"
proof (cases "before d xs = []")
  case False
  then have "last (before d xs) \<in> set xs" using last_in_set set_takeWhileD by metis
  then show ?thesis using False by (simp add: last_map)
qed simp

lemma emplace_found:
  assumes "chain s xs" and "holds_hp php chp (rcl s)" and "heap s a = Some \<lparr>ndata = Some d, nnext = x\<rparr>"
    and "foundAt d xs \<noteq> None"
  shows "\<exists>php' chp' r. loop (emplaceTurn d a) (w, php, chp, s) =
      Some (Inr (False, php', chp', s\<lparr>heap := (heap s)(a := None), rcl := r\<rparr>))
    \<and> holds_hp php' chp' r \<and> reclaim_map r = reclaim_map (rcl s)"
proof -
  obtain php' chp' r where sr: "Search d php chp s = Some (Inr (foundAt d xs \<noteq> None,
        prevAddr s d xs, firstAddr (atOrAfter d xs), php', chp', s\<lparr>rcl := r\<rparr>))"
      and hp: "holds_hp php' chp' r" "reclaim_map r = reclaim_map (rcl s)"
    by (rule Search_ok [OF assms(1,2)])
  have "emplaceTurn d a (w, php, chp, s) = Some (Done (Inr (False, php', chp',
      s\<lparr>heap := (heap s)(a := None), rcl := r\<rparr>)))"
    using sr assms(3,4) by (simp add: emplaceTurn_def OnDeleteNode_def getNode_def)
  from loop_Done [of "emplaceTurn d a", OF this] show ?thesis using hp by blast
qed

lemma emplace_new:
  assumes "chain s xs" and "holds_hp php chp (rcl s)" and "heap s a = Some \<lparr>ndata = Some d, nnext = x\<rparr>"
    and "a \<notin> insert (listHead s) (fst ` set xs)"
    and "heap s (prevAddr s d xs) = Some \<lparr>ndata = dt, nnext = firstAddr (atOrAfter d xs)\<rparr>"
    and "foundAt d xs = None"
  shows "\<exists>php' chp' r. loop (emplaceTurn d a) (w, php, chp, s) =
      Some (Inr (True, php', chp',
        s\<lparr>heap := (heap s)(a \<mapsto> \<lparr>ndata = Some d, nnext = firstAddr (atOrAfter d xs)\<rparr>,
                      prevAddr s d xs \<mapsto> \<lparr>ndata = dt, nnext = a\<rparr>),
          listSize := listSize s + 1, rcl := r\<rparr>))
    \<and> holds_hp php' chp' r \<and> reclaim_map r = reclaim_map (rcl s)"
  using assms(1-5)
proof (induction w arbitrary: s php chp x)
  case (0 s php chp x)
  obtain php' chp' r where sr: "Search d php chp s = Some (Inr (foundAt d xs \<noteq> None,
        prevAddr s d xs, firstAddr (atOrAfter d xs), php', chp', s\<lparr>rcl := r\<rparr>))"
      and hp: "holds_hp php' chp' r" "reclaim_map r = reclaim_map (rcl s)"
    by (rule Search_ok [OF 0(1,2)])
  have ne: "prevAddr s d xs \<noteq> a" using prevAddr_in 0(4) by metis
  have "emplaceTurn d a (0, php, chp, s) = Some (Done (Inr (True, php', chp',
      s\<lparr>heap := (heap s)(a \<mapsto> \<lparr>ndata = Some d, nnext = firstAddr (atOrAfter d xs)\<rparr>,
                            prevAddr s d xs \<mapsto> \<lparr>ndata = dt, nnext = a\<rparr>),
        listSize := listSize s + 1, rcl := r\<rparr>)))"
    using sr 0(3,5) ne assms(6)
    by (simp add: emplaceTurn_def storeNext_def getNode_def compare_exchange_weak_def compare_exchange_strong_def)
  from loop_Done [of "emplaceTurn d a", OF this] show ?case using hp by blast
next
  case (Suc w s php chp x)
  obtain php' chp' r where sr: "Search d php chp s = Some (Inr (foundAt d xs \<noteq> None,
        prevAddr s d xs, firstAddr (atOrAfter d xs), php', chp', s\<lparr>rcl := r\<rparr>))"
      and hp: "holds_hp php' chp' r" "reclaim_map r = reclaim_map (rcl s)"
    by (rule Search_ok [OF Suc.prems(1,2)])
  have ne: "prevAddr s d xs \<noteq> a" using prevAddr_in Suc.prems(4) by metis
  let ?s = "s\<lparr>heap := (heap s)(a \<mapsto> \<lparr>ndata = Some d, nnext = firstAddr (atOrAfter d xs)\<rparr>), rcl := r\<rparr>"
  have "emplaceTurn d a (Suc w, php, chp, s) = Some (Next (w, php', chp', ?s))"
    using sr Suc.prems(3,5) ne assms(6)
    by (simp add: emplaceTurn_def storeNext_def getNode_def compare_exchange_weak_def)
  moreover have "chain ?s xs" by (rule chain_frame [OF Suc.prems(1)]) (use Suc.prems(4) in auto)
  ultimately show ?case
    using Suc.IH [of ?s php' chp' "firstAddr (atOrAfter d xs)"] hp Suc.prems(4,5) ne
    by (simp add: loop_Next del: last.simps cong: if_cong)
qed

lemma emplace_run:
  assumes "chain s xs" and "holds_hp php chp (rcl s)" and "heap s a = Some \<lparr>ndata = Some d, nnext = x\<rparr>"
    and "a \<notin> insert (listHead s) (fst ` set xs)"
    and "heap s (prevAddr s d xs) = Some \<lparr>ndata = dt, nnext = firstAddr (atOrAfter d xs)\<rparr>"
  shows "\<exists>php' chp' r. loop (emplaceTurn d a) (w, php, chp, s) =
      Some (Inr (foundAt d xs = None, php', chp',
        s\<lparr>heap := if foundAt d xs \<noteq> None then (heap s)(a := None)
                  else (heap s)(a \<mapsto> \<lparr>ndata = Some d, nnext = firstAddr (atOrAfter d xs)\<rparr>,
                                prevAddr s d xs \<mapsto> \<lparr>ndata = dt, nnext = a\<rparr>),
          listSize := if foundAt d xs \<noteq> None then listSize s else listSize s + 1, rcl := r\<rparr>))
    \<and> holds_hp php' chp' r \<and> reclaim_map r = reclaim_map (rcl s)"
proof (cases "foundAt d xs = None")
  case True
  show ?thesis using emplace_new [OF assms True] True by simp
next
  case False
  then show ?thesis using emplace_found [OF assms(1-3) False, of w] by (cases "foundAt d xs") simp_all
qed

text \<open>The list after an insertion: the new node stands between the smaller and the larger keys.\<close>

lemma set_takeWhile_subset: "set (takeWhile P xs) \<subseteq> set xs"
  by (auto dest: set_takeWhileD)

lemma set_dropWhile_subset: "set (dropWhile P xs) \<subseteq> set xs"
  by (auto dest: set_dropWhileD)

lemma insert_sorted:
  assumes "sorted_wrt (<) (map snd xs)" and "foundAt d xs = None"
  shows "sorted_wrt (<) (map snd (before d xs @ (a, d) # atOrAfter d xs))"
proof -
  have "sorted_wrt (<) (map snd (before d xs) @ map snd (atOrAfter d xs))"
    using assms(1) by (simp flip: map_append)
  then have s: "sorted_wrt (<) (map snd (before d xs))" "sorted_wrt (<) (map snd (atOrAfter d xs))"
    "\<forall>e \<in> set (before d xs). \<forall>f \<in> set (atOrAfter d xs). snd e < snd f"
    by (auto simp: sorted_wrt_append)
  have b: "snd e < d" if "e \<in> set (before d xs)" for e using that set_takeWhileD by metis
  have "d < snd e" if "e \<in> set (atOrAfter d xs)" for e
  proof (cases "atOrAfter d xs")
    case (Cons x ys)
    then have "\<not> snd x < d" using hd_dropWhile [of "\<lambda>e. snd e < d" xs] by simp
    then have "d < snd x" using assms(2) Cons by (auto simp: foundAt_def key_order split: if_splits)
    moreover have "e = x \<or> snd x < snd e"
      using s(2) that by (auto simp: Cons)
    ultimately show ?thesis using less_trans by blast
  qed (metis that empty_iff empty_set)
  then show ?thesis using s b by (fastforce simp: sorted_wrt_append)
qed

text \<open>Linking the predecessor of a key to another suffix.\<close>

lemma chain_relink:
  assumes ch: "chain s xs" and dist: "distinct (listHead s # map fst xs)"
    and prev: "heap s (prevAddr s d xs) = Some \<lparr>ndata = dt, nnext = firstAddr (atOrAfter d xs)\<rparr>"
    and prev': "heap s' (prevAddr s d xs) = Some \<lparr>ndata = dt, nnext = q\<rparr>"
    and tail: "lseg (heap s') q cs"
    and same: "\<And>p. p \<in> insert (listHead s) (fst ` set (before d xs)) \<Longrightarrow> p \<noteq> prevAddr s d xs \<Longrightarrow>
      heap s' p = heap s p"
    and hd: "listHead s' = listHead s"
  shows "chain s' (before d xs @ cs)"
proof -
  let ?as = "before d xs" and ?bs = "atOrAfter d xs"
  have seg: "lseg (heap s) (firstAddr xs) (?as @ ?bs)" using ch by (simp add: chain_def)
  show ?thesis
  proof (cases "?as = []")
    case True
    then have "dt = None" using prev ch by (simp add: chain_def)
    then show ?thesis using True tail prev' lseg_first [OF tail] by (simp add: chain_def hd)
  next
    case False
    let ?l = "last ?as"
    have pa: "prevAddr s d xs = fst ?l" using False by (simp add: last_map)
    have dt: "dt = Some (snd ?l)" using lseg_last [OF seg False] prev pa by simp
    have d2: "distinct (listHead s # map fst ?as @ map fst ?bs)"
      using dist by (simp flip: map_append)
    have "distinct (map fst (butlast ?as @ [?l]))" using d2 False by simp
    then have bl: "fst ?l \<notin> fst ` set (butlast ?as)" by simp
    have "lseg (heap s') (firstAddr xs) (?as @ cs)"
    proof (rule lseg_relink [OF seg False tail])
      show "heap s' p = heap s p" if p: "p \<in> fst ` set (butlast ?as)" for p
      proof (rule same)
        show "p \<in> insert (listHead s) (fst ` set ?as)" using p in_set_butlastD by fastforce
        show "p \<noteq> prevAddr s d xs" unfolding pa using p bl by blast
      qed
    qed (use prev' pa dt in simp)
    moreover have "fst ?l \<noteq> listHead s" using d2 last_in_set [OF False] by force
    then have "heap s' (listHead s') = heap s (listHead s)"
      using same [of "listHead s"] hd pa by simp
    moreover have "firstAddr (?as @ cs) = firstAddr xs"
      using False by (cases xs) (auto simp: firstAddr_def split: list.splits)
    ultimately show ?thesis using ch hd by (simp add: chain_def)
  qed
qed

lemma prevAddr_before: "prevAddr s d xs \<in> insert (listHead s) (fst ` set (before d xs))"
proof (cases "before d xs = []")
  case False
  then show ?thesis using last_in_set [OF False] by (auto simp: last_map)
qed simp

text \<open>The nodes before and from the place of a key are disjoint.\<close>

lemma parts_disjoint:
  assumes "distinct (listHead s # map fst xs)"
  shows "fst ` set (atOrAfter d xs) \<inter> insert (listHead s) (fst ` set (before d xs)) = {}"
    and "fst ` set (before d xs) \<subseteq> fst ` set xs" and "fst ` set (atOrAfter d xs) \<subseteq> fst ` set xs"
proof -
  have "distinct (listHead s # map fst (before d xs) @ map fst (atOrAfter d xs))"
    using assms by (simp flip: map_append)
  then show "fst ` set (atOrAfter d xs) \<inter> insert (listHead s) (fst ` set (before d xs)) = {}"
    by auto
qed (simp_all add: image_mono set_takeWhile_subset set_dropWhile_subset)

lemma chain_insert:
  assumes ch: "chain s xs" and new: "a \<notin> insert (listHead s) (fst ` set xs)" "a \<noteq> 0" "even a"
    and dist: "distinct (listHead s # map fst xs)"
    and prev: "heap s (prevAddr s d xs) = Some \<lparr>ndata = dt, nnext = firstAddr (atOrAfter d xs)\<rparr>"
    and s': "heap s' = (heap s)(a \<mapsto> \<lparr>ndata = Some d, nnext = firstAddr (atOrAfter d xs)\<rparr>,
        prevAddr s d xs \<mapsto> \<lparr>ndata = dt, nnext = a\<rparr>)" "listHead s' = listHead s"
  shows "chain s' (before d xs @ (a, d) # atOrAfter d xs)"
proof (rule chain_relink [OF ch dist prev])
  note parts = parts_disjoint [OF dist, of d]
  have pa: "prevAddr s d xs \<noteq> a" using prevAddr_in new(1) by metis
  have keep: "heap s' p = heap s p" if "p \<in> insert (listHead s) (fst ` set xs)" "p \<noteq> prevAddr s d xs" for p
  proof -
    have "p \<noteq> a" using that(1) new(1) by blast
    then show ?thesis using that(2) by (simp add: s'(1) del: last.simps)
  qed
  show "heap s' (prevAddr s d xs) = Some \<lparr>ndata = dt, nnext = a\<rparr>" by (simp add: s' del: last.simps)
  show "heap s' p = heap s p" if "p \<in> insert (listHead s) (fst ` set (before d xs))"
    "p \<noteq> prevAddr s d xs" for p
    using that keep parts(2) by blast
  have "heap s' p = heap s p" if p: "p \<in> fst ` set (atOrAfter d xs)" for p
  proof (rule keep)
    show "p \<in> insert (listHead s) (fst ` set xs)" using p parts(3) by blast
    show "p \<noteq> prevAddr s d xs" using p parts(1) prevAddr_before [of s d xs] by blast
  qed
  then have "lseg (heap s') (firstAddr (atOrAfter d xs)) (atOrAfter d xs)"
    using lseg_suffix [of "heap s" "firstAddr xs" "before d xs" "atOrAfter d xs"] ch
      lseg_frame [of "atOrAfter d xs" "heap s'" "heap s"]
    by (simp add: chain_def)
  then show "lseg (heap s') a ((a, d) # atOrAfter d xs)"
    using new(2,3) pa by (simp add: s' del: last.simps)
qed (rule s')

lemma chain_delete:
  assumes ch: "chain s xs" and dist: "distinct (listHead s # map fst xs)"
    and at: "atOrAfter d xs = e # bs"
    and prev: "heap s (prevAddr s d xs) = Some \<lparr>ndata = dt, nnext = firstAddr (atOrAfter d xs)\<rparr>"
    and prev': "heap s' (prevAddr s d xs) = Some \<lparr>ndata = dt, nnext = firstAddr bs\<rparr>"
    and same: "\<And>p. p \<in> insert (listHead s) (fst ` set (before d xs @ bs)) \<Longrightarrow> p \<noteq> prevAddr s d xs \<Longrightarrow>
      heap s' p = heap s p"
    and hd: "listHead s' = listHead s"
  shows "chain s' (before d xs @ bs)"
proof (rule chain_relink [OF ch dist prev prev'])
  note parts = parts_disjoint [OF dist, of d]
  have "fst ` set bs \<subseteq> fst ` set (atOrAfter d xs)" by (auto simp: at)
  then have "prevAddr s d xs \<notin> fst ` set bs" using parts(1) prevAddr_before [of s d xs] by blast
  then have "heap s' p = heap s p" if "p \<in> fst ` set bs" for p
    using that same [of p] by (metis Un_iff image_Un insertI2 set_append)
  moreover have "lseg (heap s) (firstAddr bs) bs"
    using lseg_suffix [of "heap s" "firstAddr xs" "before d xs @ [e]" bs] ch at
      takeWhile_dropWhile_id [of "\<lambda>e. snd e < d" xs]
    by (simp add: chain_def)
  ultimately show "lseg (heap s') (firstAddr bs) bs"
    using lseg_frame [of bs "heap s'" "heap s"] by blast
qed (use same hd in auto)

lemma list_inv_distinct:
  assumes "list_inv s xs"
  shows "distinct (listHead s # map fst xs)"
  using assms lseg_data by (fastforce simp: list_inv_def)

lemma list_inv_insert:
  assumes inv: "list_inv s xs" and new: "a \<notin> dom (heap s)" "a \<noteq> 0" and abs: "foundAt d xs = None"
    and u: "chain u (before d xs @ (a, d) # atOrAfter d xs)" "dom (heap u) = insert a (dom (heap s))"
      "listHead u = listHead s" "listSize u = listSize s + 1" "rc_wf (rcl u)" "marked (rcl u) = {}"
      "reclaim_map (rcl u) = reclaim_map (rcl s)"
  shows "list_inv u (before d xs @ (a, d) # atOrAfter d xs)"
proof -
  let ?xs = "before d xs @ (a, d) # atOrAfter d xs"
  note dist = list_inv_distinct [OF inv] and parts = parts_disjoint [OF list_inv_distinct [OF inv], of d]
  have fresh: "a \<notin> insert (listHead s) (fst ` set xs)"
    using new(1) inv lseg_dom unfolding list_inv_def by blast
  have "set (before d xs) \<union> set (atOrAfter d xs) = set xs"
    by (metis set_append takeWhile_dropWhile_id)
  then have fs: "fst ` set ?xs = insert a (fst ` set xs)" by (simp flip: image_Un)
  have "distinct (map fst (before d xs) @ map fst (atOrAfter d xs))"
    using dist by (simp flip: map_append)
  moreover have "a \<notin> fst ` set (before d xs)" "a \<notin> fst ` set (atOrAfter d xs)"
    using fresh parts(2,3) by blast+
  ultimately have dxs: "distinct (map fst ?xs)" by simp
  have "length (before d xs) + length (atOrAfter d xs) = length xs"
    by (metis length_append takeWhile_dropWhile_id)
  then have len: "length ?xs = Suc (length xs)" by simp
  have pend: "pendingPtrs (rcl u) = pendingPtrs (rcl s)" using u(7) by (simp add: pendingPtrs_def)
  show ?thesis
    unfolding list_inv_def fs u(2)
  proof (intro conjI)
    show "\<exists>n. heap u (listHead u) = Some \<lparr>ndata = None, nnext = n\<rparr> \<and> lseg (heap u) n ?xs"
      using u(1) unfolding chain_def by blast
    show "sorted_wrt (<) (map snd ?xs)"
      using insert_sorted [OF _ abs] inv by (simp add: list_inv_def)
    show "listSize u = of_nat (length ?xs)" using u(4) inv len by (simp add: list_inv_def)
    show "pendingPtrs (rcl u) \<inter> insert (listHead u) (insert a (fst ` set xs)) = {}"
      using inv new(1) pend u(3) by (auto simp: list_inv_def)
  qed (use dxs u inv pend new(2) in \<open>auto simp: list_inv_def\<close>)
qed

text \<open>
  Whatever the number of spurious failures, inserting ends, adds the key exactly if it was absent,
  and keeps the invariant.
\<close>

lemma Emplace_ok:
  assumes inv: "list_inv s xs" and new: "a \<notin> dom (heap s)" "a \<noteq> 0" "even a"
  obtains s' where "Emplace a w d s = Some (Inr (foundAt d xs = None, s'))"
    and "list_inv s' (if foundAt d xs = None then before d xs @ (a, d) # atOrAfter d xs else xs)"
proof -
  let ?s = "s\<lparr>heap := (heap s)(a \<mapsto> \<lparr>ndata = Some d, nnext = 0\<rparr>)\<rparr>"
  note dist = list_inv_distinct [OF inv]
  have fresh: "a \<notin> insert (listHead s) (fst ` set xs)"
    using new(1) inv lseg_dom unfolding list_inv_def by blast
  have ch: "chain ?s xs"
    by (rule chain_frame [OF conjunct1 [OF list_inv_chain [OF inv]]]) (use fresh in auto)
  have hp: "holds_hp HP_INDEX_NULL HP_INDEX_NULL (rcl ?s)" using list_inv_chain [OF inv] by simp
  obtain dt where prev: "heap ?s (prevAddr ?s d xs) = Some \<lparr>ndata = dt, nnext = firstAddr (atOrAfter d xs)\<rparr>"
    using prev_node [OF ch] by blast
  have fresh': "a \<notin> insert (listHead ?s) (fst ` set xs)" using fresh by simp
  have node: "heap ?s a = Some \<lparr>ndata = Some d, nnext = 0\<rparr>" by simp
  obtain php chp r where run: "loop (emplaceTurn d a) (w, HP_INDEX_NULL, HP_INDEX_NULL, ?s) =
      Some (Inr (foundAt d xs = None, php, chp,
        ?s\<lparr>heap := if foundAt d xs \<noteq> None then (heap ?s)(a := None)
                  else (heap ?s)(a \<mapsto> \<lparr>ndata = Some d, nnext = firstAddr (atOrAfter d xs)\<rparr>,
                                prevAddr ?s d xs \<mapsto> \<lparr>ndata = dt, nnext = a\<rparr>),
          listSize := if foundAt d xs \<noteq> None then listSize ?s else listSize ?s + 1, rcl := r\<rparr>))"
    and hp': "holds_hp php chp r" "reclaim_map r = reclaim_map (rcl ?s)"
    using emplace_run [OF ch hp node fresh' prev, of w] by blast
  let ?t = "?s\<lparr>heap := if foundAt d xs \<noteq> None then (heap ?s)(a := None)
                  else (heap ?s)(a \<mapsto> \<lparr>ndata = Some d, nnext = firstAddr (atOrAfter d xs)\<rparr>,
                                prevAddr ?s d xs \<mapsto> \<lparr>ndata = dt, nnext = a\<rparr>),
          listSize := if foundAt d xs \<noteq> None then listSize ?s else listSize ?s + 1, rcl := r\<rparr>"
  obtain r' where r': "release php chp ?t = Inr (?t\<lparr>rcl := r'\<rparr>)" "rc_wf r'" "marked r' = {}"
      "reclaim_map r' = reclaim_map r"
    by (rule release_ok [of php chp ?t]) (use hp' in auto)
  have run': "Emplace a w d s = Some (Inr (foundAt d xs = None, ?t\<lparr>rcl := r'\<rparr>))"
    using run r'(1) by (simp only: Emplace_def Let_def option.map bindR_simps prod.case)
  show thesis
  proof (cases "foundAt d xs = None")
    case False
    have "(heap s)(a := None) = heap s" using new(1) by (simp add: domIff fun_upd_idem)
    then have "?t\<lparr>rcl := r'\<rparr> = s\<lparr>rcl := r'\<rparr>" using False by simp
    then have "list_inv (?t\<lparr>rcl := r'\<rparr>) xs" using list_inv_rcl [OF inv r'(2,3)] r'(4) hp'(2) by simp
    then show thesis using that [OF run'] False by simp
  next
    case True
    let ?xs = "before d xs @ (a, d) # atOrAfter d xs"
    let ?u = "?t\<lparr>rcl := r'\<rparr>"
    have chu: "chain ?u ?xs"
      by (rule chain_insert [OF ch fresh' new(2,3) _ prev]) (use True dist in simp_all)
    have "prevAddr ?s d xs \<in> dom (heap ?s)" using prev by blast
    then have dom: "dom (heap ?u) = insert a (dom (heap s))" using True by (auto simp del: last.simps)
    have "list_inv ?u ?xs"
      by (rule list_inv_insert [OF inv new(1,2) True chu dom]) (use True r' hp'(2) in simp_all)
    then show thesis using that [OF run'] True by simp
  qed
qed

section \<open>Deleting\<close>

lemma delete_absent:
  assumes "chain s xs" and "holds_hp php chp (rcl s)" and "foundAt d xs = None"
  obtains php' chp' r where "loop (deleteTurn d) (w, php, chp, s) = Some (Inr (None, php', chp', s\<lparr>rcl := r\<rparr>))"
    and "holds_hp php' chp' r" and "reclaim_map r = reclaim_map (rcl s)"
proof -
  obtain php' chp' r where sr: "Search d php chp s = Some (Inr (foundAt d xs \<noteq> None,
        prevAddr s d xs, firstAddr (atOrAfter d xs), php', chp', s\<lparr>rcl := r\<rparr>))"
      and hp: "holds_hp php' chp' r" "reclaim_map r = reclaim_map (rcl s)"
    by (rule Search_ok [OF assms(1,2)])
  have "deleteTurn d (w, php, chp, s) = Some (Done (Inr (None, php', chp', s\<lparr>rcl := r\<rparr>)))"
    using sr assms(3) by (simp add: deleteTurn_def)
  from loop_Done [of "deleteTurn d", OF this] show thesis using that hp by blast
qed

lemma delete_present:
  assumes "chain s xs" and "holds_hp php chp (rcl s)" and "atOrAfter d xs = (c, e) # bs" and "Equals e d"
    and "heap s c = Some \<lparr>ndata = Some e, nnext = firstAddr bs\<rparr>" and "even (firstAddr bs)"
  shows "\<exists>php' chp' r. loop (deleteTurn d) (w, php, chp, s) =
      Some (Inr (Some (prevAddr s d xs, c, firstAddr bs), php', chp',
        s\<lparr>heap := (heap s)(c \<mapsto> \<lparr>ndata = Some e, nnext = get_marked_reference LONG_BIT (firstAddr bs)\<rparr>),
          rcl := r\<rparr>))
    \<and> holds_hp php' chp' r \<and> reclaim_map r = reclaim_map (rcl s)"
  using assms(1,2,5)
proof (induction w arbitrary: s php chp)
  case (0 s php chp)
  obtain php' chp' r where sr: "Search d php chp s = Some (Inr (foundAt d xs \<noteq> None,
        prevAddr s d xs, firstAddr (atOrAfter d xs), php', chp', s\<lparr>rcl := r\<rparr>))"
      and hp: "holds_hp php' chp' r" "reclaim_map r = reclaim_map (rcl s)"
    by (rule Search_ok [OF 0(1,2)])
  have "deleteTurn d (0, php, chp, s) = Some (Done (Inr (Some (prevAddr s d xs, c, firstAddr bs), php', chp',
        s\<lparr>heap := (heap s)(c \<mapsto> \<lparr>ndata = Some e, nnext = get_marked_reference LONG_BIT (firstAddr bs)\<rparr>),
          rcl := r\<rparr>)))"
    using sr assms(3,4,6) 0(3)
    by (simp add: deleteTurn_def foundAt_def firstAddr_def [of "(c, e) # bs"] loadNext_def getNode_def
        compare_exchange_weak_def compare_exchange_strong_def del: last.simps)
  from loop_Done [of "deleteTurn d", OF this] show ?case using hp by blast
next
  case (Suc w s php chp)
  obtain php' chp' r where sr: "Search d php chp s = Some (Inr (foundAt d xs \<noteq> None,
        prevAddr s d xs, firstAddr (atOrAfter d xs), php', chp', s\<lparr>rcl := r\<rparr>))"
      and hp: "holds_hp php' chp' r" "reclaim_map r = reclaim_map (rcl s)"
    by (rule Search_ok [OF Suc.prems(1,2)])
  have "deleteTurn d (Suc w, php, chp, s) = Some (Next (w, php', chp', s\<lparr>rcl := r\<rparr>))"
    using sr assms(3,4,6) Suc.prems(3)
    by (simp add: deleteTurn_def foundAt_def firstAddr_def [of "(c, e) # bs"] loadNext_def getNode_def
        compare_exchange_weak_def del: last.simps)
  moreover have "chain (s\<lparr>rcl := r\<rparr>) xs" using Suc.prems(1) by (simp add: chain_def)
  ultimately show ?case
    using Suc.IH [of "s\<lparr>rcl := r\<rparr>" php' chp'] hp Suc.prems(3)
    by (simp add: loop_Next del: last.simps)
qed

lemma seqR_OnDeleteNode:
  "set del \<subseteq> dom (heap s) \<Longrightarrow> distinct del \<Longrightarrow>
   seqR OnDeleteNode del s = Inr (s\<lparr>heap := heap s |` (- set del)\<rparr>)"
proof (induction del arbitrary: s)
  case (Cons p del)
  let ?s = "s\<lparr>heap := (heap s)(p := None)\<rparr>"
  have "OnDeleteNode p s = Inr ?s"
    using Cons.prems(1) by (auto simp: OnDeleteNode_def getNode_def)
  moreover have "heap ?s |` (- set del) = heap s |` (- set (p # del))"
    by (auto simp: restrict_map_def fun_eq_iff)
  moreover have "set del \<subseteq> dom (heap ?s)" using Cons.prems by auto
  ultimately show ?case using Cons.IH [of ?s] Cons.prems(2) by (simp del: fun_upd_apply)
qed (simp add: restrict_map_def)

text \<open>Handing a node to the reclaimer frees nodes that wait there, each of them once.\<close>

lemma reclaim_ok:
  assumes hp: "holds_hp php chp (rcl s)" and dom: "insert c (pendingPtrs (rcl s)) \<subseteq> dom (heap s)"
  obtains del r where "reclaim c s = Inr (s\<lparr>heap := heap s |` (- set del), rcl := r\<rparr>)"
    and "holds_hp php chp r" and "set del \<union> pendingPtrs r = insert c (pendingPtrs (rcl s))"
    and "set del \<inter> pendingPtrs r = {}"
proof -
  have wf: "rc_wf (rcl s)" using hp by (simp add: holds_hp_def)
  obtain del r where dr: "ReclaimNoHazardPointer (ReclaimLater c (rcl s)) = (del, r)" by force
  note l = ReclaimLater_facts [OF wf, of c]
  note f = ReclaimNoHazardPointer_facts [OF l(1) dr]
  have "marked r = marked (rcl s)" using f(2,3) l(3,4) by (simp add: marked_def own_def)
  then have "holds_hp php chp r" using hp f(1,3) l(4) by (simp add: holds_hp_def hp_ok_def)
  moreover have "set del \<subseteq> dom (heap (s\<lparr>rcl := r\<rparr>))" using f(6) l(2) dom by auto
  then have "reclaim c s = Inr (s\<lparr>heap := heap s |` (- set del), rcl := r\<rparr>)"
    using seqR_OnDeleteNode [of del "s\<lparr>rcl := r\<rparr>"] f(5) dr by (simp add: reclaim_def)
  ultimately show thesis using that f(6,7) l(2) by blast
qed

lemma disjoint_insertI: "x \<notin> S \<Longrightarrow> P' \<subseteq> insert x P \<Longrightarrow> P \<inter> S = {} \<Longrightarrow> P' \<inter> S = {}"
  by blast

lemma list_inv_delete:
  assumes inv: "list_inv s (as @ e # bs)"
    and u: "chain u (as @ bs)" "listHead u = listHead s" "listSize u = listSize s - 1"
      "rc_wf (rcl u)" "marked (rcl u) = {}" "dom (heap u) = dom (heap s) - D"
      "D \<union> pendingPtrs (rcl u) = insert (fst e) (pendingPtrs (rcl s))" "D \<inter> pendingPtrs (rcl u) = {}"
  shows "list_inv u (as @ bs)"
proof -
  note d = list_inv_distinct [OF inv]
  have "fst e \<notin> insert (listHead s) (fst ` set (as @ bs))" using d by (simp add: image_Un) metis
  moreover have "pendingPtrs (rcl u) \<subseteq> insert (fst e) (pendingPtrs (rcl s))" using u(7) by blast
  moreover have "pendingPtrs (rcl s) \<inter> insert (listHead s) (fst ` set (as @ bs)) = {}"
    using inv by (simp add: list_inv_def image_Un)
  ultimately have pend: "pendingPtrs (rcl u) \<inter> insert (listHead u) (fst ` set (as @ bs)) = {}"
    unfolding u(2) by (rule disjoint_insertI)
  obtain n where "lseg (heap s) n (as @ e # bs)" using inv by (auto simp: list_inv_def)
  from lseg_dom [OF this] have "fst e \<in> dom (heap s)" by simp
  then have dom: "pendingPtrs (rcl u) \<subseteq> dom (heap u)"
    using inv u(6,7,8) unfolding list_inv_def by blast
  show ?thesis
    unfolding list_inv_def
  proof (intro conjI)
    show "\<exists>n. heap u (listHead u) = Some \<lparr>ndata = None, nnext = n\<rparr> \<and> lseg (heap u) n (as @ bs)"
      using u(1) unfolding chain_def by blast
    show "listSize u = of_nat (length (as @ bs))"
      using u(3) inv by (simp add: list_inv_def)
    show "sorted_wrt (<) (map snd (as @ bs))"
      using inv by (auto simp: list_inv_def sorted_wrt_append)
    show "distinct (map fst (as @ bs))" using d by simp
    show "0 \<notin> dom (heap u)" using u(6) inv by (simp add: list_inv_def)
  qed (use u pend dom in simp_all)
qed

text \<open>
  Deleting ends, removes the key exactly if it was present, and keeps the invariant. The node is
  not freed by the deletion itself: the operation still holds a hazard pointer to it.
\<close>

lemma Delete_absent_ok:
  assumes inv: "list_inv s xs" and f: "foundAt d xs = None"
  obtains s' where "Delete w d s = Some (Inr (False, s'))" and "list_inv s' xs"
proof -
  note ch = list_inv_chain [OF inv]
  obtain php chp r where run: "loop (deleteTurn d) (w, HP_INDEX_NULL, HP_INDEX_NULL, s) =
      Some (Inr (None, php, chp, s\<lparr>rcl := r\<rparr>))"
    and hp: "holds_hp php chp r" "reclaim_map r = reclaim_map (rcl s)"
    by (rule delete_absent [OF conjunct1 [OF ch] conjunct2 [OF ch] f])
  obtain r' where r': "release php chp (s\<lparr>rcl := r\<rparr>) = Inr (s\<lparr>rcl := r'\<rparr>)" "rc_wf r'" "marked r' = {}"
      "reclaim_map r' = reclaim_map (rcl s)"
    by (rule release_ok [of php chp "s\<lparr>rcl := r\<rparr>"]) (use hp in auto)
  show thesis
    by (rule that [of "s\<lparr>rcl := r'\<rparr>"]) (use run r' list_inv_rcl [OF inv] in \<open>simp_all add: Delete_def\<close>)
qed

text \<open>The steps of \<open>deleteUnlink\<close>: unlinking, handing the node over, releasing the hazard pointers.\<close>

abbreviation unlinkedHeap :: "lf_list \<Rightarrow> UserSessionKey \<Rightarrow> (u64 \<times> UserSessionKey) list
    \<Rightarrow> u64 \<Rightarrow> node \<Rightarrow> UserSessionKey option \<Rightarrow> u64 \<Rightarrow> u64 \<rightharpoonup> node" where
  "unlinkedHeap s d xs c m dt succ \<equiv>
     (heap s)(c \<mapsto> m, prevAddr s d xs \<mapsto> \<lparr>ndata = dt, nnext = succ\<rparr>)"

lemma unlink_run:
  assumes inv: "list_inv s xs" and at: "atOrAfter d xs = (c, e) # bs"
    and c: "heap s c = Some y" and prev: "heap s (prevAddr s d xs) = Some \<lparr>ndata = dt, nnext = c\<rparr>"
    and pc: "prevAddr s d xs \<noteq> c"
    and hp: "holds_hp php chp r" "reclaim_map r = reclaim_map (rcl s)"
  obtains del r3 where "deleteUnlink d (prevAddr s d xs, c, firstAddr bs) php chp
      (s\<lparr>heap := (heap s)(c \<mapsto> m), rcl := r\<rparr>) =
      Some (Inr (True, s\<lparr>heap := unlinkedHeap s d xs c m dt (firstAddr bs) |` (- set del), rcl := r3,
                       listSize := listSize s - 1\<rparr>))"
    and "rc_wf r3" and "marked r3 = {}"
    and "set del \<union> pendingPtrs r3 = insert c (pendingPtrs (rcl s))" and "set del \<inter> pendingPtrs r3 = {}"
proof -
  let ?p = "prevAddr s d xs"
  define h where "h = unlinkedHeap s d xs c m dt (firstAddr bs)"
  define t where "t = s\<lparr>heap := h, rcl := r, listSize := listSize s - 1\<rparr>"
  have cas: "compare_exchange_strong ?p c (firstAddr bs) (s\<lparr>heap := (heap s)(c \<mapsto> m), rcl := r\<rparr>) =
      Inr (True, s\<lparr>heap := h, rcl := r\<rparr>)"
    using prev pc by (simp add: h_def compare_exchange_strong_def getNode_def del: last.simps)
  have pend: "pendingPtrs r = pendingPtrs (rcl s)" using hp(2) by (simp add: pendingPtrs_def)
  have domh: "dom h = dom (heap s)" using c prev by (auto simp: h_def simp del: last.simps)
  have sub: "insert c (pendingPtrs (rcl t)) \<subseteq> dom (heap t)"
    using inv pend c domh by (auto simp: t_def list_inv_def)
  have hpt: "holds_hp php chp (rcl t)" using hp(1) by (simp add: t_def)
  obtain del r2 where rc: "reclaim c t = Inr (t\<lparr>heap := heap t |` (- set del), rcl := r2\<rparr>)"
      "holds_hp php chp r2" "set del \<union> pendingPtrs r2 = insert c (pendingPtrs (rcl t))"
      "set del \<inter> pendingPtrs r2 = {}"
    by (rule reclaim_ok [OF hpt sub])
  define v where "v = t\<lparr>heap := heap t |` (- set del), rcl := r2\<rparr>"
  obtain r3 where r3: "release php chp v = Inr (v\<lparr>rcl := r3\<rparr>)" "rc_wf r3" "marked r3 = {}"
      "reclaim_map r3 = reclaim_map r2"
    by (rule release_ok [of php chp v]) (use rc(2) in \<open>auto simp: v_def\<close>)
  have "deleteUnlink d (?p, c, firstAddr bs) php chp (s\<lparr>heap := (heap s)(c \<mapsto> m), rcl := r\<rparr>) =
      Some (Inr (True, v\<lparr>rcl := r3\<rparr>))"
    using cas rc(1) r3(1) by (simp add: deleteUnlink_def v_def t_def del: last.simps fun_upd_apply)
  then show thesis
    using that [where del = del and ?r3.0 = r3] r3(2,3,4) rc(3,4) pend
    by (simp add: v_def t_def h_def pendingPtrs_def del: last.simps fun_upd_apply)
qed

lemma unlink_ok:
  assumes inv: "list_inv s xs" and at: "atOrAfter d xs = (c, e) # bs"
    and c: "heap s c = Some \<lparr>ndata = Some e, nnext = firstAddr bs\<rparr>"
    and hp: "holds_hp php chp r" "reclaim_map r = reclaim_map (rcl s)"
  shows "\<exists>s'. deleteUnlink d (prevAddr s d xs, c, firstAddr bs) php chp
      (s\<lparr>heap := (heap s)(c \<mapsto> m), rcl := r\<rparr>) = Some (Inr (True, s')) \<and> list_inv s' (before d xs @ bs)"
proof -
  let ?as = "before d xs" and ?p = "prevAddr s d xs"
  note ch = conjunct1 [OF list_inv_chain [OF inv]] and dist = list_inv_distinct [OF inv]
  obtain dt where prev: "heap s ?p = Some \<lparr>ndata = dt, nnext = firstAddr (atOrAfter d xs)\<rparr>"
    using prev_node [OF ch] by blast
  have "c \<in> fst ` set (atOrAfter d xs)" by (simp add: at)
  then have pc: "?p \<noteq> c" using parts_disjoint(1) [OF dist, of d] prevAddr_before [of s d xs] by blast
  have prev': "heap s ?p = Some \<lparr>ndata = dt, nnext = c\<rparr>" using prev at by (simp add: firstAddr_def del: last.simps)
  obtain del r3 where run: "deleteUnlink d (?p, c, firstAddr bs) php chp (s\<lparr>heap := (heap s)(c \<mapsto> m), rcl := r\<rparr>) =
      Some (Inr (True, s\<lparr>heap := unlinkedHeap s d xs c m dt (firstAddr bs) |` (- set del), rcl := r3,
                       listSize := listSize s - 1\<rparr>))"
      and r3: "rc_wf r3" "marked r3 = {}" "set del \<union> pendingPtrs r3 = insert c (pendingPtrs (rcl s))"
        "set del \<inter> pendingPtrs r3 = {}"
    by (rule unlink_run [OF inv at c prev' pc hp])
  define v where "v = s\<lparr>heap := unlinkedHeap s d xs c m dt (firstAddr bs) |` (- set del), rcl := r3,
      listSize := listSize s - 1\<rparr>"
  have inv': "list_inv s (?as @ (c, e) # bs)" using inv at takeWhile_dropWhile_id by metis
  have cn: "c \<notin> insert (listHead s) (fst ` set (?as @ bs))"
    using list_inv_distinct [OF inv'] by (simp add: image_Un) metis
  have "set del \<subseteq> insert c (pendingPtrs (rcl s))" using r3(3) by blast
  moreover have "pendingPtrs (rcl s) \<inter> insert (listHead s) (fst ` set (?as @ bs)) = {}"
    using inv' by (simp add: list_inv_def image_Un)
  ultimately have "set del \<inter> insert (listHead s) (fst ` set (?as @ bs)) = {}"
    by (rule disjoint_insertI [OF cn])
  then have nd: "p \<notin> set del" if "p \<in> insert (listHead s) (fst ` set (?as @ bs))" for p
    using that by (metis disjoint_iff)
  have hv: "heap v p = (if p \<in> set del then None else unlinkedHeap s d xs c m dt (firstAddr bs) p)" for p
    by (simp add: v_def restrict_map_def del: fun_upd_apply last.simps)
  have chu: "chain v (?as @ bs)"
  proof (rule chain_delete [OF ch dist at prev])
    show "heap v ?p = Some \<lparr>ndata = dt, nnext = firstAddr bs\<rparr>"
      using nd [of ?p] prevAddr_before [of s d xs] by (auto simp: hv simp del: last.simps)
    show "heap v p = heap s p"
      if "p \<in> insert (listHead s) (fst ` set (?as @ bs))" "p \<noteq> ?p" for p
      using that nd [OF that(1)] cn by (simp add: hv del: last.simps) metis
  qed (simp add: v_def)
  have "list_inv v (?as @ bs)"
  proof (rule list_inv_delete [OF inv' chu])
    show "dom (heap v) = dom (heap s) - set del"
      using c prev by (auto simp: hv simp del: last.simps split: if_splits)
  qed (use r3 in \<open>simp_all add: v_def\<close>)
  then show ?thesis using run unfolding v_def by blast
qed

lemma Delete_present_ok:
  assumes inv: "list_inv s xs" and at: "atOrAfter d xs = (c, e) # bs" and eq: "Equals e d"
  obtains s' where "Delete w d s = Some (Inr (True, s'))" and "list_inv s' (before d xs @ bs)"
proof -
  note ch = list_inv_chain [OF inv]
  have "lseg (heap s) (firstAddr xs) (before d xs @ (c, e) # bs)"
    using ch at by (simp add: chain_def flip: at)
  then have "lseg (heap s) c ((c, e) # bs)" using lseg_suffix by (fastforce simp: firstAddr_def)
  then obtain n where n: "heap s c = Some \<lparr>ndata = Some e, nnext = n\<rparr>" "lseg (heap s) n bs" by auto
  have nb: "n = firstAddr bs" "even n" using lseg_first [OF n(2)] lseg_even [OF n(2)] by auto
  let ?m = "\<lparr>ndata = Some e, nnext = get_marked_reference LONG_BIT (firstAddr bs)\<rparr>"
  obtain php chp r where run: "loop (deleteTurn d) (w, HP_INDEX_NULL, HP_INDEX_NULL, s) =
      Some (Inr (Some (prevAddr s d xs, c, firstAddr bs), php, chp, s\<lparr>heap := (heap s)(c \<mapsto> ?m), rcl := r\<rparr>))"
    and hp: "holds_hp php chp r" "reclaim_map r = reclaim_map (rcl s)"
    using delete_present [OF conjunct1 [OF ch] conjunct2 [OF ch] at eq] n(1) nb by blast
  obtain s' where "deleteUnlink d (prevAddr s d xs, c, firstAddr bs) php chp
      (s\<lparr>heap := (heap s)(c \<mapsto> ?m), rcl := r\<rparr>) = Some (Inr (True, s'))" "list_inv s' (before d xs @ bs)"
    using unlink_ok [OF inv at _ hp] n(1) nb(1) by blast
  then show thesis using that run by (simp add: Delete_def del: last.simps fun_upd_apply)
qed

section \<open>Marked pointers\<close>

text \<open>
  C27. Where \<open>unsigned long\<close> has 64 bits, marking a pointer to a node and removing the mark give the
  pointer back, and a mark is seen; where it has 32 bits, a pointer above \<open>2 ^ 32\<close> never comes back.
\<close>

theorem pointer_mark_roundtrip:
  assumes "even p"
  shows "is_marked_reference LONG_BIT (get_marked_reference LONG_BIT p) \<and> \<not> is_marked_reference LONG_BIT p
    \<and> get_unmarked_reference LONG_BIT (get_marked_reference LONG_BIT p) = p
    \<and> (2 ^ 32 \<le> p \<longrightarrow> get_unmarked_reference 32 (get_marked_reference 32 p) \<noteq> p)"
proof -
  have "unat p < 2 ^ 32" if "get_unmarked_reference 32 q = p" for q
  proof -
    have "take_bit 32 p = p"
      unfolding that [symmetric] get_unmarked_reference_def
      by (rule bit_eqI) (simp only: bit_and_iff bit_take_bit_iff, blast)
    then have "unat p = unat p mod 2 ^ 32"
      by (metis take_bit_eq_mod unsigned_take_bit_eq)
    then show ?thesis by (metis mod_less_divisor zero_less_numeral zero_less_power)
  qed
  moreover have "2 ^ 32 \<le> unat p" if "2 ^ 32 \<le> p"
    using that by (simp add: word_le_nat_alt)
  ultimately have "2 ^ 32 \<le> p \<longrightarrow> get_unmarked_reference 32 (get_marked_reference 32 p) \<noteq> p"
    by (meson linorder_not_less)
  then show ?thesis using mark_roundtrip [OF assms] assms by auto
qed

theorem pointer_mark_roundtrip_witness:
  "get_unmarked_reference LONG_BIT (get_marked_reference LONG_BIT 4294967312) = 4294967312
   \<and> get_unmarked_reference 32 (get_marked_reference 32 4294967312) \<noteq> 4294967312"
  using pointer_mark_roundtrip [of 4294967312] by simp

end
