(* ===== verification/List_Marks.thy ===== *)
theory List_Marks
  imports Lockfree_Correct
begin

text \<open>
  The hazard pointers of one thread while it searches the list of
  \<open>src/include/net/container/lockfreeLinkedlist.h\<close>, with other threads at work between its turns: whether
  the two nodes that a turn reads are marked. They are, in a search that begins with hazard pointer objects
  that refer to no mark or to marks that are still set. The second search of \<open>Delete\<close> is another matter: it
  begins with the objects whose marks were taken back just before.
\<close>

section \<open>Turns of a search\<close>

text \<open>The state in which a turn reads the links of \<open>prev\<close> and \<open>cur\<close>, after its beginning.\<close>

definition atReading :: "search_state \<Rightarrow> lf_list result" where
  "atReading = (\<lambda>(prev, cur, php, chp, s). bindR (markCur cur chp s) (\<lambda>(cur_hp', s'). Inr s'))"

text \<open>What other threads may do in between: anything but write the cells of this thread.\<close>

definition othersDo :: "lf_list \<Rightarrow> lf_list \<Rightarrow> bool" where
  "othersDo s s' \<longleftrightarrow> listHead s' = listHead s \<and> rc_wf (rcl s') \<and> hp_list (rcl s') = hp_list (rcl s)
     \<and> (\<forall>i < length (hp_list (rcl s)). own (rcl s') i = own (rcl s) i)"

inductive walks :: "UserSessionKey \<Rightarrow> search_state \<Rightarrow> search_state \<Rightarrow> bool" for d st where
  begun: "walks d st st"
| turn: "walks d st st1 \<Longrightarrow> searchTurn d st1 = Some (Next st2) \<Longrightarrow> walks d st st2"
| interfered: "walks d st (prev, cur, php, chp, s) \<Longrightarrow> othersDo s s' \<Longrightarrow> walks d st (prev, cur, php, chp, s')"

section \<open>Marks that are kept apart\<close>

definition apart :: "search_state \<Rightarrow> bool" where
  "apart = (\<lambda>(prev, cur, php, chp, s).
     rc_wf (rcl s) \<and> hp_ok php (rcl s) \<and> hp_ok chp (rcl s)
   \<and> (php \<noteq> HP_INDEX_NULL \<longrightarrow> chp \<noteq> php \<and> own (rcl s) (nat php) \<noteq> 0)
   \<and> (prev = listHead s \<or> php \<noteq> HP_INDEX_NULL \<and> own (rcl s) (nat php) = prev))"

lemma hp_index: "hp_ok i r \<Longrightarrow> i \<noteq> HP_INDEX_NULL \<Longrightarrow> 0 \<le> i \<and> nat i < length (hp_list r)"
  by (auto simp: hp_ok_def)

lemma unmark_own:
  assumes "rc_wf r" and "UnMarkHazard i r = Inr r1" and "j < length (hp_list r)" and "int j \<noteq> i"
  shows "own r1 j = own r j"
  using assms storeHp_facts(2) [OF assms(1), of "nat i" j 0] by (auto simp: UnMarkHazard_def split: if_splits)

lemma prepared:
  assumes "apart (prev, cur, php, chp, s)"
  obtains r1 r chp' where "UnMarkHazard chp (rcl s) = Inr r1" and "MarkHazard cur r1 = (chp', r)"
    and "rc_wf r" and "hp_ok php r" and "hp_ok chp' r"
    and "php \<noteq> HP_INDEX_NULL \<Longrightarrow> chp' \<noteq> php \<and> own r (nat php) = own (rcl s) (nat php)"
    and "cur = 0 \<Longrightarrow> chp' = HP_INDEX_NULL" and "cur \<noteq> 0 \<Longrightarrow> chp' \<noteq> HP_INDEX_NULL \<and> own r (nat chp') = cur"
proof -
  have a: "rc_wf (rcl s)" "hp_ok php (rcl s)" "hp_ok chp (rcl s)"
      "php \<noteq> HP_INDEX_NULL \<Longrightarrow> chp \<noteq> php \<and> own (rcl s) (nat php) \<noteq> 0"
    using assms by (simp_all add: apart_def)
  obtain r1 where r1: "UnMarkHazard chp (rcl s) = Inr r1" "rc_wf r1" "hp_list r1 = hp_list (rcl s)"
    using UnMarkHazard_ok [OF a(1)] a(3) unfolding hp_ok_def by metis
  obtain chp' r where r: "MarkHazard cur r1 = (chp', r)" by force
  note k = MarkHazard_ok [OF r1(2) r]
  have php: "0 \<le> php" "nat php < length (hp_list r1)" "own r1 (nat php) = own (rcl s) (nat php)"
      "php \<in> marked r1" if "php \<noteq> HP_INDEX_NULL"
  proof -
    show i: "0 \<le> php" "nat php < length (hp_list r1)" using hp_index [OF a(2) that] r1(3) by simp_all
    show o1: "own r1 (nat php) = own (rcl s) (nat php)"
      by (rule unmark_own [OF a(1) r1(1)]) (use i a(4) [OF that] r1(3) in simp_all)
    show "php \<in> marked r1" using i a(4) [OF that] o1 unfolding marked_def by (auto intro!: exI [of _ "nat php"])
  qed
  show thesis
  proof (rule that [OF r1(1) r k(1)])
    show "hp_ok php r" using php k(2) by (cases "php = HP_INDEX_NULL") (auto simp: hp_ok_def)
    show "hp_ok chp' r" "cur = 0 \<Longrightarrow> chp' = HP_INDEX_NULL" using k(4,5) by (cases "cur = 0"; simp add: hp_ok_def)+
    show "chp' \<noteq> HP_INDEX_NULL \<and> own r (nat chp') = cur" if "cur \<noteq> 0" using k(5) [OF that] by (auto simp: HP_INDEX_NULL_def)
    show "chp' \<noteq> php \<and> own r (nat php) = own (rcl s) (nat php)" if "php \<noteq> HP_INDEX_NULL"
      using php [OF that] k(4,5) k(6) [of "nat php"] that by (cases "cur = 0") auto
  qed
qed

lemma reading_guarded:
  assumes "apart (prev, cur, php, chp, s)"
  shows "\<exists>s'. atReading (prev, cur, php, chp, s) = Inr s' \<and> (prev = listHead s' \<or> Hazard prev (rcl s'))
    \<and> (cur = 0 \<or> Hazard cur (rcl s'))"
proof -
  have cell: "Hazard (own r (nat i)) r" if "rc_wf r" "hp_ok i r" "i \<noteq> HP_INDEX_NULL" for i r
    using that hp_index [OF that(2,3)] by (force simp: Hazard_def own_def rc_wf_def)
  obtain r1 r chp' where p: "UnMarkHazard chp (rcl s) = Inr r1" "MarkHazard cur r1 = (chp', r)" "rc_wf r" "hp_ok php r"
      "hp_ok chp' r" "php \<noteq> HP_INDEX_NULL \<Longrightarrow> chp' \<noteq> php \<and> own r (nat php) = own (rcl s) (nat php)"
      "cur \<noteq> 0 \<Longrightarrow> chp' \<noteq> HP_INDEX_NULL \<and> own r (nat chp') = cur"
    using prepared [OF assms] by metis
  have "prev = listHead s \<or> Hazard prev r" using assms p(6) cell [OF p(3,4)] by (auto simp: apart_def)
  moreover have "cur = 0 \<or> Hazard cur r" using p(7) cell [OF p(3,5)] by auto
  ultimately show ?thesis using p(1,2) by (simp add: atReading_def markCur_def unMark_def)
qed

section \<open>Turns keep them apart\<close>

lemma interfered_apart:
  assumes "apart (prev, cur, php, chp, s)" and "othersDo s s'"
  shows "apart (prev, cur, php, chp, s')"
  using assms hp_index [of php "rcl s"] by (auto simp: apart_def othersDo_def hp_ok_def)

lemma seqR_OnDeleteNode_same:
  "seqR OnDeleteNode del s = Inr s' \<Longrightarrow> rcl s' = rcl s \<and> listHead s' = listHead s"
  by (induction del arbitrary: s) (auto simp: OnDeleteNode_def bindR_eq_Inr)

lemma reclaim_same_marks:
  assumes "rc_wf (rcl s)" and "reclaim c s = Inr s'"
  shows "rc_wf (rcl s')" and "hps (rcl s') = hps (rcl s)" and "hp_list (rcl s') = hp_list (rcl s)" and "listHead s' = listHead s"
proof -
  obtain del r where dr: "ReclaimNoHazardPointer (ReclaimLater c (rcl s)) = (del, r)" by force
  note l = ReclaimLater_facts [OF assms(1), of c]
  note f = ReclaimNoHazardPointer_facts [OF l(1) dr]
  have "rcl s' = r \<and> listHead s' = listHead s"
    using assms(2) dr seqR_OnDeleteNode_same [of del "s\<lparr>rcl := r\<rparr>" s'] by (simp add: reclaim_def)
  then show "rc_wf (rcl s')" "hps (rcl s') = hps (rcl s)" "hp_list (rcl s') = hp_list (rcl s)" "listHead s' = listHead s"
    using f(1-3) l(3,4) by simp_all
qed

text \<open>The three ways to go around: from the head again, behind an unlinked node, or on to the next node.\<close>

lemma orFault_NextE:
  assumes "orFault x k = Some (Next st)"
  obtains y where "x = Inr y" and "k y = Some (Next st)"
  using assms by (cases x) simp_all

lemma try_again_NextE:
  assumes "try_again php chp s = Some (Next st)"
  obtains q where "st = (listHead s, q, php, chp, s)"
  using assms by (auto simp: try_again_def elim!: orFault_NextE)

lemma cas_cases:
  "compare_exchange_strong p x y s = Inr (ok, s2) \<Longrightarrow> rcl s2 = rcl s \<and> listHead s2 = listHead s \<and> (\<not> ok \<longrightarrow> s2 = s)"
  by (auto simp: compare_exchange_strong_def bindR_eq_Inr split: if_splits)

lemma turn_cases:
  assumes turn: "searchTurn d (prev, cur, php, chp, s0) = Some (Next st)"
    and r: "UnMarkHazard chp (rcl s0) = Inr r1" "MarkHazard cur r1 = (chp', r)"
    and again: "\<And>q. P (listHead s0, q, php, chp', s0\<lparr>rcl := r\<rparr>)"
    and onwards: "\<And>n. cur \<noteq> 0 \<Longrightarrow> P (cur, n, chp', php, s0\<lparr>rcl := r\<rparr>)"
    and unlinked: "\<And>x s2 s3 n. rcl s2 = r \<Longrightarrow> listHead s2 = listHead s0 \<Longrightarrow> reclaim cur s2 = Inr s3 \<Longrightarrow>
      P (prev, x, php, chp', s3\<lparr>listSize := n\<rparr>)"
  shows "P st"
proof -
  have u: "markCur cur chp s0 = Inr (chp', s0\<lparr>rcl := r\<rparr>)" using r by (simp add: markCur_def unMark_def)
  have c: "rcl s2 = r \<and> listHead s2 = listHead s0 \<and> (\<not> ok \<longrightarrow> s2 = s0\<lparr>rcl := r\<rparr>)"
    if "compare_exchange_strong prev cur x (s0\<lparr>rcl := r\<rparr>) = Inr (ok, s2)" for x ok s2
    using cas_cases [OF that] by simp
  have again': "P (listHead s2, q, php, chp', s2)"
    if "compare_exchange_strong prev cur x (s0\<lparr>rcl := r\<rparr>) = Inr (False, s2)" for x q s2
    using c [OF that] again by simp
  have unlinked': "P (prev, x, php, chp', s3\<lparr>listSize := n\<rparr>)"
    if "compare_exchange_strong prev cur y (s0\<lparr>rcl := r\<rparr>) = Inr (True, s2)" "reclaim cur s2 = Inr s3" for x y s2 s3 n
    by (rule unlinked [OF _ _ that(2)]) (use c [OF that(1)] in simp_all)
  show ?thesis
    using turn unfolding searchTurn_def prod.case u orFault_simps
    by (auto simp: Let_def split: if_splits prod.splits option.splits elim!: orFault_NextE try_again_NextE)
       (rule again again' onwards unlinked'; assumption)+
qed

lemma turn_apart:
  assumes ap: "apart (prev, cur, php, chp, s)" and turn: "searchTurn d (prev, cur, php, chp, s) = Some (Next st)"
  shows "apart st"
proof -
  obtain r1 r chp' where r: "UnMarkHazard chp (rcl s) = Inr r1" "MarkHazard cur r1 = (chp', r)" "rc_wf r" "hp_ok php r"
      "hp_ok chp' r" and php: "php \<noteq> HP_INDEX_NULL \<Longrightarrow> chp' \<noteq> php \<and> own r (nat php) = own (rcl s) (nat php)"
      and cur: "cur = 0 \<Longrightarrow> chp' = HP_INDEX_NULL" "cur \<noteq> 0 \<Longrightarrow> chp' \<noteq> HP_INDEX_NULL \<and> own r (nat chp') = cur"
    using prepared [OF ap] by metis
  have s: "php \<noteq> HP_INDEX_NULL \<Longrightarrow> own (rcl s) (nat php) \<noteq> 0"
      "prev = listHead s \<or> php \<noteq> HP_INDEX_NULL \<and> own (rcl s) (nat php) = prev"
    using ap by (auto simp: apart_def)
  show ?thesis
  proof (rule turn_cases [OF turn r(1,2)])
    show "apart (listHead s, q, php, chp', s\<lparr>rcl := r\<rparr>)" for q using r php s by (auto simp: apart_def)
    show "apart (cur, n, chp', php, s\<lparr>rcl := r\<rparr>)" if "cur \<noteq> 0" for n
      using r php cur(2) [OF that] that by (auto simp: apart_def)
    show "apart (prev, x, php, chp', s3\<lparr>listSize := n\<rparr>)"
      if "rcl s2 = r" "listHead s2 = listHead s" "reclaim cur s2 = Inr s3" for x s2 s3 n
    proof -
      note m = reclaim_same_marks [OF _ that(3)]
      have "own (rcl s3) = own r" using m that(1) r(3) by (simp add: own_def fun_eq_iff)
      then show ?thesis using r php s m that(1,2) by (auto simp: apart_def hp_ok_def)
    qed
  qed
qed

lemma walks_apart: "walks d st st' \<Longrightarrow> apart st \<Longrightarrow> apart st'"
proof (induction rule: walks.induct)
  case (turn st1 st2)
  then show ?case by (cases st1) (auto intro: turn_apart)
qed (auto intro: interfered_apart)

section \<open>Properties\<close>

text \<open>
  C11. A search protects what it reads: in every turn of a search that an operation begins with new hazard
  pointer objects, whatever other threads do to the list between the turns, both nodes whose links are
  read are marked as hazard by this thread when they are read, unless they are the head node, which is
  never freed, or the null pointer.
\<close>

theorem search_marks_what_it_reads:
  assumes "rc_wf (rcl s)" and "walks d (listHead s, first, HP_INDEX_NULL, HP_INDEX_NULL, s) (prev, cur, php, chp, s1)"
  shows "\<exists>s2. atReading (prev, cur, php, chp, s1) = Inr s2 \<and> (prev = listHead s2 \<or> Hazard prev (rcl s2))
    \<and> (cur = 0 \<or> Hazard cur (rcl s2))"
proof (rule reading_guarded)
  have "apart (listHead s, first, HP_INDEX_NULL, HP_INDEX_NULL, s)" using assms(1) by (simp add: apart_def hp_ok_def)
  then show "apart (prev, cur, php, chp, s1)" by (rule walks_apart [OF assms(2)])
qed

text \<open>The cells of the hazard pointers after one of them was written.\<close>

lemma Hazard_storeHp: "Hazard p (storeHp k q r) \<Longrightarrow> Hazard p r \<or> p = q"
  using set_update_subset_insert [of "hps r" k "(hps r ! k)\<lparr>hptr := q\<rparr>"] by (auto simp: Hazard_def storeHp_def)

lemma storeHp_twice: "storeHp k q (storeHp k p r) = storeHp k q r"
  by (cases "k < length (hps r)") (simp_all add: storeHp_def list_update_beyond)

lemma Hazard_acquire: "Hazard p (TryAcquireHazardPointer r) \<Longrightarrow> Hazard p r \<or> p = 0"
proof (cases "find (\<lambda>k. \<not> hflag (hps r ! k)) (rev [0..<length (hps r)])")
  case (Some k)
  then have "k < length (hps r)" by (auto simp: find_Some_iff rev_nth)
  then have "hptr (hps r ! k) \<in> hptr ` set (hps r)" by simp
  then show "Hazard p (TryAcquireHazardPointer r) \<Longrightarrow> Hazard p r \<or> p = 0"
    using set_update_subset_insert [of "hps r" k "(hps r ! k)\<lparr>hflag := True\<rparr>"] Some
    by (auto simp: Hazard_def TryAcquireHazardPointer_def)
qed (auto simp: Hazard_def TryAcquireHazardPointer_def)

lemma Hazard_MarkHazard: "Hazard p (snd (MarkHazard q r)) \<Longrightarrow> p \<noteq> 0 \<Longrightarrow> Hazard p r \<or> p = q"
  by (auto simp: MarkHazard_def Let_def split: if_splits option.splits dest!: Hazard_storeHp Hazard_acquire)

lemma MarkHazard_first:
  assumes "hp_list r = k # ks" and "hptr (hps r ! k) = 0" and "p \<noteq> 0"
  shows "MarkHazard p r = (0, storeHp k p r)"
proof -
  have "[0..<length (hp_list r)] = 0 # [1..<length (hp_list r)]" using assms(1) by (simp add: upt_conv_Cons del: upt_Suc)
  then show ?thesis using assms by (simp add: MarkHazard_def)
qed

text \<open>Both objects of \<open>Delete\<close> have taken their marks back, and nobody else has \<open>a\<close> marked.\<close>

lemma deleteUnmark_facts:
  assumes wf: "rc_wf (rcl s)" and hp: "hp_list (rcl s) = k # ks" and chp: "hp_ok chp (rcl s)" and a: "a \<noteq> 0"
    and others: "\<forall>i < length (hps (rcl s)). hptr (hps (rcl s) ! i) = a \<longrightarrow>
      i = k \<or> chp \<noteq> HP_INDEX_NULL \<and> i = hp_list (rcl s) ! nat chp"
  obtains r where "deleteUnmark 0 chp s = Inr (0, chp, s\<lparr>rcl := r\<rparr>)" and "UnMarkHazard chp r = Inr r"
    and "hp_list r = k # ks" and "hptr (hps r ! k) = 0" and "\<not> Hazard a r" and "k < length (hps r)"
proof -
  let ?q = "storeHp k 0 (rcl s)" and ?c = "hp_list (rcl s) ! nat chp"
  let ?r = "if chp = HP_INDEX_NULL then ?q else storeHp ?c 0 ?q"
  have kr: "k < length (hps (rcl s))" using wf hp by (simp add: rc_wf_def)
  have cr: "0 \<le> chp" "nat chp < length (hp_list (rcl s))" "?c < length (hps (rcl s))" if "chp \<noteq> HP_INDEX_NULL"
    using hp_index [OF chp that] wf unfolding rc_wf_def by (blast, blast, metis nth_mem)
  have u0: "UnMarkHazard 0 (rcl s) = Inr ?q" using hp by (simp add: UnMarkHazard_def HP_INDEX_NULL_def)
  have "chp < int (length (hp_list (rcl s)))" if "chp \<noteq> HP_INDEX_NULL" using cr(1,2) [OF that] by linarith
  then have u1: "UnMarkHazard chp ?q = Inr ?r" "UnMarkHazard chp ?r = Inr ?r"
    using cr by (auto simp: UnMarkHazard_def storeHp_def)
  show thesis
  proof (rule that)
    show "deleteUnmark 0 chp s = Inr (0, chp, s\<lparr>rcl := ?r\<rparr>)" using u0 u1(1) by (simp add: deleteUnmark_def unMark_def)
    show "UnMarkHazard chp ?r = Inr ?r" by (rule u1(2))
    show "hp_list ?r = k # ks" "k < length (hps ?r)" using hp kr by (simp_all add: storeHp_def)
    show "hptr (hps ?r ! k) = 0" using kr cr(3) by (auto simp: storeHp_def nth_list_update)
    show "\<not> Hazard a ?r"
    proof
      assume "Hazard a ?r"
      then obtain i where i: "i < length (hps ?r)" "hptr (hps ?r ! i) = a" by (auto simp: Hazard_def in_set_conv_nth)
      then have "i < length (hps (rcl s))" by (simp add: storeHp_def split: if_splits)
      then show False using i(2) others a kr cr(3) by (auto simp: storeHp_def nth_list_update split: if_splits)
    qed
  qed
qed

text \<open>
  C12. The search that \<open>Delete\<close> makes after it failed to unlink its node does not protect what it reads. Let
  the compare-exchange on the link of the predecessor have failed, the predecessor's object have the index
  0 (the one a thread gets first) and the list begin with a node \<open>a\<close> before the key. Then the objects take
  their marks back and keep their indices; the new mark of \<open>a\<close> gets the index 0 too, and after the first
  turn both objects have it. So the second turn takes back the mark of \<open>a\<close> before it reads the link of \<open>a\<close>:
  if no other thread has marked \<open>a\<close>, nothing keeps a thread that deletes \<open>a\<close> from freeing it. In the witness
  two threads get there from an empty list.
\<close>

theorem cleanup_search_drops_its_mark:
  assumes "rc_wf (rcl s)" and "hp_list (rcl s) = k # ks" and "hp_ok chp (rcl s)"
    and "compare_exchange_strong prev cur next s = Inr (False, s)"
    and "heap s (listHead s) = Some h" and "nnext h = a" and "a \<noteq> 0"
    and "heap s a = Some n" and "ndata n = Some d" and "Less d dat" and "\<not> is_marked_reference LONG_BIT (nnext n)" and "nnext n \<noteq> a"
    and "\<forall>i < length (hps (rcl s)). hptr (hps (rcl s) ! i) = a \<longrightarrow> i = k \<or> chp \<noteq> HP_INDEX_NULL \<and> i = hp_list (rcl s) ! nat chp"
  shows "\<exists>s2 s3 i s4. deleteUnmark 0 chp s = Inr (0, chp, s2)
    \<and> deleteUnlink dat (prev, cur, next) 0 chp s =
        map_option (\<lambda>r. bindR r (\<lambda>(found, p, c, php', chp', s3). bindR (release php' chp' s3) (\<lambda>s4. Inr (True, s4))))
          (Search dat 0 chp s2)
    \<and> loadNext (listHead s2) s2 = Inr a
    \<and> searchTurn dat (listHead s2, a, 0, chp, s2) = Some (Next (a, nnext n, 0, 0, s3)) \<and> Hazard a (rcl s3)
    \<and> markCur (nnext n) 0 s3 = Inr (i, s4) \<and> \<not> Hazard a (rcl s4)"
proof -
  obtain r where r: "deleteUnmark 0 chp s = Inr (0, chp, s\<lparr>rcl := r\<rparr>)" "UnMarkHazard chp r = Inr r" "hp_list r = k # ks"
      "hptr (hps r ! k) = 0" "\<not> Hazard a r" "k < length (hps r)"
    using deleteUnmark_facts [OF assms(1-3,7,13)] by metis
  let ?s3 = "s\<lparr>rcl := storeHp k a r\<rparr>" and ?r4 = "snd (MarkHazard (nnext n) (storeHp k 0 r))"
  have m: "markCur a chp (s\<lparr>rcl := r\<rparr>) = Inr (0, ?s3)"
    using r(2) MarkHazard_first [OF r(3,4) assms(7)] by (simp add: markCur_def unMark_def)
  have "searchTurn dat (listHead s, a, 0, chp, s\<lparr>rcl := r\<rparr>) = Some (Next (a, nnext n, 0, 0, ?s3))"
    using m assms(5-11) by (simp add: searchTurn_def loadNext_def getNode_def GreaterOrEquals_def)
  moreover have "Hazard a (storeHp k a r)" 
    using r(6) set_update_memI [of k "hps r" "(hps r ! k)\<lparr>hptr := a\<rparr>"] by (force simp: Hazard_def storeHp_def)
  moreover have "UnMarkHazard 0 (storeHp k a r) = Inr (storeHp k 0 r)"
    using r(3) storeHp_twice [of k 0 a r] by (simp add: UnMarkHazard_def HP_INDEX_NULL_def storeHp_def)
  then have "markCur (nnext n) 0 ?s3 = Inr (fst (MarkHazard (nnext n) (storeHp k 0 r)), s\<lparr>rcl := ?r4\<rparr>)"
    by (simp add: markCur_def unMark_def split: prod.split)
  moreover have "\<not> Hazard a ?r4" using Hazard_MarkHazard [of a] Hazard_storeHp [of a k 0 r] assms(7,12) r(5) by auto
  ultimately show ?thesis using r(1) assms(4-6)
    by (intro exI [of _ "s\<lparr>rcl := r\<rparr>"] exI [of _ ?s3] exI [of _ "fst (MarkHazard (nnext n) (storeHp k 0 r))"]
        exI [of _ "s\<lparr>rcl := ?r4\<rparr>"]) (simp add: deleteUnlink_def loadNext_def getNode_def)
qed

section \<open>How two threads get there\<close>

text \<open>
  Thread 1 puts the keys 1 and 5 into an empty list and deletes 5; when it has set the deletion mark, thread
  2 inserts the key 3, for which it unlinks the marked node. Thread 1 then fails to unlink it.
\<close>

definition raceKey :: UserSessionKey where
  "raceKey = UserSessionKey 5 50"

definition cell :: "u64 \<Rightarrow> internal_hazard_pointer" where
  "cell p = \<lparr>hflag = True, hptr = p\<rparr>"

text \<open>The nodes by address with data and link, the counter, the cells, and the cells of thread 1.\<close>

definition raceState :: "(u64 \<times> UserSessionKey option \<times> u64) list \<Rightarrow> u64 \<Rightarrow> u64 list \<Rightarrow> nat list \<Rightarrow> lf_list" where
  "raceState hs m cs ks = \<lparr>heap = map_of (map (\<lambda>(a, d, x). (a, \<lparr>ndata = d, nnext = x\<rparr>)) hs), listHead = 16, listSize = m,
     rcl = \<lparr>hps = map cell cs, gsize = length cs - 1, hp_list = ks, reclaim_map = [], reclaim_pool = [\<lparr>rn_ptr = 0\<rparr>]\<rparr>\<rparr>"

definition race1 :: lf_list where
  "race1 = (newLockFreeLinkedList 16 (newReclaimer newHazardPointerList))
     \<lparr>heap := [16 \<mapsto> \<lparr>ndata = None, nnext = 32\<rparr>, 32 \<mapsto> \<lparr>ndata = Some (UserSessionKey 1 10), nnext = 0\<rparr>], listSize := 1\<rparr>"

definition race2 :: lf_list where
  "race2 = raceState [(16, None, 32), (32, Some (UserSessionKey 1 10), 64), (64, Some raceKey, 0)] 2 [0] [0]"

definition race3 :: lf_list where
  "race3 = raceState [(16, None, 32), (32, Some (UserSessionKey 1 10), 64), (64, Some raceKey, 1)] 2 [32, 64] [0, 1]"

definition race4 :: lf_list where
  "race4 = raceState [(16, None, 32), (32, Some (UserSessionKey 1 10), 48), (64, Some raceKey, 1),
     (48, Some (UserSessionKey 3 30), 0)] 2 [32, 64, 0, 0] [0, 1]"

text \<open>Another thread has a reclaimer of its own over the shared cells; then the first one goes on with its own.\<close>

definition handOver :: "lf_list \<Rightarrow> lf_list" where
  "handOver s = s\<lparr>rcl := newReclaimer (hps (rcl s), gsize (rcl s))\<rparr>"

definition handBack :: "reclaim_state \<Rightarrow> lf_list \<Rightarrow> lf_list" where
  "handBack r s = s\<lparr>rcl := r\<lparr>hps := hps (rcl s), gsize := gsize (rcl s)\<rparr>\<rparr>"

lemmas race_defs = Insert_def Emplace_def emplaceTurn_def Search_def SearchReset_def searchTurn_def markCur_def unMark_def
  loadNext_def storeNext_def getNode_def compare_exchange_weak_def compare_exchange_strong_def release_def
  UnMarkHazard_def HP_INDEX_NULL_def MarkHazard_def TryAcquireHazardPointer_def storeHp_def key_order raceKey_def
  is_marked_reference_def get_marked_reference_def get_unmarked_reference_def LONG_BIT_def
  newLockFreeLinkedList_def newReclaimer_def newHazardPointerList_def raceState_def cell_def fun_eq_iff

lemma loop_eval: "loop f x = (case f x of None \<Rightarrow> None | Some (Done r) \<Rightarrow> Some r | Some (Next l) \<Rightarrow> loop f l)"
  by (subst loop.simps) (auto split: option.splits)

lemma race_inserts:
  "Insert 32 0 (UserSessionKey 1 10) (newLockFreeLinkedList 16 (newReclaimer newHazardPointerList)) = Some (Inr (True, race1))"
  "Insert 64 0 raceKey race1 = Some (Inr (True, race2))"
  by (simp_all add: race_defs loop_eval race1_def race2_def)

lemma race_delete: "loop (deleteTurn raceKey) (0, HP_INDEX_NULL, HP_INDEX_NULL, race2) = Some (Inr (Some (32, 64, 0), 0, 1, race3))"
  by (simp add: race_defs deleteTurn_def loop_eval race2_def race3_def)

lemma race_other: "\<exists>s. Insert 48 0 (UserSessionKey 3 30) (handOver race3) = Some (Inr (True, s)) \<and> handBack (rcl race3) s = race4"
  by (simp add: race_defs loop_eval race3_def race4_def handOver_def handBack_def reclaim_def ReclaimLater_def
      ReclaimNoHazardPointer_def kCoefficient_def)

lemma race_reads:
  "compare_exchange_strong 32 64 0 race4 = Inr (False, race4)"
  "heap race4 (listHead race4) = Some \<lparr>ndata = None, nnext = 32\<rparr>"
  "heap race4 32 = Some \<lparr>ndata = Some (UserSessionKey 1 10), nnext = 48\<rparr>"
  "rc_wf (rcl race4)" "hp_list (rcl race4) = [0, 1]" "hps (rcl race4) = map cell [32, 64, 0, 0]"
  by (simp_all add: race_defs race4_def rc_wf_def less_Suc_eq all_conj_distrib)

theorem cleanup_search_drops_its_mark_witness:
  "\<exists>s1 s2 s3 s4 s5.
     Insert 32 0 (UserSessionKey 1 10) (newLockFreeLinkedList 16 (newReclaimer newHazardPointerList)) = Some (Inr (True, s1))
   \<and> Insert 64 0 raceKey s1 = Some (Inr (True, s2))
   \<and> loop (deleteTurn raceKey) (0, HP_INDEX_NULL, HP_INDEX_NULL, s2) = Some (Inr (Some (32, 64, 0), 0, 1, s3))
   \<and> Insert 48 0 (UserSessionKey 3 30) (handOver s3) = Some (Inr (True, s4)) \<and> s5 = handBack (rcl s3) s4
   \<and> (\<exists>s6 s7 i s8. deleteUnmark 0 1 s5 = Inr (0, 1, s6) \<and> searchTurn raceKey (16, 32, 0, 1, s6) = Some (Next (32, 48, 0, 0, s7))
        \<and> markCur 48 0 s7 = Inr (i, s8) \<and> \<not> Hazard 32 (rcl s8))"
proof -
  obtain s where s: "Insert 48 0 (UserSessionKey 3 30) (handOver race3) = Some (Inr (True, s))" "handBack (rcl race3) s = race4"
    using race_other by blast
  have head: "listHead s6 = 16" if "deleteUnmark 0 1 race4 = Inr (0, 1, s6)" for s6
    using that by (auto simp: deleteUnmark_def unMark_def bindR_eq_Inr race4_def raceState_def)
  have hyps: "hp_ok 1 (rcl race4)" "Less (UserSessionKey 1 10) raceKey" "\<not> is_marked_reference LONG_BIT (48 :: u64)"
    by (simp_all add: hp_ok_def race_reads(5) key_order raceKey_def is_marked_reference_def LONG_BIT_def)
  have cells: "\<forall>i < length (hps (rcl race4)). hptr (hps (rcl race4) ! i) = 32 \<longrightarrow>
      i = 0 \<or> (1 :: int) \<noteq> HP_INDEX_NULL \<and> i = hp_list (rcl race4) ! nat 1"
    by (simp add: race_reads(5,6) cell_def less_Suc_eq all_conj_distrib HP_INDEX_NULL_def)
  from cleanup_search_drops_its_mark [OF race_reads(4,5) hyps(1) race_reads(1,2) _ _ race_reads(3) _ hyps(2) _ _ cells]
  obtain s6 s7 i s8 where e: "deleteUnmark 0 1 race4 = Inr (0, 1, s6)"
      "searchTurn raceKey (listHead s6, 32, 0, 1, s6) = Some (Next (32, 48, 0, 0, s7))"
      "markCur 48 0 s7 = Inr (i, s8)" "\<not> Hazard 32 (rcl s8)"
    using hyps(3) by auto
  have "\<exists>s6 s7 i s8. deleteUnmark 0 1 race4 = Inr (0, 1, s6) \<and> searchTurn raceKey (16, 32, 0, 1, s6) = Some (Next (32, 48, 0, 0, s7))
      \<and> markCur 48 0 s7 = Inr (i, s8) \<and> \<not> Hazard 32 (rcl s8)"
    by (rule exI [of _ s6], rule exI [of _ s7], rule exI [of _ i], rule exI [of _ s8])
       (intro conjI e(1,3,4) e(2) [unfolded head [OF e(1)]])
  then show ?thesis using race_inserts race_delete s(1) s(2) [symmetric]
    by - (rule exI [of _ race1], rule exI [of _ race2], rule exI [of _ race3], rule exI [of _ s], rule exI [of _ race4],
      intro conjI)
qed

theorem search_marks_what_it_reads_witness:
  "\<exists>s s2. searchTurn raceKey (16, 32, HP_INDEX_NULL, HP_INDEX_NULL, race2) = Some (Next (32, 64, 0, HP_INDEX_NULL, s))
    \<and> atReading (32, 64, 0, HP_INDEX_NULL, s) = Inr s2 \<and> Hazard 32 (rcl s2) \<and> Hazard 64 (rcl s2)"
proof -
  let ?s = "race2\<lparr>rcl := storeHp 0 32 (rcl race2)\<rparr>"
  have wf: "rc_wf (rcl race2)" by (simp add: race_defs race2_def rc_wf_def)
  have t: "searchTurn raceKey (16, 32, HP_INDEX_NULL, HP_INDEX_NULL, race2) = Some (Next (32, 64, 0, HP_INDEX_NULL, ?s))"
    by (simp add: race_defs race2_def)
  have head: "listHead race2 = 16" by (simp add: race2_def raceState_def)
  have "walks raceKey (listHead race2, 32, HP_INDEX_NULL, HP_INDEX_NULL, race2) (32, 64, 0, HP_INDEX_NULL, ?s)"
    unfolding head by (rule walks.turn [OF walks.begun t])
  from search_marks_what_it_reads [OF wf this]
  obtain s2 where s2: "atReading (32, 64, 0, HP_INDEX_NULL, ?s) = Inr s2" "32 = listHead s2 \<or> Hazard 32 (rcl s2)" "Hazard 64 (rcl s2)"
    by auto
  have "listHead s2 = 16"
    using s2(1) head by (auto simp: atReading_def markCur_def unMark_def bindR_eq_Inr split_beta Let_def)
  with s2 t show ?thesis by auto
qed

end
