(* ===== verification/List_Threads.thy ===== *)
theory List_Threads
  imports Lockfree_Correct
begin

text \<open>
  The lock-free list between threads: the operations of \<open>src/include/net/container/lockfreeLinkedlist.h\<close>
  as the steps of any number of threads that interleave at every access to a link and to the counter.

  The relation \<open>list_step\<close> has one rule per atomic access of the code; \<open>list_pc\<close> are the places between
  them, with the local variables that are still needed. Calls and returns are events. The specification is
  a map from users to sessions whose operations take effect at one instant between call and return; every
  run of the list is a run of it, with the same events.

  Nodes that were unlinked are handed to the reclaimer and keep their address here: that no node is freed,
  and its address used again, while a thread holds it is what \<open>Hazard_Threads\<close> shows of hazard pointers.
  In the same way the node that \<open>Emplace\<close> deletes when its key is there already keeps its address.
\<close>

section \<open>Specification\<close>

datatype table_op = Op_Insert UserSessionKey | Op_Delete UserSessionKey | Op_Find UserSessionKey

datatype table_ret = Ret_bool bool | Ret_found "UserSessionKey option"

datatype table_event = Invoke nat table_op | Respond nat table_ret

text \<open>
  A call that has not taken effect collects what it could have seen so far of its key; \<open>A_Took\<close> is one
  that has.
\<close>

datatype table_call = A_Idle | A_Call table_op "u64 option set" | A_Took

record table_spec =
  members :: "u64 \<rightharpoonup> u64"
  calls :: "nat \<Rightarrow> table_call"

primrec opData :: "table_op \<Rightarrow> UserSessionKey" where
  "opData (Op_Insert d) = d"
| "opData (Op_Delete d) = d"
| "opData (Op_Find d) = d"

text \<open>The answer of an operation that leaves the map alone, when it sees \<open>v\<close> under its key.\<close>

fun answers :: "table_op \<Rightarrow> u64 option \<Rightarrow> table_ret \<Rightarrow> bool" where
  "answers (Op_Insert d) v r \<longleftrightarrow> v \<noteq> None \<and> r = Ret_bool False"
| "answers (Op_Delete d) v r \<longleftrightarrow> v = None \<and> r = Ret_bool False"
| "answers (Op_Find d) v r \<longleftrightarrow> r = Ret_found (map_option (UserSessionKey (userKey d)) v)"

definition setCall :: "nat \<Rightarrow> table_call \<Rightarrow> table_spec \<Rightarrow> table_spec" where
  "setCall t c a = a\<lparr>calls := (calls a)(t := c)\<rparr>"

inductive spec_step :: "nat \<Rightarrow> table_spec \<Rightarrow> table_event option \<Rightarrow> table_spec \<Rightarrow> bool" for t where
  spec_call: "calls a t = A_Idle \<Longrightarrow> spec_step t a (Some (Invoke t op)) (setCall t (A_Call op {}) a)"
| spec_look: "calls a t = A_Call op seen \<Longrightarrow>
     spec_step t a None (setCall t (A_Call op (insert (members a (userKey (opData op))) seen)) a)"
| spec_insert: "calls a t = A_Call (Op_Insert d) seen \<Longrightarrow> members a (userKey d) = None \<Longrightarrow>
     spec_step t a None (setCall t A_Took (a\<lparr>members := (members a)(userKey d \<mapsto> sessionKey d)\<rparr>))"
| spec_delete: "calls a t = A_Call (Op_Delete d) seen \<Longrightarrow> members a (userKey d) \<noteq> None \<Longrightarrow>
     spec_step t a None (setCall t A_Took (a\<lparr>members := (members a)(userKey d := None)\<rparr>))"
| spec_answer: "calls a t = A_Call op seen \<Longrightarrow> v \<in> seen \<Longrightarrow> answers op v r \<Longrightarrow>
     spec_step t a (Some (Respond t r)) (setCall t A_Idle a)"
| spec_true: "calls a t = A_Took \<Longrightarrow> spec_step t a (Some (Respond t (Ret_bool True))) (setCall t A_Idle a)"

definition spec_start :: table_spec where
  "spec_start = \<lparr>members = Map.empty, calls = (\<lambda>t. A_Idle)\<rparr>"

inductive spec_run :: "table_event list \<Rightarrow> table_spec \<Rightarrow> bool" where
  spec_begin: "spec_run [] spec_start"
| spec_next: "spec_run es a \<Longrightarrow> spec_step t a e a' \<Longrightarrow> spec_run (es @ (case e of None \<Rightarrow> [] | Some x \<Rightarrow> [x])) a'"

section \<open>The list\<close>

text \<open>
  The caller of \<open>Search\<close>: \<open>Emplace\<close> with its new node, \<open>Delete\<close>, the two \<open>Find\<close>s, and \<open>Delete\<close> again after
  it failed to unlink the node (whose address the code has no use for any more; it is kept for the proofs).
\<close>

datatype search_call = C_Emplace UserSessionKey u64 | C_Delete UserSessionKey | C_Find UserSessionKey | C_Clean UserSessionKey u64

primrec callData :: "search_call \<Rightarrow> UserSessionKey" where
  "callData (C_Emplace d a) = d"
| "callData (C_Delete d) = d"
| "callData (C_Find d) = d"
| "callData (C_Clean d a) = d"

datatype list_pc =
    L_Idle
  | L_Start search_call
  | L_Mark search_call u64 u64
  | L_Next search_call u64 u64
  | L_Help search_call u64 u64 u64
  | L_Sub search_call u64 u64
  | L_Check search_call u64 u64 u64
  | L_Store UserSessionKey u64 u64 u64
  | L_Link UserSessionKey u64 u64 u64
  | L_Add
  | L_Load UserSessionKey u64 u64
  | L_Tag UserSessionKey u64 u64 u64
  | L_Unlink UserSessionKey u64 u64 u64
  | L_SubDone
  | L_Return table_ret

record list_state =
  nodes :: "u64 \<rightharpoonup> node"
  headAddr :: u64
  counter :: u64
  handed :: "u64 list"
  lpc :: "nat \<Rightarrow> list_pc"

definition nextOf :: "list_state \<Rightarrow> u64 \<Rightarrow> u64" where
  "nextOf s p = nnext (the (nodes s p))"

definition dataOf :: "list_state \<Rightarrow> u64 \<Rightarrow> UserSessionKey" where
  "dataOf s p = the (ndata (the (nodes s p)))"

definition setNext :: "u64 \<Rightarrow> u64 \<Rightarrow> list_state \<Rightarrow> list_state" where
  "setNext p x s = s\<lparr>nodes := (nodes s)(p \<mapsto> (the (nodes s p))\<lparr>nnext := x\<rparr>)\<rparr>"

definition goto :: "nat \<Rightarrow> list_pc \<Rightarrow> list_state \<Rightarrow> list_state" where
  "goto t pc s = s\<lparr>lpc := (lpc s)(t := pc)\<rparr>"

definition hand :: "u64 \<Rightarrow> list_state \<Rightarrow> list_state" where
  "hand p s = s\<lparr>handed := handed s @ [p]\<rparr>"

text \<open>Where \<open>Search\<close> returns to, with the predecessor, the node, and the data if they are equal.\<close>

fun searched :: "search_call \<Rightarrow> u64 \<Rightarrow> u64 \<Rightarrow> UserSessionKey option \<Rightarrow> list_pc" where
  "searched (C_Emplace d a) prev cur None = L_Store d a prev cur"
| "searched (C_Emplace d a) prev cur (Some x) = L_Return (Ret_bool False)"
| "searched (C_Delete d) prev cur None = L_Return (Ret_bool False)"
| "searched (C_Delete d) prev cur (Some x) = L_Load d prev cur"
| "searched (C_Find d) prev cur r = L_Return (Ret_found r)"
| "searched (C_Clean d a) prev cur r = L_Return (Ret_bool True)"

inductive list_step :: "nat \<Rightarrow> list_state \<Rightarrow> table_event option \<Rightarrow> list_state \<Rightarrow> bool" for t where
  call_insert: "lpc s t = L_Idle \<Longrightarrow> a \<notin> dom (nodes s) \<Longrightarrow> a \<noteq> 0 \<Longrightarrow> even a \<Longrightarrow>
     list_step t s (Some (Invoke t (Op_Insert d)))
       (goto t (L_Start (C_Emplace d a)) (s\<lparr>nodes := (nodes s)(a \<mapsto> \<lparr>ndata = Some d, nnext = 0\<rparr>)\<rparr>))"
| call_delete: "lpc s t = L_Idle \<Longrightarrow> list_step t s (Some (Invoke t (Op_Delete d))) (goto t (L_Start (C_Delete d)) s)"
| call_find: "lpc s t = L_Idle \<Longrightarrow> list_step t s (Some (Invoke t (Op_Find d))) (goto t (L_Start (C_Find d)) s)"
  \<comment> \<open>\<open>Search\<close>\<close>
| try_again: "lpc s t = L_Start c \<Longrightarrow>
     list_step t s None (goto t (L_Mark c (headAddr s) (nextOf s (headAddr s))) s)"
| mark_retry: "lpc s t = L_Mark c prev cur \<Longrightarrow> nextOf s prev \<noteq> cur \<Longrightarrow> list_step t s None (goto t (L_Start c) s)"
| mark_end: "lpc s t = L_Mark c prev 0 \<Longrightarrow> nextOf s prev = 0 \<Longrightarrow> list_step t s None (goto t (searched c prev 0 None) s)"
| mark_next: "lpc s t = L_Mark c prev cur \<Longrightarrow> nextOf s prev = cur \<Longrightarrow> cur \<noteq> 0 \<Longrightarrow>
     list_step t s None (goto t (L_Next c prev cur) s)"
| next_marked: "lpc s t = L_Next c prev cur \<Longrightarrow> is_marked_reference LONG_BIT (nextOf s cur) \<Longrightarrow>
     list_step t s None (goto t (L_Help c prev cur (nextOf s cur)) s)"
| next_plain: "lpc s t = L_Next c prev cur \<Longrightarrow> \<not> is_marked_reference LONG_BIT (nextOf s cur) \<Longrightarrow>
     list_step t s None (goto t (L_Check c prev cur (nextOf s cur)) s)"
| help_ok: "lpc s t = L_Help c prev cur nxt \<Longrightarrow> nextOf s prev = cur \<Longrightarrow>
     list_step t s None (goto t (L_Sub c prev (get_unmarked_reference LONG_BIT nxt))
       (hand cur (setNext prev (get_unmarked_reference LONG_BIT nxt) s)))"
| help_retry: "lpc s t = L_Help c prev cur nxt \<Longrightarrow> nextOf s prev \<noteq> cur \<Longrightarrow> list_step t s None (goto t (L_Start c) s)"
| sub: "lpc s t = L_Sub c prev cur \<Longrightarrow>
     list_step t s None (goto t (L_Mark c prev cur) (s\<lparr>counter := counter s - 1\<rparr>))"
| check_retry: "lpc s t = L_Check c prev cur nxt \<Longrightarrow> nextOf s prev \<noteq> cur \<Longrightarrow> list_step t s None (goto t (L_Start c) s)"
| check_done: "lpc s t = L_Check c prev cur nxt \<Longrightarrow> nextOf s prev = cur \<Longrightarrow> GreaterOrEquals (dataOf s cur) (callData c) \<Longrightarrow>
     list_step t s None (goto t (searched c prev cur
       (if Equals (dataOf s cur) (callData c) then Some (dataOf s cur) else None)) s)"
| check_on: "lpc s t = L_Check c prev cur nxt \<Longrightarrow> nextOf s prev = cur \<Longrightarrow> \<not> GreaterOrEquals (dataOf s cur) (callData c) \<Longrightarrow>
     list_step t s None (goto t (L_Mark c cur nxt) s)"
  \<comment> \<open>\<open>Emplace\<close>; a weak compare-exchange may fail for no reason\<close>
| store: "lpc s t = L_Store d a prev cur \<Longrightarrow> list_step t s None (goto t (L_Link d a prev cur) (setNext a cur s))"
| link_ok: "lpc s t = L_Link d a prev cur \<Longrightarrow> nextOf s prev = cur \<Longrightarrow>
     list_step t s None (goto t L_Add (setNext prev a s))"
| link_retry: "lpc s t = L_Link d a prev cur \<Longrightarrow> list_step t s None (goto t (L_Start (C_Emplace d a)) s)"
| add: "lpc s t = L_Add \<Longrightarrow> list_step t s None (goto t (L_Return (Ret_bool True)) (s\<lparr>counter := counter s + 1\<rparr>))"
  \<comment> \<open>\<open>Delete\<close>\<close>
| load_marked: "lpc s t = L_Load d prev cur \<Longrightarrow> is_marked_reference LONG_BIT (nextOf s cur) \<Longrightarrow>
     list_step t s None (goto t (L_Start (C_Delete d)) s)"
| load_plain: "lpc s t = L_Load d prev cur \<Longrightarrow> \<not> is_marked_reference LONG_BIT (nextOf s cur) \<Longrightarrow>
     list_step t s None (goto t (L_Tag d prev cur (nextOf s cur)) s)"
| tag_ok: "lpc s t = L_Tag d prev cur nxt \<Longrightarrow> nextOf s cur = nxt \<Longrightarrow>
     list_step t s None (goto t (L_Unlink d prev cur nxt) (setNext cur (get_marked_reference LONG_BIT nxt) s))"
| tag_retry: "lpc s t = L_Tag d prev cur nxt \<Longrightarrow> list_step t s None (goto t (L_Start (C_Delete d)) s)"
| unlink_ok: "lpc s t = L_Unlink d prev cur nxt \<Longrightarrow> nextOf s prev = cur \<Longrightarrow>
     list_step t s None (goto t L_SubDone (hand cur (setNext prev nxt s)))"
| unlink_retry: "lpc s t = L_Unlink d prev cur nxt \<Longrightarrow> nextOf s prev \<noteq> cur \<Longrightarrow>
     list_step t s None (goto t (L_Start (C_Clean d cur)) s)"
| sub_done: "lpc s t = L_SubDone \<Longrightarrow>
     list_step t s None (goto t (L_Return (Ret_bool True)) (s\<lparr>counter := counter s - 1\<rparr>))"
| return: "lpc s t = L_Return r \<Longrightarrow> list_step t s (Some (Respond t r)) (goto t L_Idle s)"

definition list_start :: "u64 \<Rightarrow> list_state" where
  "list_start a = \<lparr>nodes = [a \<mapsto> \<lparr>ndata = None, nnext = 0\<rparr>], headAddr = a, counter = 0, handed = [], lpc = (\<lambda>t. L_Idle)\<rparr>"

inductive list_run :: "u64 \<Rightarrow> table_event list \<Rightarrow> list_state \<Rightarrow> bool" for a where
  list_begin: "list_run a [] (list_start a)"
| list_next: "list_run a es s \<Longrightarrow> list_step t s e s' \<Longrightarrow> list_run a (es @ (case e of None \<Rightarrow> [] | Some x \<Rightarrow> [x])) s'"

text \<open>A run that goes on from some state, with the events since then.\<close>

inductive list_steps :: "list_state \<Rightarrow> table_event list \<Rightarrow> list_state \<Rightarrow> bool" for s where
  no_step: "list_steps s [] s"
| more_step: "list_steps s es s1 \<Longrightarrow> list_step t s1 e s2 \<Longrightarrow> list_steps s (es @ (case e of None \<Rightarrow> [] | Some x \<Rightarrow> [x])) s2"

lemma list_run_steps: "list_steps s es' s' \<Longrightarrow> list_run a es s \<Longrightarrow> list_run a (es @ es') s'"
proof (induction rule: list_steps.induct)
  case (more_step es' s1 t e s2)
  then show ?case using list_run.list_next [of a "es @ es'" s1 t e s2] by simp
qed simp

section \<open>The chain of linked nodes\<close>

abbreviation unmark :: "u64 \<Rightarrow> u64" where
  "unmark \<equiv> get_unmarked_reference LONG_BIT"

lemma unmark_even [simp]: "even (unmark p)"
  by (simp add: get_unmarked_reference_def even_and_iff)

lemma unmark_id [simp]: "even p \<Longrightarrow> unmark p = p"
proof -
  assume "even p"
  then have "\<not> bit p 0" by (simp add: bit_0)
  then show ?thesis
    by (intro bit_eqI) (auto intro: gr0I simp: get_unmarked_reference_def LONG_BIT_def bit_simps)
qed

text \<open>The addresses on the way along the links from \<open>p\<close>, whatever their marks.\<close>

fun path :: "(u64 \<rightharpoonup> node) \<Rightarrow> u64 \<Rightarrow> u64 list \<Rightarrow> bool" where
  "path h p [] \<longleftrightarrow> p = 0"
| "path h p (a # xs) \<longleftrightarrow> p = a \<and> a \<noteq> 0 \<and> even a \<and> a \<in> dom h \<and> path h (unmark (nnext (the (h a)))) xs"

definition firstOf :: "u64 list \<Rightarrow> u64" where
  "firstOf xs = (case xs of [] \<Rightarrow> 0 | a # _ \<Rightarrow> a)"

lemma firstOf_simps [simp]: "firstOf [] = 0" "firstOf (a # xs) = a"
  by (simp_all add: firstOf_def)

lemma path_first: "path h p xs \<Longrightarrow> p = firstOf xs"
  by (cases xs) simp_all

lemma path_append: "path h p (xs @ ys) \<Longrightarrow> path h (firstOf ys) ys"
proof (induction xs arbitrary: p)
  case Nil
  then show ?case using path_first by fastforce
qed auto

lemma path_step: "path h p (xs @ a # ys) \<Longrightarrow> unmark (nnext (the (h a))) = firstOf ys"
  using path_append [of h p xs "a # ys"] path_first by fastforce

lemma path_nodes: "path h p xs \<Longrightarrow> a \<in> set xs \<Longrightarrow> a \<in> dom h \<and> a \<noteq> 0 \<and> even a"
  by (induction xs arbitrary: p) auto

lemma path_cong:
  "path h p xs \<Longrightarrow> (\<And>a. a \<in> set xs \<Longrightarrow> a \<in> dom h' \<and> unmark (nnext (the (h' a))) = unmark (nnext (the (h a)))) \<Longrightarrow> path h' p xs"
  by (induction xs arbitrary: p) auto

text \<open>The link of one node is changed: the part before it stays, another part follows.\<close>

lemma path_relink:
  assumes "path h p (xs @ a # ys)" and "a \<notin> set xs" and "path h' (unmark (nnext (the (h' a)))) zs" and "a \<in> dom h'"
    and "\<And>b. b \<in> set xs \<Longrightarrow> h' b = h b"
  shows "path h' p (xs @ a # zs)"
  using assms by (induction xs arbitrary: p) auto

section \<open>The invariant\<close>

definition keyOf :: "list_state \<Rightarrow> u64 \<Rightarrow> u64" where
  "keyOf s a = userKey (dataOf s a)"

definition public :: "list_state \<Rightarrow> u64 list \<Rightarrow> u64 set" where
  "public s xs = insert (headAddr s) (set xs \<union> set (handed s))"

text \<open>The head node, which has no data, comes before every key.\<close>

definition precedes :: "list_state \<Rightarrow> u64 \<Rightarrow> u64 \<Rightarrow> bool" where
  "precedes s a k \<longleftrightarrow> a = headAddr s \<or> keyOf s a < k"

definition chain_ok :: "list_state \<Rightarrow> u64 list \<Rightarrow> bool" where
  "chain_ok s xs \<longleftrightarrow> path (nodes s) (headAddr s) (headAddr s # xs)
     \<and> ndata (the (nodes s (headAddr s))) = None \<and> even (nextOf s (headAddr s))
     \<and> sorted_wrt (\<lambda>a b. precedes s a (keyOf s b)) (headAddr s # xs)
     \<and> (\<forall>a \<in> set xs \<union> set (handed s). a \<in> dom (nodes s) \<and> ndata (the (nodes s a)) \<noteq> None \<and> a \<noteq> 0 \<and> even a)
     \<and> (\<forall>a \<in> set (handed s). odd (nextOf s a))
     \<and> distinct (handed s) \<and> set (handed s) \<inter> set (headAddr s # xs) = {}"

text \<open>The local variables of a thread: the predecessor, and a node or the end.\<close>

definition prev_ok :: "list_state \<Rightarrow> u64 list \<Rightarrow> UserSessionKey \<Rightarrow> u64 \<Rightarrow> bool" where
  "prev_ok s xs d prev \<longleftrightarrow> prev \<in> public s xs \<and> precedes s prev (userKey d)"

definition node_ok :: "list_state \<Rightarrow> u64 list \<Rightarrow> u64 \<Rightarrow> bool" where
  "node_ok s xs cur \<longleftrightarrow> cur \<in> public s xs \<and> cur \<noteq> headAddr s"

definition link_end :: "list_state \<Rightarrow> u64 list \<Rightarrow> u64 \<Rightarrow> bool" where
  "link_end s xs cur \<longleftrightarrow> cur = 0 \<or> node_ok s xs cur"

fun at_ok :: "list_state \<Rightarrow> u64 list \<Rightarrow> list_pc \<Rightarrow> bool" where
  "at_ok s xs (L_Mark c prev cur) \<longleftrightarrow> prev_ok s xs (callData c) prev \<and> link_end s xs cur"
| "at_ok s xs (L_Next c prev cur) \<longleftrightarrow> prev_ok s xs (callData c) prev \<and> node_ok s xs cur"
| "at_ok s xs (L_Help c prev cur nxt) \<longleftrightarrow> prev_ok s xs (callData c) prev \<and> node_ok s xs cur \<and> odd nxt \<and> nextOf s cur = nxt"
| "at_ok s xs (L_Sub c prev cur) \<longleftrightarrow> prev_ok s xs (callData c) prev \<and> link_end s xs cur"
| "at_ok s xs (L_Check c prev cur nxt) \<longleftrightarrow> prev_ok s xs (callData c) prev \<and> node_ok s xs cur \<and> link_end s xs nxt"
| "at_ok s xs (L_Store d a prev cur) \<longleftrightarrow> prev_ok s xs d prev \<and> link_end s xs cur \<and> (cur = 0 \<or> userKey d < keyOf s cur)"
| "at_ok s xs (L_Link d a prev cur) \<longleftrightarrow> prev_ok s xs d prev \<and> link_end s xs cur \<and> (cur = 0 \<or> userKey d < keyOf s cur)"
| "at_ok s xs (L_Load d prev cur) \<longleftrightarrow> prev_ok s xs d prev \<and> node_ok s xs cur \<and> keyOf s cur = userKey d"
| "at_ok s xs (L_Tag d prev cur nxt) \<longleftrightarrow> prev_ok s xs d prev \<and> node_ok s xs cur \<and> keyOf s cur = userKey d \<and> even nxt"
| "at_ok s xs (L_Unlink d prev cur nxt) \<longleftrightarrow> prev_ok s xs d prev \<and> node_ok s xs cur \<and> keyOf s cur = userKey d \<and> even nxt
     \<and> nextOf s cur = get_marked_reference LONG_BIT nxt"
| "at_ok s xs pc \<longleftrightarrow> True"

text \<open>The new node of an \<open>Emplace\<close> that is not linked yet belongs to its thread.\<close>

fun callNode :: "search_call \<Rightarrow> (u64 \<times> UserSessionKey) option" where
  "callNode (C_Emplace d a) = Some (a, d)"
| "callNode c = None"

fun ownNode :: "list_pc \<Rightarrow> (u64 \<times> UserSessionKey) option" where
  "ownNode (L_Start c) = callNode c"
| "ownNode (L_Mark c prev cur) = callNode c"
| "ownNode (L_Next c prev cur) = callNode c"
| "ownNode (L_Help c prev cur nxt) = callNode c"
| "ownNode (L_Sub c prev cur) = callNode c"
| "ownNode (L_Check c prev cur nxt) = callNode c"
| "ownNode (L_Store d a prev cur) = Some (a, d)"
| "ownNode (L_Link d a prev cur) = Some (a, d)"
| "ownNode pc = None"

definition own_ok :: "list_state \<Rightarrow> u64 list \<Rightarrow> bool" where
  "own_ok s xs \<longleftrightarrow>
     (\<forall>t a d. ownNode (lpc s t) = Some (a, d) \<longrightarrow>
        a \<notin> public s xs \<and> a \<noteq> 0 \<and> even a \<and> (\<exists>n. nodes s a = Some \<lparr>ndata = Some d, nnext = n\<rparr>))
   \<and> (\<forall>t u a d e. ownNode (lpc s t) = Some (a, d) \<longrightarrow> ownNode (lpc s u) = Some (a, e) \<longrightarrow> t = u)
   \<and> (\<forall>t d a prev cur. lpc s t = L_Link d a prev cur \<longrightarrow> nextOf s a = cur)"

definition list_ok :: "list_state \<Rightarrow> u64 list \<Rightarrow> bool" where
  "list_ok s xs \<longleftrightarrow> chain_ok s xs \<and> own_ok s xs \<and> (\<forall>t. at_ok s xs (lpc s t))"

subsection \<open>What the invariant says of the chain\<close>

lemma chain_head: "chain_ok s xs \<Longrightarrow> headAddr s \<notin> set xs \<union> set (handed s)"
  unfolding chain_ok_def by blast

lemma sorted_wrt_distinct: "sorted_wrt P xs \<Longrightarrow> (\<And>x. x \<in> set xs \<Longrightarrow> \<not> P x x) \<Longrightarrow> distinct xs"
  by (induction xs) auto

lemma chain_distinct:
  assumes "chain_ok s xs"
  shows "distinct (headAddr s # xs)"
proof -
  have "distinct xs"
  proof (rule sorted_wrt_distinct)
    show "sorted_wrt (\<lambda>a b. precedes s a (keyOf s b)) xs" using assms unfolding chain_ok_def by simp
    show "\<not> precedes s a (keyOf s a)" if "a \<in> set xs" for a using chain_head [OF assms] that by (auto simp: precedes_def)
  qed
  then show ?thesis using chain_head [OF assms] by simp
qed

lemma chain_split:
  assumes ok: "chain_ok s xs" and a: "a \<in> public s xs" and plain: "even (nextOf s a)"
  obtains as bs where "headAddr s # xs = as @ a # bs" and "nextOf s a = firstOf bs"
proof -
  have "a \<in> set (headAddr s # xs)" using a plain ok unfolding chain_ok_def public_def by auto
  then obtain as bs where split: "headAddr s # xs = as @ a # bs" by (meson split_list)
  then have "path (nodes s) (headAddr s) (as @ a # bs)" using ok unfolding chain_ok_def by simp
  then have "nextOf s a = firstOf bs" using path_step plain unfolding nextOf_def by fastforce
  then show ?thesis using split that by blast
qed

lemma chain_link_end:
  assumes ok: "chain_ok s xs" and split: "headAddr s # xs = as @ a # bs"
  shows "link_end s xs (firstOf bs)"
proof (cases bs)
  case (Cons b r)
  then have "b \<in> set xs" using split by (cases as) auto
  moreover have "b \<noteq> headAddr s" using chain_distinct [OF ok] calculation by auto
  ultimately show ?thesis using Cons by (simp add: link_end_def node_ok_def public_def)
qed (simp add: link_end_def)

lemma next_link_end:
  "chain_ok s xs \<Longrightarrow> a \<in> public s xs \<Longrightarrow> even (nextOf s a) \<Longrightarrow> link_end s xs (nextOf s a)"
  by (metis chain_split chain_link_end)

lemma public_node:
  "chain_ok s xs \<Longrightarrow> a \<in> public s xs \<Longrightarrow> a \<in> dom (nodes s)"
  by (auto simp: chain_ok_def public_def)

lemma link_end_even: "chain_ok s xs \<Longrightarrow> link_end s xs a \<Longrightarrow> even a"
  by (auto simp: chain_ok_def link_end_def node_ok_def public_def)

lemma node_ok_even: "chain_ok s xs \<Longrightarrow> node_ok s xs a \<Longrightarrow> even a \<and> a \<noteq> 0"
  by (auto simp: chain_ok_def node_ok_def public_def)

subsection \<open>Stability\<close>

definition evolves :: "list_state \<Rightarrow> u64 list \<Rightarrow> list_state \<Rightarrow> u64 list \<Rightarrow> bool" where
  "evolves s xs s' xs' \<longleftrightarrow> headAddr s' = headAddr s \<and> public s xs \<subseteq> public s' xs'
     \<and> (\<forall>a \<in> public s xs. ndata (the (nodes s' a)) = ndata (the (nodes s a))
          \<and> (odd (nextOf s a) \<longrightarrow> nextOf s' a = nextOf s a))"

lemma evolves_local:
  assumes "evolves s xs s' xs'"
  shows "prev_ok s xs d a \<Longrightarrow> prev_ok s' xs' d a" and "node_ok s xs a \<Longrightarrow> node_ok s' xs' a"
    and "link_end s xs a \<Longrightarrow> link_end s' xs' a" and "a \<in> public s xs \<Longrightarrow> keyOf s' a = keyOf s a"
  using assms
  by (auto simp: evolves_def prev_ok_def node_ok_def link_end_def precedes_def keyOf_def dataOf_def)

lemma at_ok_evolves:
  assumes e: "evolves s xs s' xs'" and at: "at_ok s xs pc"
  shows "at_ok s' xs' pc"
proof -
  note l = evolves_local [OF e]
  have key: "keyOf s' a = keyOf s a" if "link_end s xs a" "a \<noteq> 0" for a
    using that l(4) by (auto simp: link_end_def node_ok_def)
  have odd: "nextOf s' a = nextOf s a" if "node_ok s xs a" "odd (nextOf s a)" for a
    using that e by (auto simp: evolves_def node_ok_def)
  show ?thesis
    using at l key odd by (cases pc) (auto simp: node_ok_def mark_roundtrip link_end_def)
qed

subsection \<open>The table\<close>

definition tableOf :: "list_state \<Rightarrow> u64 list \<Rightarrow> (u64 \<rightharpoonup> u64)" where
  "tableOf s xs = map_of (map (\<lambda>a. (keyOf s a, sessionKey (dataOf s a))) (filter (\<lambda>a. even (nextOf s a)) xs))"

lemma sorted_wrt_inj: "sorted_wrt (\<lambda>a b. f a < (f b :: u64)) xs \<Longrightarrow> distinct (map f xs)"
  by (induction xs) auto

lemma chain_sorted:
  assumes "chain_ok s xs"
  shows "sorted_wrt (\<lambda>a b. keyOf s a < keyOf s b) xs"
proof -
  have "sorted_wrt (\<lambda>a b. precedes s a (keyOf s b)) xs" using assms unfolding chain_ok_def by simp
  then show ?thesis
    by (rule sorted_wrt_mono_rel [rotated]) (use chain_head [OF assms] in \<open>auto simp: precedes_def\<close>)
qed

lemma tableOf_Some:
  assumes "chain_ok s xs"
  shows "tableOf s xs k = Some v \<longleftrightarrow>
    (\<exists>a \<in> set xs. even (nextOf s a) \<and> keyOf s a = k \<and> sessionKey (dataOf s a) = v)"
proof -
  let ?ys = "filter (\<lambda>a. even (nextOf s a)) xs"
  from chain_sorted [OF assms] have "distinct (map (keyOf s) ?ys)" by (intro sorted_wrt_inj sorted_wrt_filter)
  then show ?thesis unfolding tableOf_def by (subst map_of_eq_Some_iff) (auto simp: comp_def)
qed

lemma chain_key_inj:
  assumes ok: "chain_ok s xs" and "a \<in> set xs" "b \<in> set xs" "keyOf s a = keyOf s b"
  shows "a = b"
proof (rule ccontr)
  assume "a \<noteq> b"
  have "sorted_wrt (\<lambda>a b. precedes s a (keyOf s b)) xs" using ok unfolding chain_ok_def by simp
  moreover obtain i j where "i < length xs" "xs ! i = a" "j < length xs" "xs ! j = b" using assms(2,3) by (metis in_set_conv_nth)
  ultimately have "precedes s a (keyOf s b) \<or> precedes s b (keyOf s a)"
    using \<open>a \<noteq> b\<close> by (metis linorder_neqE_nat sorted_wrt_iff_nth_less)
  then show False using chain_head [OF ok] assms by (auto simp: precedes_def)
qed

lemma tableOf_eqI:
  assumes "\<And>k v. m k = Some v \<longleftrightarrow> tableOf s xs k = Some v"
  shows "tableOf s xs = m"
proof
  fix k
  show "tableOf s xs k = m k" using assms [of k] by (metis not_Some_eq)
qed

lemma present:
  assumes "chain_ok s xs" and "node_ok s xs a" and "even (nextOf s a)"
  shows "tableOf s xs (keyOf s a) = Some (sessionKey (dataOf s a))"
  using assms by (subst tableOf_Some) (auto simp: chain_ok_def node_ok_def public_def)

lemma chain_order:
  assumes ok: "chain_ok s xs" and split: "headAddr s # xs = as @ a # bs"
  shows "x \<in> set as \<Longrightarrow> precedes s x (keyOf s a)" and "b \<in> set bs \<Longrightarrow> precedes s a (keyOf s b)"
    and "bs = b # r \<Longrightarrow> c \<in> set bs \<Longrightarrow> keyOf s b \<le> keyOf s c"
proof -
  have s: "sorted_wrt (\<lambda>a b. precedes s a (keyOf s b)) (as @ a # bs)" using ok split unfolding chain_ok_def by metis
  show "x \<in> set as \<Longrightarrow> precedes s x (keyOf s a)" and "b \<in> set bs \<Longrightarrow> precedes s a (keyOf s b)"
    using s by (auto simp: sorted_wrt_append)
  show "keyOf s b \<le> keyOf s c" if "bs = b # r" "c \<in> set bs"
  proof -
    have "b \<noteq> headAddr s" using chain_distinct [OF ok] split that(1) by (cases as) auto
    then show ?thesis using s that by (auto simp: sorted_wrt_append precedes_def)
  qed
qed

lemma absent_all:
  assumes ok: "chain_ok s xs" and prev: "prev_ok s xs d prev" and plain: "even cur" and link: "nextOf s prev = cur"
    and cur: "cur = 0 \<or> userKey d < keyOf s cur"
    and in_chain: "a \<in> set xs"
  shows "keyOf s a \<noteq> userKey d"
proof
  assume "keyOf s a = userKey d"
  with in_chain have a: "a \<in> set xs" "keyOf s a = userKey d" by simp_all
  obtain as bs where split: "headAddr s # xs = as @ prev # bs" and bs: "cur = firstOf bs"
    using chain_split [OF ok, of prev] prev plain link by (auto simp: prev_ok_def)
  note ord = chain_order [OF ok split]
  have head: "a \<noteq> headAddr s" using chain_head [OF ok] a(1) by auto
  have k: "precedes s prev (userKey d)" using prev by (simp add: prev_ok_def)
  have "a \<in> set (as @ prev # bs)" using split a(1) by (metis list.set_intros(2))
  then consider "a \<in> set as" | "a = prev" | "a \<in> set bs" by auto
  then show False
  proof cases
    case 1
    then have "prev \<noteq> headAddr s" using chain_distinct [OF ok] split by (cases as) auto
    then show ?thesis using ord(1) [OF 1] k head a(2) by (auto simp: precedes_def)
  next
    case 2
    then show ?thesis using k head a(2) by (simp add: precedes_def)
  next
    case 3
    then obtain b r where b: "bs = b # r" by (cases bs) auto
    have "b \<in> set (headAddr s # xs)" unfolding split b by simp
    then have "b \<noteq> 0" using path_nodes ok unfolding chain_ok_def by blast
    then show ?thesis using ord(3) [OF b 3] cur bs b a(2) by simp
  qed
qed

lemma absent:
  assumes "chain_ok s xs" and "prev_ok s xs d prev" and "even cur" and "nextOf s prev = cur"
    and "cur = 0 \<or> userKey d < keyOf s cur"
  shows "tableOf s xs (userKey d) = None"
  using absent_all [OF assms] tableOf_Some [OF assms(1), of "userKey d"] by (metis not_Some_eq)

subsection \<open>Changes of links\<close>

lemma state_simps [simp]:
  "nodes (goto t pc s) = nodes s" "headAddr (goto t pc s) = headAddr s" "handed (goto t pc s) = handed s"
  "lpc (goto t pc s) = (lpc s)(t := pc)"
  "nodes (hand a s) = nodes s" "headAddr (hand a s) = headAddr s" "handed (hand a s) = handed s @ [a]" "lpc (hand a s) = lpc s"
  "headAddr (setNext p x s) = headAddr s" "handed (setNext p x s) = handed s" "lpc (setNext p x s) = lpc s"
  "dom (nodes (setNext p x s)) = insert p (dom (nodes s))"
  by (simp_all add: goto_def hand_def setNext_def)

lemma nextOf_simps [simp]:
  "nextOf (goto t pc s) a = nextOf s a" "nextOf (hand b s) a = nextOf s a" "nextOf (s\<lparr>counter := n\<rparr>) a = nextOf s a"
  "nextOf (setNext p x s) a = (if a = p then x else nextOf s a)"
  by (simp_all add: nextOf_def setNext_def)

lemma ndata_setNext [simp]: "ndata (the (nodes (setNext p x s) a)) = ndata (the (nodes s a))"
  by (simp add: setNext_def)

lemma nodes_setNext: "a \<noteq> p \<Longrightarrow> nodes (setNext p x s) a = nodes s a"
  by (simp add: setNext_def)

lemma dataOf_simps [simp]:
  "dataOf (goto t pc s) = dataOf s" "dataOf (hand b s) = dataOf s" "dataOf (s\<lparr>counter := n\<rparr>) = dataOf s"
  "dataOf (setNext p x s) = dataOf s" "keyOf (goto t pc s) = keyOf s" "keyOf (hand b s) = keyOf s"
  "keyOf (s\<lparr>counter := n\<rparr>) = keyOf s" "keyOf (setNext p x s) = keyOf s"
  "precedes (goto t pc s) = precedes s" "precedes (hand b s) = precedes s" "precedes (setNext p x s) = precedes s"
  by (simp_all add: fun_eq_iff dataOf_def keyOf_def precedes_def)

lemma nnext_nextOf: "nnext (the (nodes s a)) = nextOf s a"
  by (simp add: nextOf_def)

lemma path_setNext:
  "a \<notin> set xs \<Longrightarrow> path (nodes (setNext a x s)) p xs = path (nodes s) p xs"
proof (induction xs arbitrary: p)
  case (Cons b xs)
  then show ?case by (auto simp: nnext_nextOf simp flip: domIff)
qed simp

text \<open>A marked node is taken out of the chain.\<close>

lemma unlink_chain:
  assumes ok: "chain_ok s xs" and prev: "prev \<in> public s xs" and cur: "node_ok s xs cur" "odd (nextOf s cur)"
    and link: "nextOf s prev = cur"
  defines "x \<equiv> unmark (nextOf s cur)"
  defines "s' \<equiv> hand cur (setNext prev x s)" and "xs' \<equiv> removeAll cur xs"
  shows "chain_ok s' xs'" and "evolves s xs s' xs'" and "tableOf s' xs' = tableOf s xs" and "link_end s' xs' x"
    and "public s' xs' = public s xs" and "cur \<in> set xs"
proof -
  have even: "even cur" "cur \<noteq> 0" using node_ok_even [OF ok cur(1)] by simp_all
  obtain as bs where split0: "headAddr s # xs = as @ prev # bs" and "cur = firstOf bs"
    using chain_split [OF ok prev] even link by auto
  then obtain r where split: "headAddr s # xs = as @ prev # cur # r" using even by (cases bs) auto
  note dist = chain_distinct [OF ok, unfolded split]
  have head: "headAddr s # xs' = as @ prev # r"
    using arg_cong [OF split, of "removeAll cur"] dist cur(1) by (auto simp: xs'_def node_ok_def split: if_splits)
  have p: "path (nodes s) (headAddr s) (as @ prev # cur # r)" using ok split unfolding chain_ok_def by metis
  have x: "x = firstOf r" using path_step [of "nodes s" "headAddr s" "as @ [prev]" cur r] p unfolding x_def nextOf_def by simp
  have "path (nodes s) x r" using path_append [of "nodes s" "headAddr s" "as @ [prev, cur]" r] p x by simp
  then have "path (nodes (setNext prev x s)) x r" using dist by (simp add: path_setNext)
  then have path: "path (nodes s') (headAddr s') (headAddr s' # xs')"
    unfolding s'_def state_simps head
    by (intro path_relink [OF p]) (use dist in \<open>auto simp: nnext_nextOf x_def intro!: nodes_setNext\<close>)
  have in_chain: "cur \<in> set xs" "cur \<notin> set (handed s)"
    using split ok cur(1) unfolding chain_ok_def node_ok_def by (cases as; auto)+
  show "cur \<in> set xs" by (rule in_chain)
  have next_s': "even (nextOf s' a) = even (nextOf s a)" for a using link even by (simp add: s'_def x_def)
  have sorted: "sorted_wrt (\<lambda>a b. precedes s a (keyOf s b)) (headAddr s # xs')"
    using ok unfolding chain_ok_def xs'_def removeAll_filter_not_eq by (simp add: sorted_wrt_filter)
  have odds: "\<forall>a \<in> set (handed s'). odd (nextOf s' a)"
    using ok cur(2) next_s' unfolding chain_ok_def by (auto simp: s'_def)
  show ok': "chain_ok s' xs'"
    unfolding chain_ok_def
  proof (intro conjI)
    show "distinct (handed s')" using ok in_chain unfolding chain_ok_def by (simp add: s'_def)
    show "set (handed s') \<inter> set (headAddr s' # xs') = {}"
      using ok cur(1) unfolding chain_ok_def node_ok_def by (auto simp: s'_def xs'_def)
    show "\<forall>a \<in> set xs' \<union> set (handed s'). a \<in> dom (nodes s') \<and> ndata (the (nodes s' a)) \<noteq> None \<and> a \<noteq> 0 \<and> even a"
      using ok in_chain unfolding chain_ok_def by (auto simp: s'_def xs'_def)
  qed (use ok path sorted odds next_s' in \<open>auto simp: chain_ok_def s'_def\<close>)
  show "public s' xs' = public s xs" using in_chain by (auto simp: public_def s'_def xs'_def)
  then show "evolves s xs s' xs'" using link even by (auto simp: evolves_def s'_def)
  show "link_end s' xs' x"
    using chain_link_end [OF ok', of as prev r] head x by (simp add: s'_def)
  have same: "keyOf s' = keyOf s" "dataOf s' = dataOf s" by (simp_all add: s'_def)
  show "tableOf s' xs' = tableOf s xs"
  proof (rule tableOf_eqI)
    show "tableOf s xs k = Some v \<longleftrightarrow> tableOf s' xs' k = Some v" for k v
      unfolding tableOf_Some [OF ok] tableOf_Some [OF ok'] next_s' same using cur(2) by (auto simp: xs'_def)
  qed
qed

text \<open>A node is marked.\<close>

lemma tag_chain:
  assumes ok: "chain_ok s xs" and cur: "node_ok s xs cur" and plain: "even (nextOf s cur)"
  defines "s' \<equiv> setNext cur (get_marked_reference LONG_BIT (nextOf s cur)) s"
  shows "chain_ok s' xs" and "evolves s xs s' xs" and "tableOf s' xs = (tableOf s xs)(keyOf s cur := None)"
    and "public s' xs = public s xs"
proof -
  note m = mark_roundtrip [OF plain]
  have in_chain: "cur \<in> set xs" "cur \<notin> set (handed s)"
    using ok cur plain unfolding chain_ok_def node_ok_def public_def by auto
  have head: "cur \<noteq> headAddr s" using cur by (simp add: node_ok_def)
  have "path (nodes s) (headAddr s) (headAddr s # xs)" using ok unfolding chain_ok_def by blast
  then have path: "path (nodes s') (headAddr s) (headAddr s # xs)"
  proof (rule path_cong)
    fix a
    assume "a \<in> set (headAddr s # xs)"
    then have "a \<in> dom (nodes s)" using ok unfolding chain_ok_def by auto
    then show "a \<in> dom (nodes s') \<and> unmark (nnext (the (nodes s' a))) = unmark (nnext (the (nodes s a)))"
      using m plain unfolding nnext_nextOf by (simp add: s'_def)
  qed
  show ok': "chain_ok s' xs"
    unfolding chain_ok_def
  proof (intro conjI)
    show "\<forall>a \<in> set xs \<union> set (handed s'). a \<in> dom (nodes s') \<and> ndata (the (nodes s' a)) \<noteq> None \<and> a \<noteq> 0 \<and> even a"
      using ok unfolding chain_ok_def by (auto simp: s'_def)
    show "\<forall>a \<in> set (handed s'). odd (nextOf s' a)" using ok in_chain unfolding chain_ok_def by (auto simp: s'_def)
  qed (use ok path head in \<open>auto simp: chain_ok_def s'_def\<close>)
  show "public s' xs = public s xs" by (simp add: public_def s'_def)
  then show "evolves s xs s' xs" using plain by (auto simp: evolves_def s'_def)
  have same: "keyOf s' = keyOf s" "dataOf s' = dataOf s" by (simp_all add: s'_def)
  have next_s': "even (nextOf s' a) \<longleftrightarrow> even (nextOf s a) \<and> a \<noteq> cur" for a using m by (simp add: s'_def)
  have key: "a = cur" if "a \<in> set xs" "even (nextOf s a)" "keyOf s a = keyOf s cur" for a
    using chain_key_inj [OF ok] in_chain that by blast
  show "tableOf s' xs = (tableOf s xs)(keyOf s cur := None)"
  proof (rule tableOf_eqI)
    show "((tableOf s xs)(keyOf s cur := None)) k = Some v \<longleftrightarrow> tableOf s' xs k = Some v" for k v
      unfolding fun_upd_apply tableOf_Some [OF ok'] next_s' same using tableOf_Some [OF ok, of k v] key by auto
  qed
qed

text \<open>A new node is linked between two neighbours.\<close>

lemma link_sorted:
  assumes ok: "chain_ok s xs" and split: "headAddr s # xs = as @ prev # bs" and pre: "precedes s prev k"
    and cur: "firstOf bs = 0 \<or> k < keyOf s (firstOf bs)" and key: "keyOf s a = k"
  shows "sorted_wrt (\<lambda>a b. precedes s a (keyOf s b)) (as @ prev # a # bs)"
proof -
  note ord = chain_order [OF ok split]
  have "sorted_wrt (\<lambda>a b. precedes s a (keyOf s b)) (as @ prev # bs)" using ok split unfolding chain_ok_def by metis
  moreover have "precedes s x (k)" if "x \<in> set as" for x
  proof -
    have "prev \<noteq> headAddr s" using that chain_distinct [OF ok] split by (cases as) auto
    then show ?thesis using ord(1) [OF that] pre by (auto simp: precedes_def)
  qed
  moreover have "k < keyOf s b" if b: "b \<in> set bs" for b
  proof -
    obtain c r where c: "bs = c # r" using b by (cases bs) auto
    have "c \<in> set (headAddr s # xs)" unfolding split c by simp
    then have "c \<noteq> 0" using path_nodes ok unfolding chain_ok_def by blast
    then show ?thesis using ord(3) [OF c b] cur c by simp
  qed
  ultimately show ?thesis using pre key by (auto simp: sorted_wrt_append precedes_def)
qed

lemma link_chain:
  assumes ok: "chain_ok s xs" and prev: "prev_ok s xs d prev" and link: "nextOf s prev = cur" "even cur"
    and cur: "cur = 0 \<or> userKey d < keyOf s cur"
    and new: "a \<notin> public s xs" "a \<noteq> 0" "even a" "nodes s a = Some \<lparr>ndata = Some d, nnext = cur\<rparr>"
  defines "s' \<equiv> setNext prev a s"
  shows "\<exists>xs'. chain_ok s' xs' \<and> evolves s xs s' xs' \<and> tableOf s' xs' = (tableOf s xs)(userKey d \<mapsto> sessionKey d)
    \<and> public s' xs' = insert a (public s xs) \<and> set xs' = insert a (set xs) \<and> length xs' = Suc (length xs)"
proof -
  have pub: "prev \<in> public s xs" and pre: "precedes s prev (userKey d)" using prev by (simp_all add: prev_ok_def)
  obtain as bs where split: "headAddr s # xs = as @ prev # bs" and bs: "cur = firstOf bs"
    using chain_split [OF ok pub] link by auto
  obtain xs' where xs': "headAddr s # xs' = as @ prev # a # bs" using split by (cases as) auto
  have set: "set xs' = insert a (set xs)" using xs' split by (cases as) auto
  have length: "length xs' = Suc (length xs)" using arg_cong [OF xs', of length] arg_cong [OF split, of length] by simp
  have na: "a \<noteq> headAddr s" "a \<notin> set xs" "a \<notin> set (handed s)" "a \<noteq> prev" using new(1) pub by (auto simp: public_def)
  note dist = chain_distinct [OF ok, unfolded split]
  have key: "keyOf s a = userKey d" "dataOf s a = d" "nextOf s a = cur"
    using new(4) by (simp_all add: keyOf_def dataOf_def nextOf_def)
  have p: "path (nodes s) (headAddr s) (as @ prev # bs)" using ok split unfolding chain_ok_def by metis
  have "path (nodes s) (firstOf bs) bs" using path_append [of "nodes s" "headAddr s" "as @ [prev]" bs] p by simp
  then have "path (nodes s') (unmark (nextOf s a)) bs" using dist bs key link by (simp add: path_setNext s'_def)
  moreover have "nnext (the (nodes s' a)) = nextOf s a" "a \<in> dom (nodes s')"
    using na(4) new(4) by (auto simp: nnext_nextOf s'_def)
  ultimately have "path (nodes s') a (a # bs)" using new by simp
  then have path: "path (nodes s') (headAddr s) (headAddr s # xs')"
    unfolding xs' by (intro path_relink [OF p]) (use dist new(3) in \<open>auto simp: nnext_nextOf s'_def intro!: nodes_setNext\<close>)
  have sorted: "sorted_wrt (\<lambda>a b. precedes s a (keyOf s b)) (headAddr s # xs')"
    unfolding xs' using link_sorted [OF ok split _ _ key(1)] pre bs cur by simp
  have next_s': "even (nextOf s' b) = even (nextOf s b)" for b using link new(3) by (simp add: s'_def)
  have ok': "chain_ok s' xs'"
    unfolding chain_ok_def
  proof (intro conjI)
    show "\<forall>a \<in> set xs' \<union> set (handed s'). a \<in> dom (nodes s') \<and> ndata (the (nodes s' a)) \<noteq> None \<and> a \<noteq> 0 \<and> even a"
      using ok new unfolding chain_ok_def set by (auto simp: s'_def)
    show "set (handed s') \<inter> set (headAddr s' # xs') = {}" using ok na unfolding chain_ok_def set by (auto simp: s'_def set)
    show "\<forall>a \<in> set (handed s'). odd (nextOf s' a)" using ok next_s' unfolding chain_ok_def by (auto simp: s'_def)
  qed (use ok path sorted next_s' in \<open>auto simp: chain_ok_def s'_def\<close>)
  have pub': "public s' xs' = insert a (public s xs)" using set by (auto simp: public_def s'_def)
  then have "evolves s xs s' xs'" using link by (auto simp: evolves_def s'_def)
  moreover have "tableOf s' xs' = (tableOf s xs)(userKey d \<mapsto> sessionKey d)"
  proof (rule tableOf_eqI)
    have same: "keyOf s' = keyOf s" "dataOf s' = dataOf s" by (simp_all add: s'_def)
    have "tableOf s xs (userKey d) = None" by (rule absent [OF ok prev link(2,1) cur])
    then show "((tableOf s xs)(userKey d \<mapsto> sessionKey d)) k = Some v \<longleftrightarrow> tableOf s' xs' k = Some v" for k v
      unfolding fun_upd_apply tableOf_Some [OF ok'] next_s' same set
      using tableOf_Some [OF ok, of k v] tableOf_Some [OF ok, of "userKey d"] key link by auto
  qed
  ultimately show ?thesis using ok' pub' set length by blast
qed

end
