(* ===== verification/List_Linear.thy ===== *)
theory List_Linear
  imports List_Threads
begin

text \<open>
  Every run of the lock-free list by any number of threads is a run of the atomic table: a simulation, step
  by step, between \<open>List_Threads.list_step\<close> and \<open>List_Threads.spec_step\<close>.
\<close>

section \<open>The simulation relation\<close>

primrec opOf :: "search_call \<Rightarrow> table_op" where
  "opOf (C_Emplace d a) = Op_Insert d"
| "opOf (C_Delete d) = Op_Delete d"
| "opOf (C_Find d) = Op_Find d"
| "opOf (C_Clean d a) = Op_Delete d"

definition isClean :: "search_call \<Rightarrow> bool" where
  "isClean c = (case c of C_Clean d a \<Rightarrow> True | _ \<Rightarrow> False)"

lemma isClean_simps [simp]:
  "\<not> isClean (C_Emplace d a)" "\<not> isClean (C_Delete d)" "\<not> isClean (C_Find d)" "isClean (C_Clean d a)"
  by (simp_all add: isClean_def)

lemma opData_opOf [simp]: "opData (opOf c) = callData c"
  by (cases c) simp_all

text \<open>The call of the specification while the thread searches, and when it has seen \<open>v\<close> besides.\<close>

definition searching :: "search_call \<Rightarrow> table_call \<Rightarrow> bool" where
  "searching c call \<longleftrightarrow> (if isClean c then call = A_Took else \<exists>seen. call = A_Call (opOf c) seen)"

definition saw :: "search_call \<Rightarrow> u64 option \<Rightarrow> table_call \<Rightarrow> bool" where
  "saw c v call \<longleftrightarrow> (if isClean c then call = A_Took else \<exists>seen. call = A_Call (opOf c) seen \<and> v \<in> seen)"

fun call_rel :: "list_state \<Rightarrow> list_pc \<Rightarrow> table_call \<Rightarrow> bool" where
  "call_rel s L_Idle call \<longleftrightarrow> call = A_Idle"
| "call_rel s (L_Start c) call \<longleftrightarrow> searching c call"
| "call_rel s (L_Mark c prev cur) call \<longleftrightarrow> searching c call"
| "call_rel s (L_Next c prev cur) call \<longleftrightarrow> searching c call"
| "call_rel s (L_Help c prev cur nxt) call \<longleftrightarrow> searching c call"
| "call_rel s (L_Sub c prev cur) call \<longleftrightarrow> searching c call"
| "call_rel s (L_Check c prev cur nxt) call \<longleftrightarrow> searching c call
     \<and> (keyOf s cur = userKey (callData c) \<longrightarrow> saw c (Some (sessionKey (dataOf s cur))) call)"
| "call_rel s (L_Store d a prev cur) call \<longleftrightarrow> (\<exists>seen. call = A_Call (Op_Insert d) seen)"
| "call_rel s (L_Link d a prev cur) call \<longleftrightarrow> (\<exists>seen. call = A_Call (Op_Insert d) seen)"
| "call_rel s (L_Load d prev cur) call \<longleftrightarrow> (\<exists>seen. call = A_Call (Op_Delete d) seen)"
| "call_rel s (L_Tag d prev cur nxt) call \<longleftrightarrow> (\<exists>seen. call = A_Call (Op_Delete d) seen)"
| "call_rel s L_Add call \<longleftrightarrow> call = A_Took"
| "call_rel s (L_Unlink d prev cur nxt) call \<longleftrightarrow> call = A_Took"
| "call_rel s L_SubDone call \<longleftrightarrow> call = A_Took"
| "call_rel s (L_Return r) call \<longleftrightarrow> call = A_Took \<and> r = Ret_bool True
     \<or> (\<exists>op seen v. call = A_Call op seen \<and> v \<in> seen \<and> answers op v r)"

definition sim :: "list_state \<Rightarrow> u64 list \<Rightarrow> table_spec \<Rightarrow> bool" where
  "sim s xs a \<longleftrightarrow> list_ok s xs \<and> members a = tableOf s xs \<and> (\<forall>t. call_rel s (lpc s t) (calls a t))"

lemma simD:
  assumes "sim s xs a"
  shows "chain_ok s xs" and "own_ok s xs" and "at_ok s xs (lpc s t)" and "members a = tableOf s xs"
    and "call_rel s (lpc s t) (calls a t)"
  using assms by (simp_all add: sim_def list_ok_def)

lemma call_rel_evolves:
  assumes "evolves s xs s' xs'" and "at_ok s xs pc" and "call_rel s pc call"
  shows "call_rel s' pc call"
proof (cases pc)
  case (L_Check c prev cur nxt)
  then have "cur \<in> public s xs" using assms(2) by (simp add: node_ok_def)
  then have "keyOf s' cur = keyOf s cur" "dataOf s' cur = dataOf s cur"
    using assms(1) by (auto simp: evolves_def keyOf_def dataOf_def)
  then show ?thesis using assms(3) L_Check by simp
qed (use assms(3) in auto)

lemma own_unique:
  "own_ok s xs \<Longrightarrow> ownNode (lpc s u) = Some (b, e) \<Longrightarrow> ownNode (lpc s v) = Some (b, e') \<Longrightarrow> u = v"
  unfolding own_ok_def by blast

text \<open>The shape of every step: one thread moves, the chain evolves, and the other threads keep their nodes.\<close>

lemma sim_stepI:
  assumes sim: "sim s xs a" and ok: "chain_ok s' xs'" and ev: "evolves s xs s' xs'"
    and pcs: "lpc s' = (lpc s)(t := pc)" and at: "at_ok s' xs' pc"
    and others: "\<And>u b e. u \<noteq> t \<Longrightarrow> ownNode (lpc s u) = Some (b, e) \<Longrightarrow> b \<notin> public s' xs' \<and> nodes s' b = nodes s b"
    and mine: "\<And>b e. ownNode pc = Some (b, e) \<Longrightarrow> b \<notin> public s' xs' \<and> b \<noteq> 0 \<and> even b
        \<and> (\<exists>n. nodes s' b = Some \<lparr>ndata = Some e, nnext = n\<rparr>) \<and> (\<forall>u e'. u \<noteq> t \<longrightarrow> ownNode (lpc s u) \<noteq> Some (b, e'))"
    and linking: "\<And>d b p c. pc = L_Link d b p c \<Longrightarrow> nextOf s' b = c"
    and spec: "members a' = tableOf s' xs'" "calls a' = (calls a)(t := call)" "call_rel s' pc call"
  shows "sim s' xs' a'"
proof -
  note own = simD(2) [OF sim, unfolded own_ok_def]
  have "own_ok s' xs'"
    unfolding own_ok_def
  proof (intro conjI allI impI)
    fix u b e
    assume ow: "ownNode (lpc s' u) = Some (b, e)"
    have "b \<notin> public s' xs' \<and> b \<noteq> 0 \<and> even b \<and> (\<exists>n. nodes s' b = Some \<lparr>ndata = Some e, nnext = n\<rparr>)"
    proof (cases "u = t")
      case True
      then show ?thesis using mine [of b e] ow pcs by simp
    next
      case False
      then have o': "ownNode (lpc s u) = Some (b, e)" using ow pcs by simp
      then have "b \<noteq> 0 \<and> even b \<and> (\<exists>n. nodes s b = Some \<lparr>ndata = Some e, nnext = n\<rparr>)" using own by blast
      then show ?thesis using others [OF False o'] by simp
    qed
    then show "b \<notin> public s' xs'" "b \<noteq> 0" "even b" "\<exists>n. nodes s' b = Some \<lparr>ndata = Some e, nnext = n\<rparr>" by blast+
  next
    fix u v b e e'
    assume u: "ownNode (lpc s' u) = Some (b, e)" and v: "ownNode (lpc s' v) = Some (b, e')"
    consider "u = t" "v = t" | "u = t" "v \<noteq> t" | "u \<noteq> t" "v = t" | "u \<noteq> t" "v \<noteq> t" by blast
    then show "u = v"
    proof cases
      case 2
      then show ?thesis using u v mine [of b e] pcs by simp
    next
      case 3
      then show ?thesis using u v mine [of b e'] pcs by simp
    next
      case 4
      then show ?thesis using u v own_unique [OF simD(2) [OF sim]] pcs by simp
    qed simp
  next
    fix u d b prev cur
    assume l: "lpc s' u = L_Link d b prev cur"
    then show "nextOf s' b = cur"
    proof (cases "u = t")
      case False
      then have "lpc s u = L_Link d b prev cur" using l pcs by simp
      then have "nodes s' b = nodes s b" "nextOf s b = cur" using others [OF False, of b d] own by auto
      then show ?thesis by (simp add: nextOf_def)
    qed (use linking pcs in simp)
  qed
  moreover have "at_ok s' xs' (lpc s' u)" for u
    using at at_ok_evolves [OF ev simD(3) [OF sim]] pcs by (cases "u = t") simp_all
  moreover have "call_rel s' (lpc s' u) (calls a' u)" for u
    using spec(2,3) call_rel_evolves [OF ev simD(3) [OF sim] simD(5) [OF sim]] pcs by (cases "u = t") simp_all
  ultimately show ?thesis using ok spec(1) by (simp add: sim_def list_ok_def)
qed

section \<open>Steps that leave the links alone\<close>

text \<open>The specification makes the step with the same event, or none if there is no event.\<close>

definition matched :: "nat \<Rightarrow> table_spec \<Rightarrow> table_event option \<Rightarrow> list_state \<Rightarrow> bool" where
  "matched t a e s' \<longleftrightarrow> (\<exists>xs' a'. sim s' xs' a' \<and> (a' = a \<and> e = None \<or> spec_step t a e a'))"

definition same_links :: "list_state \<Rightarrow> list_state \<Rightarrow> bool" where
  "same_links s s' \<longleftrightarrow> nodes s' = nodes s \<and> headAddr s' = headAddr s \<and> handed s' = handed s"

lemma same_links_simps:
  assumes "same_links s s'"
  shows "nextOf s' = nextOf s" "dataOf s' = dataOf s" "keyOf s' = keyOf s" "public s' = public s" "precedes s' = precedes s"
    "chain_ok s' = chain_ok s" "tableOf s' = tableOf s"
  using assms unfolding same_links_def
  by (intro ext, simp add: nextOf_def dataOf_def keyOf_def public_def precedes_def chain_ok_def tableOf_def)+

lemma same_links_goto [simp]: "same_links s (goto t pc s)" "same_links s (goto t pc (s\<lparr>counter := n\<rparr>))"
  by (simp_all add: same_links_def)

lemma lpc_counter [simp]: "lpc (goto t pc (s\<lparr>counter := n\<rparr>)) = (lpc s)(t := pc)"
  by simp

lemma sim_local:
  assumes sim: "sim s xs a" and same: "same_links s s'" and pcs: "lpc s' = (lpc s)(t := pc)" and at: "at_ok s xs pc"
    and own: "ownNode pc = None \<or> ownNode pc = ownNode (lpc s t)" and nolink: "\<And>d b p c. pc \<noteq> L_Link d b p c"
    and spec: "members a' = members a" "calls a' = (calls a)(t := call)" "call_rel s pc call"
  shows "sim s' xs a'"
proof (rule sim_stepI [OF sim, where t = t and pc = pc and call = call])
  note eqs = same_links_simps [OF same]
  show ev: "evolves s xs s' xs" using same by (simp add: evolves_def eqs) (simp add: same_links_def)
  show "chain_ok s' xs" using simD(1) [OF sim] by (simp add: eqs)
  show "at_ok s' xs pc" by (rule at_ok_evolves [OF ev at])
  show "call_rel s' pc call" by (rule call_rel_evolves [OF ev at spec(3)])
  show "members a' = tableOf s' xs" using spec(1) simD(4) [OF sim] by (simp add: eqs)
  show "b \<notin> public s' xs \<and> nodes s' b = nodes s b" if "ownNode (lpc s u) = Some (b, e)" for u b e
    using that simD(2) [OF sim] same unfolding own_ok_def by (auto simp: eqs same_links_def)
  show "b \<notin> public s' xs \<and> b \<noteq> 0 \<and> even b \<and> (\<exists>n. nodes s' b = Some \<lparr>ndata = Some e, nnext = n\<rparr>)
      \<and> (\<forall>u e'. u \<noteq> t \<longrightarrow> ownNode (lpc s u) \<noteq> Some (b, e'))" if "ownNode pc = Some (b, e)" for b e
  proof -
    have me: "ownNode (lpc s t) = Some (b, e)" using that own by auto
    then show ?thesis
      using simD(2) [OF sim] own_unique [OF simD(2) [OF sim] me] same unfolding own_ok_def
      by (auto simp: eqs same_links_def)
  qed
qed (use pcs spec nolink in simp_all)

lemma matched_stutter:
  assumes "sim s xs a" and "same_links s s'" and "lpc s' = (lpc s)(t := pc)" and "at_ok s xs pc"
    and "ownNode pc = None \<or> ownNode pc = ownNode (lpc s t)" and "\<And>d b p c. pc \<noteq> L_Link d b p c"
    and "call_rel s pc (calls a t)"
  shows "matched t a None s'"
  unfolding matched_def
  using sim_local [OF assms(1-6), of a "calls a t"] assms(7) by (auto simp: fun_upd_idem)

lemma matched_look:
  assumes sim: "sim s xs a" and "same_links s s'" and "lpc s' = (lpc s)(t := pc)" and "at_ok s xs pc"
    and "ownNode pc = None \<or> ownNode pc = ownNode (lpc s t)" and "\<And>d b p c. pc \<noteq> L_Link d b p c"
    and search: "searching c (calls a t)"
    and rel: "\<And>call. saw c (tableOf s xs (userKey (callData c))) call \<Longrightarrow> call_rel s pc call"
  shows "matched t a None s'"
proof (cases "isClean c")
  case True
  then have "saw c v (calls a t)" for v using search by (simp add: searching_def saw_def)
  then show ?thesis using matched_stutter [OF assms(1-6)] rel by blast
next
  case False
  then obtain seen where call: "calls a t = A_Call (opOf c) seen" using search by (auto simp: searching_def)
  let ?call = "A_Call (opOf c) (insert (members a (userKey (opData (opOf c)))) seen)"
  have "saw c (tableOf s xs (userKey (callData c))) ?call"
    using False simD(4) [OF sim] by (simp add: saw_def)
  then have "sim s' xs (setCall t ?call a)"
    using sim_local [OF assms(1-6), of "setCall t ?call a" ?call] rel by (simp add: setCall_def)
  moreover have "spec_step t a None (setCall t ?call a)" by (rule spec_step.spec_look [OF call])
  ultimately show ?thesis unfolding matched_def by blast
qed

lemma saw_searching: "saw c v call \<Longrightarrow> searching c call"
  by (auto simp: saw_def searching_def split: if_splits)

lemma saw_None: "saw c None call \<Longrightarrow> call_rel s (searched c prev cur None) call"
  by (cases c) (auto simp: saw_def intro: exI [of _ None])

lemma saw_Some:
  assumes "saw c (Some v) call" and "callData c = UserSessionKey k v'"
  shows "call_rel s (searched c prev cur (Some (UserSessionKey k v))) call"
  using assms by (cases c) (force simp: saw_def)+

subsection \<open>Searching\<close>

lemma searched_own: "ownNode (searched c prev cur r) = None \<or> ownNode (searched c prev cur r) = callNode c"
  by (cases c; cases r) simp_all

lemma searched_nolink: "searched c prev cur r \<noteq> L_Link d b p q"
  by (cases c; cases r) simp_all

lemma matched_absent:
  assumes sim: "sim s xs a" and pc: "ownNode (lpc s t) = callNode c" and search: "searching c (calls a t)"
    and prev: "prev_ok s xs (callData c) prev" and cur: "link_end s xs cur" "nextOf s prev = cur"
    and key: "cur = 0 \<or> userKey (callData c) < keyOf s cur"
  shows "matched t a None (goto t (searched c prev cur None) s)"
proof (rule matched_look [OF sim _ _ _ _ _ search])
  have "tableOf s xs (userKey (callData c)) = None"
    using absent [OF simD(1) [OF sim] prev _ cur(2) key] link_end_even [OF simD(1) [OF sim] cur(1)] by simp
  then show "call_rel s (searched c prev cur None) call" if "saw c (tableOf s xs (userKey (callData c))) call" for call
    using that saw_None by simp
  show "at_ok s xs (searched c prev cur None)" using prev cur key by (cases c) simp_all
qed (use searched_own pc searched_nolink in auto)

lemma matched_next_plain:
  assumes sim: "sim s xs a" and pc: "lpc s t = L_Next c prev cur" and plain: "even (nextOf s cur)"
  shows "matched t a None (goto t (L_Check c prev cur (nextOf s cur)) s)"
proof (rule matched_look [OF sim, where c = c])
  have at: "prev_ok s xs (callData c) prev" "node_ok s xs cur" using simD(3) [OF sim, of t] pc by simp_all
  show "at_ok s xs (L_Check c prev cur (nextOf s cur))"
    using at next_link_end [OF simD(1) [OF sim] _ plain] by (simp add: node_ok_def)
  show "searching c (calls a t)" using simD(5) [OF sim, of t] pc by simp
  show "call_rel s (L_Check c prev cur (nextOf s cur)) call" if "saw c (tableOf s xs (userKey (callData c))) call" for call
    using that saw_searching present [OF simD(1) [OF sim] at(2) plain] by auto
qed (use pc in simp_all)

lemma matched_check_done:
  assumes sim: "sim s xs a" and pc: "lpc s t = L_Check c prev cur nxt" and link: "nextOf s prev = cur"
    and ge: "GreaterOrEquals (dataOf s cur) (callData c)"
  shows "matched t a None (goto t (searched c prev cur
    (if Equals (dataOf s cur) (callData c) then Some (dataOf s cur) else None)) s)"
proof (cases "Equals (dataOf s cur) (callData c)")
  case False
  have at: "prev_ok s xs (callData c) prev" "node_ok s xs cur" using simD(3) [OF sim, of t] pc by simp_all
  have "userKey (callData c) < keyOf s cur" using ge False by (simp add: key_order keyOf_def)
  then show ?thesis
    using matched_absent [OF sim _ _ at(1) _ link] at pc simD(5) [OF sim, of t] False by (simp add: link_end_def)
next
  case True
  have at: "prev_ok s xs (callData c) prev" "node_ok s xs cur" using simD(3) [OF sim, of t] pc by simp_all
  have key: "keyOf s cur = userKey (callData c)" using True by (auto simp: key_order keyOf_def not_less)
  then have "dataOf s cur = UserSessionKey (userKey (callData c)) (sessionKey (dataOf s cur))"
    by (cases "dataOf s cur") (simp add: keyOf_def)
  moreover have "saw c (Some (sessionKey (dataOf s cur))) (calls a t)" using simD(5) [OF sim, of t] pc key by simp
  ultimately have "call_rel s (searched c prev cur (Some (dataOf s cur))) (calls a t)"
    using saw_Some [of c _ _ "userKey (callData c)" "sessionKey (callData c)"] by (metis UserSessionKey.collapse)
  moreover have "at_ok s xs (searched c prev cur (Some (dataOf s cur)))" using at key by (cases c) simp_all
  ultimately show ?thesis
    using matched_stutter [OF sim, of "goto t (searched c prev cur (Some (dataOf s cur))) s" t]
      searched_own [of c prev cur "Some (dataOf s cur)"] searched_nolink pc True by simp
qed

lemma matched_check_on:
  assumes sim: "sim s xs a" and pc: "lpc s t = L_Check c prev cur nxt" and lt: "\<not> GreaterOrEquals (dataOf s cur) (callData c)"
  shows "matched t a None (goto t (L_Mark c cur nxt) s)"
proof (rule matched_stutter [OF sim])
  have "node_ok s xs cur" "link_end s xs nxt" using simD(3) [OF sim, of t] pc by simp_all
  then show "at_ok s xs (L_Mark c cur nxt)"
    using lt by (simp add: prev_ok_def node_ok_def precedes_def keyOf_def key_order)
qed (use pc simD(5) [OF sim, of t] in simp_all)

section \<open>Steps that change links\<close>

lemma private_kept:
  assumes sim: "sim s xs a" and own: "ownNode (lpc s u) = Some (b, e)"
  shows "b \<notin> public s xs" and "b \<noteq> 0" and "even b" and "\<exists>n. nodes s b = Some \<lparr>ndata = Some e, nnext = n\<rparr>"
  using simD(2) [OF sim] own unfolding own_ok_def by blast+

text \<open>A link of a public node changes, and no node becomes public.\<close>

lemma sim_public:
  assumes sim: "sim s xs a" and ok: "chain_ok s' xs'" and ev: "evolves s xs s' xs'" and pub: "public s' xs' = public s xs"
    and p: "p \<in> public s xs" and nodes: "\<And>b. b \<noteq> p \<Longrightarrow> nodes s' b = nodes s b"
    and pcs: "lpc s' = (lpc s)(t := pc)" and at: "at_ok s' xs' pc"
    and own: "ownNode pc = None \<or> ownNode pc = ownNode (lpc s t)" and nolink: "\<And>d b p c. pc \<noteq> L_Link d b p c"
    and spec: "members a' = tableOf s' xs'" "calls a' = (calls a)(t := call)" "call_rel s' pc call"
  shows "sim s' xs' a'"
proof (rule sim_stepI [OF sim ok ev pcs at _ _ _ spec])
  show "b \<notin> public s' xs' \<and> nodes s' b = nodes s b" if "ownNode (lpc s u) = Some (b, e)" for u b e
    using private_kept [OF sim that] pub p nodes [of b] by auto
  show "b \<notin> public s' xs' \<and> b \<noteq> 0 \<and> even b \<and> (\<exists>n. nodes s' b = Some \<lparr>ndata = Some e, nnext = n\<rparr>)
      \<and> (\<forall>u e'. u \<noteq> t \<longrightarrow> ownNode (lpc s u) \<noteq> Some (b, e'))" if "ownNode pc = Some (b, e)" for b e
  proof -
    have me: "ownNode (lpc s t) = Some (b, e)" using that own by auto
    have "nodes s' b = nodes s b" using private_kept(1) [OF sim me] p nodes [of b] by auto
    then show ?thesis using private_kept [OF sim me] own_unique [OF simD(2) [OF sim] me] pub by auto
  qed
qed (use nolink in simp)

lemma matched_unlink:
  assumes sim: "sim s xs a" and prev: "prev \<in> public s xs" and cur: "node_ok s xs cur" "odd (nextOf s cur)"
    and link: "nextOf s prev = cur" and x: "x = unmark (nextOf s cur)"
    and own: "ownNode pc = None \<or> ownNode pc = ownNode (lpc s t)" and nolink: "\<And>d b p c. pc \<noteq> L_Link d b p c"
    and at: "\<And>s' xs'. evolves s xs s' xs' \<Longrightarrow> link_end s' xs' x \<Longrightarrow> at_ok s' xs' pc"
    and rel: "\<And>s'. call_rel s' pc (calls a t)"
  shows "matched t a None (goto t pc (hand cur (setNext prev x s)))"
proof -
  let ?s = "hand cur (setNext prev x s)" and ?xs = "removeAll cur xs"
  note u = unlink_chain [OF simD(1) [OF sim] prev cur link, folded x]
  have same: "same_links ?s (goto t pc ?s)" by simp
  note eqs = same_links_simps [OF same]
  have ev: "evolves s xs (goto t pc ?s) ?xs" using u(2) by (simp add: evolves_def eqs)
  have "sim (goto t pc ?s) ?xs a"
  proof (rule sim_public [OF sim _ ev _ prev _ _ at own nolink, where call = "calls a t"])
    show "link_end (goto t pc ?s) ?xs x" using u(4) by (simp add: link_end_def node_ok_def eqs)
    show "members a = tableOf (goto t pc ?s) ?xs" using u(3) simD(4) [OF sim] by (simp add: eqs)
  qed (use u ev rel in \<open>simp_all add: eqs nodes_setNext\<close>)
  then show ?thesis unfolding matched_def by blast
qed

lemma matched_tag:
  assumes sim: "sim s xs a" and pc: "lpc s t = L_Tag d prev cur nxt" and link: "nextOf s cur = nxt"
  shows "matched t a None (goto t (L_Unlink d prev cur nxt) (setNext cur (get_marked_reference LONG_BIT nxt) s))"
proof -
  let ?s = "setNext cur (get_marked_reference LONG_BIT nxt) s"
  have at: "prev_ok s xs d prev" "node_ok s xs cur" "keyOf s cur = userKey d" "even nxt"
    using simD(3) [OF sim, of t] pc by simp_all
  obtain seen where call: "calls a t = A_Call (Op_Delete d) seen" using simD(5) [OF sim, of t] pc by auto
  have plain: "even (nextOf s cur)" using at(4) link by simp
  note g = tag_chain [OF simD(1) [OF sim] at(2) plain, unfolded link]
  let ?a = "setCall t A_Took (a\<lparr>members := (members a)(userKey d := None)\<rparr>)"
  have same: "same_links ?s (goto t (L_Unlink d prev cur nxt) ?s)" by simp
  note eqs = same_links_simps [OF same]
  have ev: "evolves s xs (goto t (L_Unlink d prev cur nxt) ?s) xs" using g(2) by (simp add: evolves_def eqs)
  have "sim (goto t (L_Unlink d prev cur nxt) ?s) xs ?a"
  proof (rule sim_public [OF sim _ ev, where p = cur and t = t and pc = "L_Unlink d prev cur nxt" and call = A_Took])
    show "at_ok (goto t (L_Unlink d prev cur nxt) ?s) xs (L_Unlink d prev cur nxt)"
      using at evolves_local [OF ev] by simp
    show "members ?a = tableOf (goto t (L_Unlink d prev cur nxt) ?s) xs"
      using g(3) simD(4) [OF sim] at(3) by (simp add: eqs setCall_def)
  qed (use g at(2) in \<open>simp_all add: eqs nodes_setNext node_ok_def setCall_def\<close>)
  moreover have "members a (userKey d) \<noteq> None"
    using present [OF simD(1) [OF sim] at(2) plain] at(3) simD(4) [OF sim] by simp
  ultimately show ?thesis unfolding matched_def using spec_step.spec_delete [OF call] by blast
qed

lemma matched_link:
  assumes sim: "sim s xs a" and pc: "lpc s t = L_Link d b prev cur" and link: "nextOf s prev = cur"
  shows "matched t a None (goto t L_Add (setNext prev b s))"
proof -
  have at: "prev_ok s xs d prev" "link_end s xs cur" "cur = 0 \<or> userKey d < keyOf s cur"
    using simD(3) [OF sim, of t] pc by simp_all
  have ok: "chain_ok s xs" by (rule simD(1) [OF sim])
  have even: "even cur" by (rule link_end_even [OF ok at(2)])
  obtain seen where call: "calls a t = A_Call (Op_Insert d) seen" using simD(5) [OF sim, of t] pc by auto
  have own: "ownNode (lpc s t) = Some (b, d)" using pc by simp
  obtain n where n: "nodes s b = Some \<lparr>ndata = Some d, nnext = n\<rparr>" using private_kept(4) [OF sim own] by blast
  have "nextOf s b = cur" using simD(2) [OF sim] pc unfolding own_ok_def by blast
  then have "nodes s b = Some \<lparr>ndata = Some d, nnext = cur\<rparr>" using n by (simp add: nextOf_def)
  then obtain xs' where l: "chain_ok (setNext prev b s) xs'" "evolves s xs (setNext prev b s) xs'"
      "tableOf (setNext prev b s) xs' = (tableOf s xs)(userKey d \<mapsto> sessionKey d)"
      "public (setNext prev b s) xs' = insert b (public s xs)"
    using link_chain [OF ok at(1) link even at(3) private_kept(1-3) [OF sim own]] by blast
  let ?s = "goto t L_Add (setNext prev b s)"
  let ?a = "setCall t A_Took (a\<lparr>members := (members a)(userKey d \<mapsto> sessionKey d)\<rparr>)"
  have same: "same_links (setNext prev b s) ?s" by simp
  note eqs = same_links_simps [OF same]
  have prev: "prev \<in> public s xs" using at(1) by (simp add: prev_ok_def)
  have "sim ?s xs' ?a"
  proof (rule sim_stepI [OF sim, where t = t and pc = L_Add and call = A_Took])
    show "evolves s xs ?s xs'" using l(2) by (simp add: evolves_def eqs)
    show "c \<notin> public ?s xs' \<and> nodes ?s c = nodes s c" if "u \<noteq> t" "ownNode (lpc s u) = Some (c, e)" for u c e
    proof -
      have "c \<noteq> b" using own_unique [OF simD(2) [OF sim] own] that by blast
      moreover have "c \<notin> public s xs" by (rule private_kept(1) [OF sim that(2)])
      moreover have "c \<noteq> prev" using calculation(2) prev by blast
      ultimately show ?thesis unfolding eqs l(4) by (simp add: nodes_setNext)
    qed
  qed (use l simD(4) [OF sim] in \<open>simp_all add: eqs setCall_def\<close>)
  moreover have "members a (userKey d) = None"
    using absent [OF ok at(1) even link at(3)] simD(4) [OF sim] by simp
  ultimately show ?thesis unfolding matched_def using spec_step.spec_insert [OF call] by blast
qed

text \<open>A node that is not public changes: a new one is made, or its link is set.\<close>

lemma private_change:
  assumes ok: "chain_ok s xs" and same: "headAddr s' = headAddr s" "handed s' = handed s"
    and nodes: "\<And>b. b \<in> public s xs \<Longrightarrow> nodes s' b = nodes s b"
  shows "chain_ok s' xs" and "evolves s xs s' xs" and "tableOf s' xs = tableOf s xs" and "public s' xs = public s xs"
proof -
  have eqs: "nextOf s' b = nextOf s b" "dataOf s' b = dataOf s b" "keyOf s' b = keyOf s b"
      "precedes s' b k = precedes s b k" if "b \<in> public s xs" for b k
    using nodes [OF that] same by (simp_all add: nextOf_def dataOf_def keyOf_def precedes_def)
  have chain: "\<And>b. b \<in> set (headAddr s # xs) \<Longrightarrow> b \<in> public s xs" "\<And>b. b \<in> set (handed s) \<Longrightarrow> b \<in> public s xs"
    by (auto simp: public_def)
  show pub: "public s' xs = public s xs" using same by (simp add: public_def)
  show "evolves s xs s' xs" using nodes pub same eqs by (auto simp: evolves_def)
  show "tableOf s' xs = tableOf s xs"
    unfolding tableOf_def by (intro arg_cong [of _ _ map_of] map_cong filter_cong) (simp_all add: eqs chain)
  show "chain_ok s' xs"
    unfolding chain_ok_def
  proof (intro conjI)
    show "path (nodes s') (headAddr s') (headAddr s' # xs)"
      unfolding same
    proof (rule path_cong)
      show "path (nodes s) (headAddr s) (headAddr s # xs)" using ok unfolding chain_ok_def by blast
      then show "b \<in> dom (nodes s') \<and> unmark (nnext (the (nodes s' b))) = unmark (nnext (the (nodes s b)))"
        if "b \<in> set (headAddr s # xs)" for b
        using that nodes chain(1) [OF that] path_nodes by (metis domIff)
    qed
    show "sorted_wrt (\<lambda>a b. precedes s' a (keyOf s' b)) (headAddr s' # xs)"
      unfolding same
    proof (rule sorted_wrt_mono_rel)
      show "sorted_wrt (\<lambda>a b. precedes s a (keyOf s b)) (headAddr s # xs)" using ok unfolding chain_ok_def by blast
    qed (simp only: eqs chain)
    show "\<forall>a \<in> set xs \<union> set (handed s'). a \<in> dom (nodes s') \<and> ndata (the (nodes s' a)) \<noteq> None \<and> a \<noteq> 0 \<and> even a"
      using ok nodes unfolding chain_ok_def public_def same domIff by simp
    show "\<forall>a \<in> set (handed s'). odd (nextOf s' a)" using ok eqs(1) chain(2) unfolding chain_ok_def same by simp
    show "ndata (the (nodes s' (headAddr s'))) = None" "even (nextOf s' (headAddr s'))"
      using ok nodes eqs(1) chain(1) unfolding chain_ok_def same by simp_all
  qed (use ok same in \<open>simp_all add: chain_ok_def\<close>)
qed

lemma matched_store:
  assumes sim: "sim s xs a" and pc: "lpc s t = L_Store d b prev cur"
  shows "matched t a None (goto t (L_Link d b prev cur) (setNext b cur s))"
proof -
  let ?s = "goto t (L_Link d b prev cur) (setNext b cur s)"
  have own: "ownNode (lpc s t) = Some (b, d)" using pc by simp
  note b = private_kept [OF sim own]
  have others: "nodes ?s c = nodes s c" if "c \<noteq> b" for c using that by (simp add: nodes_setNext)
  have pub: "nodes ?s c = nodes s c" if "c \<in> public s xs" for c using others [of c] that b(1) by blast
  have h: "headAddr ?s = headAddr s" "handed ?s = handed s" by simp_all
  note p = private_change [OF simD(1) [OF sim] h pub]
  have "sim ?s xs a"
  proof (rule sim_stepI [OF sim p(1,2), where t = t and pc = "L_Link d b prev cur" and call = "calls a t"])
    show "at_ok ?s xs (L_Link d b prev cur)" using at_ok_evolves [OF p(2) simD(3) [OF sim, of t]] pc by simp
    show "c \<notin> public ?s xs \<and> nodes ?s c = nodes s c" if "u \<noteq> t" "ownNode (lpc s u) = Some (c, e)" for u c e
      using private_kept(1) [OF sim that(2)] own_unique [OF simD(2) [OF sim] own] that others [of c] p(4) by blast
    show "c \<notin> public ?s xs \<and> c \<noteq> 0 \<and> even c \<and> (\<exists>n. nodes ?s c = Some \<lparr>ndata = Some e, nnext = n\<rparr>)
      \<and> (\<forall>u e'. u \<noteq> t \<longrightarrow> ownNode (lpc s u) \<noteq> Some (c, e'))" if "ownNode (L_Link d b prev cur) = Some (c, e)" for c e
      using that b own_unique [OF simD(2) [OF sim] own] p(4) by (auto simp: setNext_def)
    show "call_rel ?s (L_Link d b prev cur) (calls a t)" using simD(5) [OF sim, of t] pc by simp
  qed (use simD(4) [OF sim] p(3) in simp_all)
  then show ?thesis unfolding matched_def by blast
qed

lemma matched_call_insert:
  assumes sim: "sim s xs a" and pc: "lpc s t = L_Idle" and b: "b \<notin> dom (nodes s)" "b \<noteq> 0" "even b"
  shows "matched t a (Some (Invoke t (Op_Insert d)))
    (goto t (L_Start (C_Emplace d b)) (s\<lparr>nodes := (nodes s)(b \<mapsto> \<lparr>ndata = Some d, nnext = 0\<rparr>)\<rparr>))"
proof -
  let ?s = "goto t (L_Start (C_Emplace d b)) (s\<lparr>nodes := (nodes s)(b \<mapsto> \<lparr>ndata = Some d, nnext = 0\<rparr>)\<rparr>)"
  let ?a = "setCall t (A_Call (Op_Insert d) {}) a"
  have new: "b \<notin> public s xs" using b(1) public_node [OF simD(1) [OF sim]] by blast
  have fresh: "ownNode (lpc s u) \<noteq> Some (b, e)" for u e using private_kept(4) [OF sim, of u b e] b(1) by blast
  have others: "nodes ?s c = nodes s c" if "c \<noteq> b" for c using that by simp
  have pub: "nodes ?s c = nodes s c" if "c \<in> public s xs" for c using others [of c] that new by blast
  have h: "headAddr ?s = headAddr s" "handed ?s = handed s" by simp_all
  note p = private_change [OF simD(1) [OF sim] h pub]
  have "sim ?s xs ?a"
  proof (rule sim_stepI [OF sim p(1,2), where t = t and pc = "L_Start (C_Emplace d b)" and call = "A_Call (Op_Insert d) {}"])
    show "c \<notin> public ?s xs \<and> nodes ?s c = nodes s c" if "u \<noteq> t" "ownNode (lpc s u) = Some (c, e)" for u c e
      using private_kept(1) [OF sim that(2)] fresh [of u e] that(2) others [of c] p(4) by blast
    show "c \<notin> public ?s xs \<and> c \<noteq> 0 \<and> even c \<and> (\<exists>n. nodes ?s c = Some \<lparr>ndata = Some e, nnext = n\<rparr>)
      \<and> (\<forall>u e'. u \<noteq> t \<longrightarrow> ownNode (lpc s u) \<noteq> Some (c, e'))" if "ownNode (L_Start (C_Emplace d b)) = Some (c, e)" for c e
      using that b new fresh p(4) by auto
  qed (use simD(4) [OF sim] p(3) in \<open>simp_all add: setCall_def searching_def\<close>)
  moreover have "spec_step t a (Some (Invoke t (Op_Insert d))) ?a"
    using simD(5) [OF sim, of t] pc by (intro spec_step.spec_call) simp
  ultimately show ?thesis unfolding matched_def by blast
qed

lemma matched_call:
  assumes sim: "sim s xs a" and pc: "lpc s t = L_Idle" and c: "callNode c = None" "\<not> isClean c"
  shows "matched t a (Some (Invoke t (opOf c))) (goto t (L_Start c) s)"
proof -
  let ?a = "setCall t (A_Call (opOf c) {}) a"
  have "sim (goto t (L_Start c) s) xs ?a"
    by (rule sim_local [OF sim, where t = t and pc = "L_Start c" and call = "A_Call (opOf c) {}"])
       (use c in \<open>simp_all add: setCall_def searching_def\<close>)
  moreover have "spec_step t a (Some (Invoke t (opOf c))) ?a"
    using simD(5) [OF sim, of t] pc by (intro spec_step.spec_call) simp
  ultimately show ?thesis unfolding matched_def by blast
qed

lemma matched_return:
  assumes sim: "sim s xs a" and pc: "lpc s t = L_Return r"
  shows "matched t a (Some (Respond t r)) (goto t L_Idle s)"
proof -
  have "sim (goto t L_Idle s) xs (setCall t A_Idle a)"
    by (rule sim_local [OF sim, where t = t and pc = L_Idle and call = A_Idle]) (simp_all add: setCall_def)
  moreover have "spec_step t a (Some (Respond t r)) (setCall t A_Idle a)"
    using simD(5) [OF sim, of t] pc by (auto intro: spec_step.spec_true spec_step.spec_answer)
  ultimately show ?thesis unfolding matched_def by blast
qed

section \<open>Every step is matched\<close>

lemma matched_local:
  assumes "sim s xs a" and "at_ok s xs pc" and "ownNode pc = None \<or> ownNode pc = ownNode (lpc s t)"
    and "\<And>d b p c. pc \<noteq> L_Link d b p c" and "call_rel s pc (calls a t)"
  shows "matched t a None (goto t pc s)" and "matched t a None (goto t pc (s\<lparr>counter := n\<rparr>))"
  by (rule matched_stutter [OF assms(1) _ _ assms(2-5)]; simp)+

fun inSearch :: "list_pc \<Rightarrow> bool" where
  "inSearch (L_Start c) = True"
| "inSearch (L_Mark c prev cur) = True"
| "inSearch (L_Next c prev cur) = True"
| "inSearch (L_Help c prev cur nxt) = True"
| "inSearch (L_Sub c prev cur) = True"
| "inSearch (L_Check c prev cur nxt) = True"
| "inSearch pc = False"

lemma search_step:
  assumes sim: "sim s xs a" and step: "list_step t s e s'" and pc: "inSearch (lpc s t)"
  shows "matched t a e s'"
proof -
  have ok: "chain_ok s xs" by (rule simD(1) [OF sim])
  note here = simD(3) [OF sim, of t] simD(5) [OF sim, of t]
  have head: "headAddr s \<in> public s xs" "even (nextOf s (headAddr s))" using ok by (auto simp: public_def chain_ok_def)
  show ?thesis
    using step
  proof cases
    case (try_again c)
    then show ?thesis
      using here next_link_end [OF ok head] head(1) by (auto intro!: matched_local [OF sim] simp: prev_ok_def precedes_def)
  next
    case (mark_end c prev)
    then show ?thesis using here by (auto intro!: matched_absent [OF sim] simp: link_end_def)
  next
    case (next_marked c prev cur)
    then show ?thesis using here by (auto intro!: matched_local [OF sim])
  next
    case (next_plain c prev cur)
    then show ?thesis using matched_next_plain [OF sim] by simp
  next
    case (help_ok c prev cur nxt)
    then show ?thesis
      using here evolves_local(1) by (auto intro!: matched_unlink [OF sim] simp: prev_ok_def)
  next
    case (check_done c prev cur nxt)
    then show ?thesis using matched_check_done [OF sim] by simp
  next
    case (check_on c prev cur nxt)
    then show ?thesis using matched_check_on [OF sim] by simp
  qed (use here pc in \<open>auto intro!: matched_local [OF sim] simp: link_end_def\<close>)
qed

lemma sim_step:
  assumes sim: "sim s xs a" and step: "list_step t s e s'"
  shows "matched t a e s'"
proof (cases "inSearch (lpc s t)")
  case True
  then show ?thesis by (rule search_step [OF sim step])
next
  case False
  have ok: "chain_ok s xs" by (rule simD(1) [OF sim])
  note here = simD(3) [OF sim, of t] simD(5) [OF sim, of t]
  show ?thesis
    using step
  proof cases
    case (call_insert b d)
    then show ?thesis using matched_call_insert [OF sim] by simp
  next
    case (call_delete d)
    then show ?thesis using matched_call [OF sim, of t "C_Delete d"] by simp
  next
    case (call_find d)
    then show ?thesis using matched_call [OF sim, of t "C_Find d"] by simp
  next
    case (store d b prev cur)
    then show ?thesis using matched_store [OF sim] by simp
  next
    case (link_ok d b prev cur)
    then show ?thesis using matched_link [OF sim] by simp
  next
    case (tag_ok d prev cur nxt)
    then show ?thesis using matched_tag [OF sim] by simp
  next
    case (unlink_ok d prev cur nxt)
    then show ?thesis
      using here mark_roundtrip [of nxt] by (auto intro!: matched_unlink [OF sim] simp: prev_ok_def)
  next
    case (return r)
    then show ?thesis using matched_return [OF sim] by simp
  next
    case (load_plain d prev cur)
    then show ?thesis using here next_link_end [OF ok] by (auto intro!: matched_local [OF sim])
  qed (use here False in \<open>auto intro!: matched_local [OF sim] simp: searching_def\<close>)
qed

lemma sim_start:
  assumes "a \<noteq> 0" and "even a"
  shows "sim (list_start a) [] spec_start"
  using assms
  by (auto simp: sim_def list_ok_def chain_ok_def own_ok_def list_start_def spec_start_def tableOf_def nextOf_def)

lemma sim_run:
  assumes "a \<noteq> 0" and "even a" and "list_run a es s"
  shows "\<exists>spec xs. spec_run es spec \<and> sim s xs spec"
  using assms(3)
proof induction
  case list_begin
  then show ?case using spec_run.spec_begin sim_start [OF assms(1,2)] by blast
next
  case (list_next es s t e s')
  then obtain spec xs where r: "spec_run es spec" and "sim s xs spec" by blast
  then obtain xs' spec' where s: "sim s' xs' spec'" and e: "spec' = spec \<and> e = None \<or> spec_step t spec e spec'"
    using sim_step list_next(2) unfolding matched_def by blast
  from e have "spec_run (es @ (case e of None \<Rightarrow> [] | Some x \<Rightarrow> [x])) spec'"
    using r by (auto intro: spec_run.spec_next)
  then show ?case using s by blast
qed

section \<open>Properties\<close>

text \<open>
  C8. The lock-free list is linearizable: whatever any number of threads do, and however their accesses to
  the links interleave, the calls and returns that can be observed are those of a table whose insertions,
  deletions and lookups happen at one instant each, between call and return. When the run has led to the
  state \<open>s\<close>, the unmarked nodes of a chain that begins at the head and is sorted by key are the table.
\<close>

theorem list_is_linearizable:
  assumes "a \<noteq> 0" and "even a" and "list_run a es s"
  shows "\<exists>spec xs. spec_run es spec \<and> members spec = tableOf s xs
    \<and> path (nodes s) (headAddr s) (headAddr s # xs) \<and> sorted_wrt (\<lambda>b c. keyOf s b < keyOf s c) xs"
proof -
  obtain spec xs where r: "spec_run es spec" and sim: "sim s xs spec" using sim_run [OF assms] by blast
  have ok: "chain_ok s xs" by (rule simD(1) [OF sim])
  then show ?thesis using r simD(4) [OF sim] chain_sorted [OF ok] unfolding chain_ok_def by blast
qed

text \<open>A run for the witness: thread 0 inserts while thread 1 has begun to look for the same key.\<close>

definition sampleKey :: UserSessionKey where
  "sampleKey = UserSessionKey 7 70"

definition oneNode :: "u64 \<Rightarrow> u64 \<Rightarrow> u64 \<Rightarrow> list_pc \<Rightarrow> list_pc \<Rightarrow> list_state" where
  "oneNode x y n pc0 pc1 =
     \<lparr>nodes = [16 \<mapsto> \<lparr>ndata = None, nnext = x\<rparr>, 32 \<mapsto> \<lparr>ndata = Some sampleKey, nnext = y\<rparr>], headAddr = 16, counter = n,
      handed = [], lpc = (\<lambda>t. L_Idle)(0 := pc0, 1 := pc1)\<rparr>"

lemma oneNode_simps [simp]:
  "lpc (oneNode x y n p q) 0 = p" "lpc (oneNode x y n p q) (Suc 0) = q" "headAddr (oneNode x y n p q) = 16"
  "nextOf (oneNode x y n p q) 16 = x" "nextOf (oneNode x y n p q) 32 = y" "counter (oneNode x y n p q) = n"
  "goto 0 p' (oneNode x y n p q) = oneNode x y n p' q" "goto (Suc 0) q' (oneNode x y n p q) = oneNode x y n p q'"
  "setNext 16 x' (oneNode x y n p q) = oneNode x' y n p q" "setNext 32 y' (oneNode x y n p q) = oneNode x y' n p q"
  "oneNode x y n p q\<lparr>counter := n'\<rparr> = oneNode x y n' p q"
  by (simp_all add: oneNode_def nextOf_def goto_def setNext_def fun_eq_iff)

lemma sample_run:
  "list_run 16 [Invoke 0 (Op_Insert sampleKey), Invoke 1 (Op_Find sampleKey), Respond 0 (Ret_bool True)]
    (oneNode 32 0 1 L_Idle (L_Start (C_Find sampleKey)))"
proof -
  let ?c = "C_Emplace sampleKey 32" and ?find = "L_Start (C_Find sampleKey)"
  have "list_run 16 [Invoke 0 (Op_Insert sampleKey)] (oneNode 0 0 0 (L_Start ?c) L_Idle)"
    using list_run.list_next [OF list_run.list_begin list_step.call_insert [of "list_start 16" 0 32 sampleKey]]
    by (simp add: list_start_def oneNode_def goto_def fun_upd_idem)
  from list_run.list_next [OF this list_step.call_find [of _ 1 sampleKey]]
  have r: "list_run 16 [Invoke 0 (Op_Insert sampleKey), Invoke 1 (Op_Find sampleKey)] (oneNode 0 0 0 (L_Start ?c) ?find)"
    by simp
  from list_run.list_next [OF r list_step.try_again [of _ 0 ?c]]
  have "list_run 16 [Invoke 0 (Op_Insert sampleKey), Invoke 1 (Op_Find sampleKey)] (oneNode 0 0 0 (L_Mark ?c 16 0) ?find)"
    by simp
  from list_run.list_next [OF this list_step.mark_end [of _ 0 ?c 16]]
  have "list_run 16 [Invoke 0 (Op_Insert sampleKey), Invoke 1 (Op_Find sampleKey)] (oneNode 0 0 0 (L_Store sampleKey 32 16 0) ?find)"
    by simp
  from list_run.list_next [OF this list_step.store [of _ 0 sampleKey 32 16 0]]
  have "list_run 16 [Invoke 0 (Op_Insert sampleKey), Invoke 1 (Op_Find sampleKey)] (oneNode 0 0 0 (L_Link sampleKey 32 16 0) ?find)"
    by simp
  from list_run.list_next [OF this list_step.link_ok [of _ 0 sampleKey 32 16 0]]
  have "list_run 16 [Invoke 0 (Op_Insert sampleKey), Invoke 1 (Op_Find sampleKey)] (oneNode 32 0 0 L_Add ?find)"
    by simp
  from list_run.list_next [OF this list_step.add [of _ 0]]
  have "list_run 16 [Invoke 0 (Op_Insert sampleKey), Invoke 1 (Op_Find sampleKey)] (oneNode 32 0 1 (L_Return (Ret_bool True)) ?find)"
    by simp
  from list_run.list_next [OF this list_step.return [of _ 0 "Ret_bool True"]]
  show ?thesis by simp
qed

theorem list_is_linearizable_witness:
  "\<exists>spec. spec_run [Invoke 0 (Op_Insert sampleKey), Invoke 1 (Op_Find sampleKey), Respond 0 (Ret_bool True)] spec"
  using list_is_linearizable [OF _ _ sample_run] by auto

end
