(* ===== verification/List_Quiescent.thy ===== *)
theory List_Quiescent
  imports List_Linear
begin

text \<open>
  What is left of the lock-free list when the threads have returned: every node that was marked has been
  unlinked and handed to the reclaimer once, and the counter is the number of entries.
\<close>

section \<open>Duties\<close>

text \<open>A thread that has marked a node has to see it unlinked, by itself or by another.\<close>

fun callDuty :: "search_call \<Rightarrow> (u64 \<times> UserSessionKey) option" where
  "callDuty (C_Clean d a) = Some (a, d)"
| "callDuty c = None"

fun duty :: "list_pc \<Rightarrow> (u64 \<times> UserSessionKey) option" where
  "duty (L_Start c) = callDuty c"
| "duty (L_Mark c prev cur) = callDuty c"
| "duty (L_Next c prev cur) = callDuty c"
| "duty (L_Help c prev cur nxt) = callDuty c"
| "duty (L_Sub c prev cur) = callDuty c"
| "duty (L_Check c prev cur nxt) = callDuty c"
| "duty (L_Unlink d prev cur nxt) = Some (cur, d)"
| "duty pc = None"

text \<open>What the counter is ahead of the chain because of a thread.\<close>

fun weight :: "list_pc \<Rightarrow> u64" where
  "weight L_Add = - 1"
| "weight (L_Sub c prev cur) = 1"
| "weight L_SubDone = 1"
| "weight pc = 0"

definition duties_ok :: "list_state \<Rightarrow> u64 list \<Rightarrow> bool" where
  "duties_ok s xs \<longleftrightarrow>
     (\<forall>t a d. duty (lpc s t) = Some (a, d) \<longrightarrow> node_ok s xs a \<and> odd (nextOf s a) \<and> keyOf s a = userKey d)
   \<and> (\<forall>t c prev cur nxt a d. lpc s t = L_Check c prev cur nxt \<longrightarrow> callDuty c = Some (a, d) \<longrightarrow> cur \<noteq> a)"

definition covered :: "list_state \<Rightarrow> u64 list \<Rightarrow> bool" where
  "covered s xs \<longleftrightarrow> (\<forall>a \<in> set xs. odd (nextOf s a) \<longrightarrow> (\<exists>t d. duty (lpc s t) = Some (a, d)))"

definition counted :: "list_state \<Rightarrow> u64 list \<Rightarrow> bool" where
  "counted s xs \<longleftrightarrow> (\<exists>A. finite A \<and> (\<forall>t. t \<notin> A \<longrightarrow> lpc s t = L_Idle)
     \<and> counter s = of_nat (length xs) + (\<Sum>t \<in> A. weight (lpc s t)))"

definition tidy :: "list_state \<Rightarrow> u64 list \<Rightarrow> bool" where
  "tidy s xs \<longleftrightarrow> duties_ok s xs \<and> covered s xs \<and> counted s xs"

section \<open>The shape of a step\<close>

lemma counted_step:
  assumes c: "counted s xs" and pcs: "lpc s' = (lpc s)(t := pc)"
    and n: "counter s' + of_nat (length xs) + weight (lpc s t) = counter s + of_nat (length xs') + weight pc"
  shows "counted s' xs'"
proof -
  obtain A where A: "finite A" "\<forall>u. u \<notin> A \<longrightarrow> lpc s u = L_Idle"
      "counter s = of_nat (length xs) + (\<Sum>u \<in> A. weight (lpc s u))"
    using c unfolding counted_def by blast
  let ?w = "\<lambda>u. weight (lpc s u)"
  have "(\<Sum>u \<in> A. ?w u) = (\<Sum>u \<in> insert t A. ?w u)"
    using A by (cases "t \<in> A") (simp_all add: insert_absorb)
  also have "\<dots> = ?w t + (\<Sum>u \<in> A - {t}. ?w u)" using A(1) by (simp add: sum.insert_remove)
  finally have old: "counter s = of_nat (length xs) + ?w t + (\<Sum>u \<in> A - {t}. ?w u)" using A(3) by simp
  have "(\<Sum>u \<in> insert t A. weight (lpc s' u)) = weight pc + (\<Sum>u \<in> A - {t}. weight (lpc s' u))"
    using A(1) pcs by (simp add: sum.insert_remove)
  also have "(\<Sum>u \<in> A - {t}. weight (lpc s' u)) = (\<Sum>u \<in> A - {t}. ?w u)" using pcs by (intro sum.cong) auto
  finally have new: "(\<Sum>u \<in> insert t A. weight (lpc s' u)) = weight pc + (\<Sum>u \<in> A - {t}. ?w u)" .
  have "counter s' = of_nat (length xs') + (\<Sum>u \<in> insert t A. weight (lpc s' u))"
    using n unfolding old new by (simp add: algebra_simps)
  moreover have "finite (insert t A)" "\<forall>u. u \<notin> insert t A \<longrightarrow> lpc s' u = L_Idle" using A pcs by simp_all
  ultimately show ?thesis unfolding counted_def by blast
qed

lemma tidy_stepI:
  assumes tidy: "tidy s xs" and ev: "evolves s xs s' xs'" and pcs: "lpc s' = (lpc s)(t := pc)"
    and mine: "\<And>a d. duty pc = Some (a, d) \<Longrightarrow>
        duty (lpc s t) = Some (a, d) \<or> node_ok s' xs' a \<and> odd (nextOf s' a) \<and> keyOf s' a = userKey d"
    and check: "\<And>c prev cur nxt a d. pc = L_Check c prev cur nxt \<Longrightarrow> callDuty c = Some (a, d) \<Longrightarrow> cur \<noteq> a"
    and marked: "\<And>a. a \<in> set xs' \<Longrightarrow> odd (nextOf s' a) \<Longrightarrow> a \<in> set xs \<and> odd (nextOf s a) \<or> (\<exists>d. duty pc = Some (a, d))"
    and freed: "\<And>a d. duty (lpc s t) = Some (a, d) \<Longrightarrow> a \<in> set xs' \<Longrightarrow> \<exists>d'. duty pc = Some (a, d')"
    and n: "counter s' + of_nat (length xs) + weight (lpc s t) = counter s + of_nat (length xs') + weight pc"
  shows "tidy s' xs'"
proof -
  have d: "duties_ok s xs" and c: "covered s xs" and k: "counted s xs" using tidy by (simp_all add: tidy_def)
  have keep: "node_ok s' xs' a \<and> odd (nextOf s' a) \<and> keyOf s' a = userKey e" if "duty (lpc s u) = Some (a, e)" for u a e
  proof -
    have "node_ok s xs a" "odd (nextOf s a)" "keyOf s a = userKey e" using d that unfolding duties_ok_def by blast+
    then show ?thesis using evolves_local(2,4) [OF ev] ev by (auto simp: evolves_def node_ok_def)
  qed
  have "duties_ok s' xs'"
    unfolding duties_ok_def
  proof (intro conjI allI impI)
    fix u a e
    assume "duty (lpc s' u) = Some (a, e)"
    then have "node_ok s' xs' a \<and> odd (nextOf s' a) \<and> keyOf s' a = userKey e"
      using keep mine [of a e] pcs by (cases "u = t") auto
    then show "node_ok s' xs' a" "odd (nextOf s' a)" "keyOf s' a = userKey e" by simp_all
  next
    fix u q prev cur nxt a e
    assume l: "lpc s' u = L_Check q prev cur nxt" and q: "callDuty q = Some (a, e)"
    show "cur \<noteq> a"
    proof (cases "u = t")
      case True
      then show ?thesis using check [OF _ q] l pcs by simp
    next
      case False
      then have "lpc s u = L_Check q prev cur nxt" using l pcs by simp
      then show ?thesis using d q unfolding duties_ok_def by blast
    qed
  qed
  moreover have "covered s' xs'"
    unfolding covered_def
  proof (intro ballI impI)
    fix a
    assume a: "a \<in> set xs'" "odd (nextOf s' a)"
    consider "\<exists>e. duty pc = Some (a, e)" | u e where "duty (lpc s u) = Some (a, e)"
      using marked [OF a] c unfolding covered_def by blast
    then show "\<exists>u e. duty (lpc s' u) = Some (a, e)"
    proof cases
      case 1
      then show ?thesis using pcs by (metis fun_upd_same)
    next
      case 2
      then show ?thesis using freed [of a] a(1) pcs by (cases "u = t") (metis fun_upd_same, metis fun_upd_other)
    qed
  qed
  ultimately show ?thesis using counted_step [OF k pcs n] by (simp add: tidy_def)
qed

text \<open>The chain is determined by the links.\<close>

lemma path_unique: "path h p xs \<Longrightarrow> path h p ys \<Longrightarrow> xs = ys"
proof (induction xs arbitrary: p ys)
  case Nil
  then show ?case by (cases ys) auto
next
  case (Cons a xs)
  then show ?case by (cases ys) auto
qed

lemma chain_unique: "chain_ok s xs \<Longrightarrow> chain_ok s ys \<Longrightarrow> xs = ys"
  using path_unique [of "nodes s" "headAddr s" "headAddr s # xs" "headAddr s # ys"] by (simp add: chain_ok_def)

lemma tidyD:
  assumes "tidy s xs"
  shows "duty (lpc s t) = Some (a, d) \<Longrightarrow> node_ok s xs a \<and> odd (nextOf s a) \<and> keyOf s a = userKey d"
    and "lpc s t = L_Check c prev cur nxt \<Longrightarrow> callDuty c = Some (a, d) \<Longrightarrow> cur \<noteq> a"
  using assms unfolding tidy_def duties_ok_def by blast+

lemma evolves_links: "same_links s s' \<Longrightarrow> evolves s xs s' xs"
  by (simp add: evolves_def same_links_simps) (simp add: same_links_def)

lemma tidy_local:
  assumes tidy: "tidy s xs" and same: "same_links s s'" and pcs: "lpc s' = (lpc s)(t := pc)"
    and duty: "\<And>a d. duty (lpc s t) = Some (a, d) \<Longrightarrow> a \<in> set xs \<Longrightarrow> duty pc = Some (a, d)"
      "\<And>a d. duty pc = Some (a, d) \<Longrightarrow> duty (lpc s t) = Some (a, d)"
    and check: "\<And>c prev cur nxt a d. pc = L_Check c prev cur nxt \<Longrightarrow> callDuty c = Some (a, d) \<Longrightarrow> cur \<noteq> a"
    and n: "counter s' + weight (lpc s t) = counter s + weight pc"
  shows "tidy s' xs"
proof (rule tidy_stepI [OF tidy _ pcs])
  note eqs = same_links_simps [OF same]
  show "evolves s xs s' xs" by (rule evolves_links [OF same])
  show "counter s' + of_nat (length xs) + weight (lpc s t) = counter s + of_nat (length xs) + weight pc"
    using n by (simp add: algebra_simps)
  show "duty (lpc s t) = Some (a, d) \<or> node_ok s' xs a \<and> odd (nextOf s' a) \<and> keyOf s' a = userKey d"
    if "duty pc = Some (a, d)" for a d using duty(2) [OF that] by blast
  show "a \<in> set xs \<and> odd (nextOf s a) \<or> (\<exists>d. duty pc = Some (a, d))" if "a \<in> set xs" "odd (nextOf s' a)" for a
    using that by (simp add: eqs)
  show "\<exists>d'. duty pc = Some (a, d')" if "duty (lpc s t) = Some (a, d)" "a \<in> set xs" for a d
    using duty(1) [OF that] by blast
qed (rule check)

text \<open>A search that ends has passed the place of the node that its thread has to see unlinked.\<close>

lemma cleaned:
  assumes sim: "sim s xs a" and tidy: "tidy s xs" and own: "duty (lpc s t) = callDuty c"
    and prev: "prev_ok s xs (callData c) prev" and cur: "link_end s xs cur" "nextOf s prev = cur"
    and key: "cur = 0 \<or> userKey (callData c) \<le> keyOf s cur"
    and other: "\<And>b d. callDuty c = Some (b, d) \<Longrightarrow> cur \<noteq> b"
    and c: "callDuty c = Some (b, d)"
  shows "b \<notin> set xs"
proof
  assume b: "b \<in> set xs"
  have ok: "chain_ok s xs" by (rule simD(1) [OF sim])
  have d: "callData c = d" using c by (cases c) simp_all
  have kb: "keyOf s b = userKey d" using tidyD(1) [OF tidy, of t b d] own c by simp
  have even: "even cur" by (rule link_end_even [OF ok cur(1)])
  show False
  proof (cases "cur = 0 \<or> userKey d < keyOf s cur")
    case True
    then show ?thesis using absent_all [OF ok prev even cur(2) _ b] kb d by simp
  next
    case False
    then have "keyOf s cur = keyOf s b" "cur \<noteq> 0" using key kb d by auto
    moreover have "cur \<in> set xs"
    proof -
      obtain as bs where split: "headAddr s # xs = as @ prev # bs" "cur = firstOf bs"
        using chain_split [OF ok, of prev] prev even cur(2) by (auto simp: prev_ok_def)
      then show ?thesis using \<open>cur \<noteq> 0\<close> by (cases bs; cases as) auto
    qed
    ultimately show ?thesis using chain_key_inj [OF ok _ b] other [OF c] by blast
  qed
qed

lemma searched_duty: "duty (searched c prev cur r) = None" "weight (searched c prev cur r) = 0"
  by (cases c; cases r; simp)+

lemma searched_nocheck: "searched c prev cur r \<noteq> L_Check c' p q n"
  by (cases c; cases r) simp_all

section \<open>Every step keeps the list tidy\<close>

lemma counter_simps [simp]:
  "counter (goto t pc s) = counter s" "counter (hand a s) = counter s" "counter (setNext p x s) = counter s"
  by (simp_all add: goto_def hand_def setNext_def)

text \<open>A thread goes on with the same duty.\<close>

lemma tidy_goto:
  assumes "tidy s xs" and "duty pc = duty (lpc s t)"
    and "\<And>c prev cur nxt a d. pc = L_Check c prev cur nxt \<Longrightarrow> callDuty c = Some (a, d) \<Longrightarrow> cur \<noteq> a"
  shows "weight (lpc s t) = weight pc \<Longrightarrow> tidy (goto t pc s) xs"
    and "n + weight (lpc s t) = counter s + weight pc \<Longrightarrow> tidy (goto t pc (s\<lparr>counter := n\<rparr>)) xs"
proof -
  have check: "cur \<noteq> a" if "pc = L_Check c prev cur nxt" "callDuty c = Some (a, d)" for c prev cur nxt a d
    by (rule assms(3) [OF that])
  show "tidy (goto t pc s) xs" if "weight (lpc s t) = weight pc"
    by (rule tidy_local [OF assms(1), where t = t and pc = pc]) (use assms(2) that check in blast | use assms(2) that in simp)+
  show "tidy (goto t pc (s\<lparr>counter := n\<rparr>)) xs" if "n + weight (lpc s t) = counter s + weight pc"
    by (rule tidy_local [OF assms(1), where t = t and pc = pc]) (use assms(2) that check in blast | use assms(2) that in simp)+
qed

lemma tidy_kept:
  assumes "chain_ok s xs" and "tidy s xs" and "duty pc = duty (lpc s t)"
    and "\<And>c prev cur nxt a d. pc = L_Check c prev cur nxt \<Longrightarrow> callDuty c = Some (a, d) \<Longrightarrow> cur \<noteq> a"
  shows "weight (lpc s t) = weight pc \<Longrightarrow> \<exists>xs'. chain_ok (goto t pc s) xs' \<and> tidy (goto t pc s) xs' \<and> evolves s xs (goto t pc s) xs'"
    and "n + weight (lpc s t) = counter s + weight pc \<Longrightarrow>
      \<exists>xs'. chain_ok (goto t pc (s\<lparr>counter := n\<rparr>)) xs' \<and> tidy (goto t pc (s\<lparr>counter := n\<rparr>)) xs' \<and> evolves s xs (goto t pc (s\<lparr>counter := n\<rparr>)) xs'"
proof -
  have ok: "chain_ok (goto t pc s) xs" "chain_ok (goto t pc (s\<lparr>counter := n\<rparr>)) xs"
    using assms(1) same_links_simps(6) [OF same_links_goto(1)] same_links_simps(6) [OF same_links_goto(2)] by simp_all
  show "\<exists>xs'. chain_ok (goto t pc s) xs' \<and> tidy (goto t pc s) xs' \<and> evolves s xs (goto t pc s) xs'" if "weight (lpc s t) = weight pc"
    using ok(1) tidy_goto(1) [OF assms(2,3) _ that] assms(4) evolves_links [OF same_links_goto(1)] by blast
  show "\<exists>xs'. chain_ok (goto t pc (s\<lparr>counter := n\<rparr>)) xs' \<and> tidy (goto t pc (s\<lparr>counter := n\<rparr>)) xs' \<and> evolves s xs (goto t pc (s\<lparr>counter := n\<rparr>)) xs'"
    if "n + weight (lpc s t) = counter s + weight pc"
    using ok(2) tidy_goto(2) [OF assms(2,3) _ that] assms(4) evolves_links [OF same_links_goto(2)] by blast
qed

text \<open>\<open>Search\<close> returns.\<close>

lemma tidy_searched:
  assumes sim: "sim s xs a" and tidy: "tidy s xs" and pc: "duty (lpc s t) = callDuty c" "weight (lpc s t) = 0"
    and prev: "prev_ok s xs (callData c) prev" and cur: "link_end s xs cur" "nextOf s prev = cur"
    and key: "cur = 0 \<or> userKey (callData c) \<le> keyOf s cur"
    and other: "\<And>b d. callDuty c = Some (b, d) \<Longrightarrow> cur \<noteq> b"
  shows "tidy (goto t (searched c prev cur r) s) xs"
proof (rule tidy_local [OF tidy])
  show "duty (searched c prev cur r) = Some (b, d)" if b: "duty (lpc s t) = Some (b, d)" "b \<in> set xs" for b d
  proof -
    have "callDuty c = Some (b, d)" using b(1) pc(1) by simp
    then have "b \<notin> set xs" by (rule cleaned [OF sim tidy pc(1) prev cur key, rotated]) (rule other)
    then show ?thesis using b(2) by simp
  qed
qed (use searched_duty searched_nocheck pc in \<open>simp_all\<close>)

lemma evolves_same: "evolves s xs s' xs' \<Longrightarrow> same_links s' s'' \<Longrightarrow> evolves s xs s'' xs'"
  by (auto simp: evolves_def same_links_def nextOf_def public_def)

text \<open>A node is unlinked.\<close>

lemma length_removeAll_distinct: "distinct xs \<Longrightarrow> a \<in> set xs \<Longrightarrow> length xs = Suc (length (removeAll a xs))"
  by (simp add: distinct_remove1_removeAll [symmetric] length_remove1) (metis Suc_pred length_pos_if_in_set)

lemma tidy_unlink:
  assumes sim: "sim s xs a" and tidy: "tidy s xs" and prev: "prev \<in> public s xs" and cur: "node_ok s xs cur" "odd (nextOf s cur)"
    and link: "nextOf s prev = cur" and x: "x = unmark (nextOf s cur)"
    and duty: "\<And>b d. duty pc = Some (b, d) \<Longrightarrow> duty (lpc s t) = Some (b, d)"
      "\<And>b d. duty (lpc s t) = Some (b, d) \<Longrightarrow> b \<noteq> cur \<Longrightarrow> duty pc = Some (b, d)"
    and pc: "\<And>c p q n. pc \<noteq> L_Check c p q n" "weight (lpc s t) = 0" "weight pc = 1"
  defines "s' \<equiv> goto t pc (hand cur (setNext prev x s))"
  shows "\<exists>xs'. chain_ok s' xs' \<and> tidy s' xs' \<and> evolves s xs s' xs'"
proof -
  let ?s = "hand cur (setNext prev x s)" and ?xs = "removeAll cur xs"
  have ok: "chain_ok s xs" by (rule simD(1) [OF sim])
  note u = unlink_chain [OF ok prev cur link, folded x]
  have same: "same_links ?s s'" by (simp add: s'_def)
  note eqs = same_links_simps [OF same]
  have ev: "evolves s xs s' ?xs" by (rule evolves_same [OF u(2) same])
  have length: "length xs = Suc (length ?xs)"
    using length_removeAll_distinct [OF _ u(6)] chain_distinct [OF ok] by simp
  have "tidy s' ?xs"
  proof (rule tidy_stepI [OF tidy ev, where t = t and pc = pc])
    show "b \<in> set xs \<and> odd (nextOf s b) \<or> (\<exists>d. duty pc = Some (b, d))" if "b \<in> set ?xs" "odd (nextOf s' b)" for b
      using that by (simp add: s'_def x split: if_splits)
    show "\<exists>d'. duty pc = Some (b, d')" if "duty (lpc s t) = Some (b, d)" "b \<in> set ?xs" for b d
      using duty(2) [OF that(1)] that(2) by auto
    show "counter s' + of_nat (length xs) + weight (lpc s t) = counter s + of_nat (length ?xs) + weight pc"
      using pc(2,3) length by (simp add: s'_def)
  qed (use duty(1) pc(1) in \<open>auto simp: s'_def\<close>)
  then show ?thesis using u(1) eqs(6) ev by auto
qed

text \<open>A node that is not public is made or changed.\<close>

lemma tidy_private:
  assumes sim: "sim s xs a" and tidy: "tidy s xs" and same: "headAddr s' = headAddr s" "handed s' = handed s"
    and nodes: "\<And>b. b \<in> public s xs \<Longrightarrow> nodes s' b = nodes s b" and pcs: "lpc s' = (lpc s)(t := pc)"
    and pc: "duty (lpc s t) = None" "duty pc = None" "\<And>c p q n. pc \<noteq> L_Check c p q n" "weight (lpc s t) = 0" "weight pc = 0"
    and n: "counter s' = counter s"
  shows "tidy s' xs"
proof -
  note p = private_change [OF simD(1) [OF sim] same nodes]
  show ?thesis
  proof (rule tidy_stepI [OF tidy p(2) pcs])
    show "b \<in> set xs \<and> odd (nextOf s b) \<or> (\<exists>d. duty pc = Some (b, d))" if "b \<in> set xs" "odd (nextOf s' b)" for b
      using that nodes [of b] by (simp add: public_def nextOf_def)
  qed (use pc n in simp_all)
qed

text \<open>A node is marked, and whoever marked it has to see it unlinked.\<close>

lemma tidy_tag:
  assumes sim: "sim s xs a" and tidy: "tidy s xs" and pc: "lpc s t = L_Tag d prev cur nxt" and link: "nextOf s cur = nxt"
  defines "s' \<equiv> goto t (L_Unlink d prev cur nxt) (setNext cur (get_marked_reference LONG_BIT nxt) s)"
  shows "chain_ok s' xs \<and> tidy s' xs \<and> evolves s xs s' xs"
proof -
  let ?s = "setNext cur (get_marked_reference LONG_BIT nxt) s"
  have at: "node_ok s xs cur" "keyOf s cur = userKey d" "even nxt" using simD(3) [OF sim, of t] pc by simp_all
  have plain: "even (nextOf s cur)" using at(3) link by simp
  note g = tag_chain [OF simD(1) [OF sim] at(1) plain, unfolded link]
  have same: "same_links ?s s'" by (simp add: s'_def)
  have ev: "evolves s xs s' xs" by (rule evolves_same [OF g(2) same])
  have "odd (nextOf s' cur)" using mark_roundtrip [OF at(3)] by (simp add: s'_def)
  moreover have "node_ok s' xs cur" "keyOf s' cur = userKey d" using at(1,2) evolves_local(2) [OF ev] by (simp_all add: s'_def)
  ultimately have "tidy s' xs"
    by (intro tidy_stepI [OF tidy ev, where t = t and pc = "L_Unlink d prev cur nxt"])
       (use pc in \<open>auto simp: s'_def split: if_splits\<close>)
  then show ?thesis using g(1) same_links_simps(6) [OF same] ev by simp
qed

text \<open>A new node is linked.\<close>

lemma tidy_link:
  assumes sim: "sim s xs a" and tidy: "tidy s xs" and pc: "lpc s t = L_Link d b prev cur" and link: "nextOf s prev = cur"
  defines "s' \<equiv> goto t L_Add (setNext prev b s)"
  shows "\<exists>xs'. chain_ok s' xs' \<and> tidy s' xs' \<and> evolves s xs s' xs'"
proof -
  have at: "prev_ok s xs d prev" "link_end s xs cur" "cur = 0 \<or> userKey d < keyOf s cur"
    using simD(3) [OF sim, of t] pc by simp_all
  have ok: "chain_ok s xs" by (rule simD(1) [OF sim])
  have even: "even cur" by (rule link_end_even [OF ok at(2)])
  have own: "ownNode (lpc s t) = Some (b, d)" using pc by simp
  note b = private_kept [OF sim own]
  have nb: "nextOf s b = cur" using simD(2) [OF sim] pc unfolding own_ok_def by blast
  then have "nodes s b = Some \<lparr>ndata = Some d, nnext = cur\<rparr>" using b(4) by (auto simp: nextOf_def)
  then obtain xs' where l: "chain_ok (setNext prev b s) xs'" "evolves s xs (setNext prev b s) xs'"
      "set xs' = insert b (set xs)" "length xs' = Suc (length xs)"
    using link_chain [OF ok at(1) link even at(3) b(1-3)] by blast
  have same: "same_links (setNext prev b s) s'" by (simp add: s'_def)
  have ev: "evolves s xs s' xs'" by (rule evolves_same [OF l(2) same])
  have "tidy s' xs'"
  proof (rule tidy_stepI [OF tidy ev, where t = t and pc = L_Add])
    show "c \<in> set xs \<and> odd (nextOf s c) \<or> (\<exists>e. duty L_Add = Some (c, e))" if "c \<in> set xs'" "odd (nextOf s' c)" for c
      using that b(3) nb even l(3) by (auto simp: s'_def split: if_splits)
  qed (use pc l(4) in \<open>simp_all add: s'_def\<close>)
  then show ?thesis using l(1) same_links_simps(6) [OF same] ev by auto
qed

lemma tidy_search_step:
  assumes sim: "sim s xs a" and tidy: "tidy s xs" and step: "list_step t s e s'" and pc: "inSearch (lpc s t)"
  shows "\<exists>xs'. chain_ok s' xs' \<and> tidy s' xs' \<and> evolves s xs s' xs'"
proof -
  have ok: "chain_ok s xs" by (rule simD(1) [OF sim])
  note here = simD(3) [OF sim, of t] and mine = tidyD(1) [OF tidy, of t]
  have stay: ?thesis if "tidy s' xs" "same_links s s'" using that ok same_links_simps(6) evolves_links by auto
  show ?thesis
    using step
  proof cases
    case (mark_end c prev)
    then show ?thesis
      using here mine node_ok_even [OF ok] by (intro stay) (auto intro!: tidy_searched [OF sim tidy] simp: link_end_def)
  next
    case (next_plain c prev cur)
    then show ?thesis using mine by (auto intro!: tidy_kept [OF ok tidy])
  next
    case (help_ok c prev cur nxt)
    then show ?thesis using here by (auto intro!: tidy_unlink [OF sim tidy] simp: prev_ok_def)
  next
    case (check_done c prev cur nxt)
    have key: "userKey (callData c) \<le> keyOf s cur" using check_done by (simp add: key_order keyOf_def)
    have at: "prev_ok s xs (callData c) prev" "link_end s xs cur" using here check_done by (simp_all add: link_end_def)
    have "tidy (goto t (searched c prev cur r) s) xs" for r
    proof (rule tidy_searched [OF sim tidy _ _ at check_done(4)])
      show "cur \<noteq> b" if "callDuty c = Some (b, d)" for b d by (rule tidyD(2) [OF tidy check_done(3) that])
    qed (use check_done key in simp_all)
    then show ?thesis using check_done(2) by (intro stay) simp_all
  qed (use pc in \<open>auto intro!: tidy_kept [OF ok tidy]\<close>)
qed

lemma tidy_step:
  assumes sim: "sim s xs a" and tidy: "tidy s xs" and step: "list_step t s e s'"
  shows "\<exists>xs'. chain_ok s' xs' \<and> tidy s' xs' \<and> evolves s xs s' xs'"
proof (cases "inSearch (lpc s t)")
  case True
  then show ?thesis by (rule tidy_search_step [OF sim tidy step])
next
  case False
  have ok: "chain_ok s xs" by (rule simD(1) [OF sim])
  note here = simD(3) [OF sim, of t]
  show ?thesis
    using step
  proof cases
    case (call_insert b d)
    have pub: "nodes s' c = nodes s c" if "c \<in> public s xs" for c
      using that public_node [OF ok that] call_insert by auto
    have "chain_ok s' xs" "evolves s xs s' xs" by (rule private_change(1,2) [OF ok _ _ pub]; use call_insert in simp)+
    moreover have "tidy s' xs"
      by (rule tidy_private [OF sim tidy _ _ pub, where t = t and pc = "L_Start (C_Emplace d b)"]) (use call_insert in simp_all)
    ultimately show ?thesis by blast
  next
    case (store d b prev cur)
    have "b \<notin> public s xs" using private_kept(1) [OF sim, of t b d] store by simp
    then have pub: "nodes s' c = nodes s c" if "c \<in> public s xs" for c
      using that store nodes_setNext [of c b] by auto
    have "chain_ok s' xs" "evolves s xs s' xs" by (rule private_change(1,2) [OF ok _ _ pub]; use store in simp)+
    moreover have "tidy s' xs"
      by (rule tidy_private [OF sim tidy _ _ pub, where t = t and pc = "L_Link d b prev cur"]) (use store in simp_all)
    ultimately show ?thesis by blast
  next
    case (link_ok d b prev cur)
    then show ?thesis using tidy_link [OF sim tidy] by simp
  next
    case (tag_ok d prev cur nxt)
    then show ?thesis using tidy_tag [OF sim tidy tag_ok(3,4)] by blast
  next
    case (unlink_ok d prev cur nxt)
    then show ?thesis
      using here mark_roundtrip [of nxt] by (auto intro!: tidy_unlink [OF sim tidy] simp: prev_ok_def)
  qed (use False in \<open>auto intro!: tidy_kept [OF ok tidy]\<close>)
qed

lemma tidy_run:
  assumes "a \<noteq> 0" and "even a" and "list_run a es s"
  shows "\<exists>spec xs. spec_run es spec \<and> sim s xs spec \<and> tidy s xs"
proof -
  have "\<exists>xs. chain_ok s xs \<and> tidy s xs"
    using assms(3)
  proof induction
    case list_begin
    have "tidy (list_start a) []"
      by (auto simp: tidy_def duties_ok_def covered_def counted_def list_start_def intro: exI [of _ "{}"])
    then show ?case using simD(1) [OF sim_start [OF assms(1,2)]] by blast
  next
    case (list_next es s t e s')
    then obtain xs where xs: "chain_ok s xs" "tidy s xs" by blast
    obtain spec ys where "sim s ys spec" using sim_run [OF assms(1,2) list_next(1)] by blast
    then have "sim s xs spec" using chain_unique [OF xs(1)] simD(1) by metis
    then show ?case using tidy_step [OF _ xs(2) list_next(2)] by blast
  qed
  moreover obtain spec xs where "spec_run es spec" "sim s xs spec" using sim_run [OF assms] by blast
  ultimately show ?thesis using chain_unique simD(1) by metis
qed

section \<open>Properties\<close>

lemma idle_list:
  assumes "tidy s xs" and idle: "\<forall>t. lpc s t = L_Idle"
  shows "b \<in> set xs \<Longrightarrow> even (nextOf s b)" and "counter s = of_nat (length xs)"
  using assms by (auto simp: tidy_def covered_def counted_def)

lemma card_tableOf:
  assumes "chain_ok s xs" and "\<And>b. b \<in> set xs \<Longrightarrow> even (nextOf s b)"
  shows "card (dom (tableOf s xs)) = length xs"
proof -
  have "filter (\<lambda>b. even (nextOf s b)) xs = xs" using assms(2) by (simp add: filter_id_conv)
  then have "dom (tableOf s xs) = set (map (keyOf s) xs)" by (simp add: tableOf_def dom_map_of_conv_image_fst image_image)
  moreover have "distinct (map (keyOf s) xs)" by (rule sorted_wrt_inj [OF chain_sorted [OF assms(1)]])
  ultimately show ?thesis using distinct_card [of "map (keyOf s) xs"] by simp
qed

text \<open>A node that was linked once is in the chain or has been handed over.\<close>

lemma linked_once:
  assumes "a \<noteq> 0" and "even a" and "list_run a es s" and "chain_ok s xs" and "list_steps s es' s'"
  shows "\<exists>xs'. chain_ok s' xs' \<and> headAddr s' = headAddr s \<and> public s xs \<subseteq> public s' xs'"
  using assms(5)
proof induction
  case no_step
  then show ?case using assms(4) by blast
next
  case (more_step es1 s1 t e s2)
  then obtain xs1 where xs1: "chain_ok s1 xs1" "headAddr s1 = headAddr s" "public s xs \<subseteq> public s1 xs1" by blast
  obtain spec ys where ys: "sim s1 ys spec" "tidy s1 ys"
    using tidy_run [OF assms(1,2) list_run_steps [OF more_step(1) assms(3)]] by blast
  have "ys = xs1" using chain_unique [OF simD(1) [OF ys(1)] xs1(1)] .
  then obtain xs2 where "chain_ok s2 xs2" "evolves s1 xs1 s2 xs2" using tidy_step [OF ys more_step(2)] by blast
  then show ?case using xs1(2,3) unfolding evolves_def by auto
qed

lemma count_distinct: "distinct xs \<Longrightarrow> count_list xs b = (if b \<in> set xs then 1 else 0)"
  by (induction xs) auto

text \<open>
  C9. When all threads have returned from their calls, whatever they did and in whatever order, the list is
  clean: no node of the chain that begins at the head is marked, the counter that \<open>size\<close> returns is the
  number of entries of the table (modulo the width of \<open>size_t\<close>), and of the nodes that were in the chain at
  any earlier moment \<open>s0\<close> of the run, each one is in the chain still or has been handed to the reclaimer,
  and that exactly once: no unlinked node is forgotten and none is handed over twice.
\<close>

theorem quiescent_list_is_clean:
  assumes "a \<noteq> 0" and "even a" and "list_run a es0 s0" and "path (nodes s0) (headAddr s0) (headAddr s0 # xs0)"
    and "list_steps s0 es1 s" and "\<forall>t. lpc s t = L_Idle"
  shows "\<exists>spec xs. spec_run (es0 @ es1) spec \<and> members spec = tableOf s xs \<and> path (nodes s) (headAddr s) (headAddr s # xs)
    \<and> (\<forall>b \<in> set xs. \<not> is_marked_reference LONG_BIT (nextOf s b)) \<and> counter s = of_nat (card (dom (members spec)))
    \<and> distinct (handed s) \<and> set (handed s) \<inter> set xs = {}
    \<and> (\<forall>b \<in> set xs0. count_list (handed s) b = (if b \<in> set xs then 0 else 1))"
proof -
  have run: "list_run a (es0 @ es1) s" by (rule list_run_steps [OF assms(5,3)])
  obtain spec xs where r: "spec_run (es0 @ es1) spec" and sim: "sim s xs spec" and tidy: "tidy s xs"
    using tidy_run [OF assms(1,2) run] by blast
  have ok: "chain_ok s xs" by (rule simD(1) [OF sim])
  obtain spec0 ys where "sim s0 ys spec0" using sim_run [OF assms(1-3)] by blast
  then have ok0: "chain_ok s0 xs0"
    using path_unique [OF assms(4), of "headAddr s0 # ys"] simD(1) unfolding chain_ok_def by blast
  obtain xs' where "chain_ok s xs'" "headAddr s = headAddr s0" "public s0 xs0 \<subseteq> public s xs'"
    using linked_once [OF assms(1-3) ok0 assms(5)] by blast
  then have kept: "b \<in> set xs \<union> set (handed s)" if "b \<in> set xs0" for b
    using that chain_unique [OF ok, of xs'] chain_head [OF ok0] by (auto simp: public_def)
  have hand: "distinct (handed s)" "set (handed s) \<inter> set xs = {}" using ok unfolding chain_ok_def by auto
  note idle = idle_list [OF tidy assms(6)]
  have "counter s = of_nat (card (dom (members spec)))"
    using idle(2) card_tableOf [OF ok idle(1)] simD(4) [OF sim] by simp
  moreover have "\<forall>b \<in> set xs. \<not> is_marked_reference LONG_BIT (nextOf s b)" using idle(1) by simp
  moreover have "path (nodes s) (headAddr s) (headAddr s # xs)" using ok unfolding chain_ok_def by auto
  moreover have "\<forall>b \<in> set xs0. count_list (handed s) b = (if b \<in> set xs then 0 else 1)"
    using kept hand by (auto simp: count_distinct)
  ultimately show ?thesis using r simD(4) [OF sim] hand by blast
qed

text \<open>
  In the run for the witness, the second thread finds the entry and returns as well; then the first one
  deletes it.
\<close>

lemma sample_run_idle:
  "list_run 16 [Invoke 0 (Op_Insert sampleKey), Invoke 1 (Op_Find sampleKey), Respond 0 (Ret_bool True),
      Respond 1 (Ret_found (Some sampleKey))] (oneNode 32 0 1 L_Idle L_Idle)"
proof -
  let ?c = "C_Find sampleKey"
  let ?es = "[Invoke 0 (Op_Insert sampleKey), Invoke 1 (Op_Find sampleKey), Respond 0 (Ret_bool True)]"
  have data: "dataOf (oneNode 32 0 1 p q) 32 = sampleKey" for p q by (simp add: oneNode_def dataOf_def)
  from list_run.list_next [OF sample_run list_step.try_again [of _ 1 ?c]]
  have "list_run 16 ?es (oneNode 32 0 1 L_Idle (L_Mark ?c 16 32))" by simp
  from list_run.list_next [OF this list_step.mark_next [of _ 1 ?c 16 32]]
  have "list_run 16 ?es (oneNode 32 0 1 L_Idle (L_Next ?c 16 32))" by simp
  from list_run.list_next [OF this list_step.next_plain [of _ 1 ?c 16 32]]
  have "list_run 16 ?es (oneNode 32 0 1 L_Idle (L_Check ?c 16 32 0))" by simp
  from list_run.list_next [OF this list_step.check_done [of _ 1 ?c 16 32 0]]
  have "list_run 16 ?es (oneNode 32 0 1 L_Idle (L_Return (Ret_found (Some sampleKey))))"
    by (simp add: data key_order)
  from list_run.list_next [OF this list_step.return [of _ 1 "Ret_found (Some sampleKey)"]]
  show ?thesis by simp
qed

lemma hand_oneNode:
  "goto 0 p' (hand 32 (oneNode x y n p q)) = hand 32 (oneNode x y n p' q)"
  "(hand 32 (oneNode x y n p q))\<lparr>counter := n'\<rparr> = hand 32 (oneNode x y n' p q)"
  by (simp_all add: oneNode_def goto_def hand_def fun_eq_iff)

lemma sample_delete:
  "list_steps (oneNode 32 0 1 L_Idle L_Idle) [Invoke 0 (Op_Delete sampleKey), Respond 0 (Ret_bool True)]
     (hand 32 (oneNode 0 1 0 L_Idle L_Idle))"
proof -
  let ?c = "C_Delete sampleKey" and ?es = "[Invoke 0 (Op_Delete sampleKey)]" and ?i = "oneNode 32 0 1 L_Idle L_Idle"
  have data: "dataOf (oneNode 32 0 1 p q) 32 = sampleKey" for p q by (simp add: oneNode_def dataOf_def)
  from more_step [OF no_step [of ?i] list_step.call_delete [of _ 0 sampleKey]]
  have "list_steps ?i ?es (oneNode 32 0 1 (L_Start ?c) L_Idle)" by simp
  from more_step [OF this list_step.try_again [of _ 0 ?c]]
  have "list_steps ?i ?es (oneNode 32 0 1 (L_Mark ?c 16 32) L_Idle)" by simp
  from more_step [OF this list_step.mark_next [of _ 0 ?c 16 32]]
  have "list_steps ?i ?es (oneNode 32 0 1 (L_Next ?c 16 32) L_Idle)" by simp
  from more_step [OF this list_step.next_plain [of _ 0 ?c 16 32]]
  have "list_steps ?i ?es (oneNode 32 0 1 (L_Check ?c 16 32 0) L_Idle)" by simp
  from more_step [OF this list_step.check_done [of _ 0 ?c 16 32 0]]
  have "list_steps ?i ?es (oneNode 32 0 1 (L_Load sampleKey 16 32) L_Idle)" by (simp add: data key_order)
  from more_step [OF this list_step.load_plain [of _ 0 sampleKey 16 32]]
  have "list_steps ?i ?es (oneNode 32 0 1 (L_Tag sampleKey 16 32 0) L_Idle)" by simp
  from more_step [OF this list_step.tag_ok [of _ 0 sampleKey 16 32 0]]
  have "list_steps ?i ?es (oneNode 32 1 1 (L_Unlink sampleKey 16 32 0) L_Idle)"
    by (simp add: get_marked_reference_def LONG_BIT_def)
  from more_step [OF this list_step.unlink_ok [of _ 0 sampleKey 16 32 0]]
  have "list_steps ?i ?es (hand 32 (oneNode 0 1 1 L_SubDone L_Idle))" by (simp add: hand_oneNode)
  from more_step [OF this list_step.sub_done [of _ 0]]
  have "list_steps ?i ?es (hand 32 (oneNode 0 1 0 (L_Return (Ret_bool True)) L_Idle))" by (simp add: hand_oneNode)
  from more_step [OF this list_step.return [of _ 0 "Ret_bool True"]]
  show ?thesis by (simp add: hand_oneNode)
qed

theorem quiescent_list_is_clean_witness:
  "\<exists>spec. spec_run [Invoke 0 (Op_Insert sampleKey), Invoke 1 (Op_Find sampleKey), Respond 0 (Ret_bool True),
      Respond 1 (Ret_found (Some sampleKey)), Invoke 0 (Op_Delete sampleKey), Respond 0 (Ret_bool True)] spec
    \<and> (0 :: u64) = of_nat (card (dom (members spec))) \<and> count_list (handed (hand 32 (oneNode 0 1 0 L_Idle L_Idle))) 32 = 1"
proof -
  let ?s = "hand 32 (oneNode 0 1 0 L_Idle L_Idle)" and ?i = "oneNode 32 0 1 L_Idle L_Idle"
  have idle: "\<forall>t. lpc ?s t = L_Idle" by (simp add: oneNode_def)
  have chain: "path (nodes ?i) (headAddr ?i) (headAddr ?i # [32])" by (simp add: oneNode_def)
  have short: "xs = []" if "path (nodes ?s) (headAddr ?s) (headAddr ?s # xs)" for xs
    using that by (cases xs) (auto simp: oneNode_def)
  from quiescent_list_is_clean [OF _ _ sample_run_idle chain sample_delete idle] show ?thesis
    by (force dest!: short simp del: state_simps)
qed

section \<open>No access outside the nodes\<close>

text \<open>The nodes that the next step of a thread reads or writes; the head's data is never looked at.\<close>

fun touches :: "list_state \<Rightarrow> list_pc \<Rightarrow> u64 set" where
  "touches s (L_Start c) = {headAddr s}"
| "touches s (L_Mark c prev cur) = {prev}"
| "touches s (L_Next c prev cur) = {cur}"
| "touches s (L_Help c prev cur nxt) = {prev}"
| "touches s (L_Check c prev cur nxt) = {prev, cur}"
| "touches s (L_Store d a prev cur) = {a}"
| "touches s (L_Link d a prev cur) = {prev}"
| "touches s (L_Load d prev cur) = {cur}"
| "touches s (L_Tag d prev cur nxt) = {cur}"
| "touches s (L_Unlink d prev cur nxt) = {prev}"
| "touches s pc = {}"

theorem accesses_are_allocated:
  assumes "a \<noteq> 0" and "even a" and "list_run a es s"
  shows "touches s (lpc s t) \<subseteq> dom (nodes s)"
    and "lpc s t = L_Check c prev cur nxt \<Longrightarrow> ndata (the (nodes s cur)) \<noteq> None"
proof -
  obtain spec xs where sim: "sim s xs spec" using sim_run [OF assms] by blast
  have ok: "chain_ok s xs" by (rule simD(1) [OF sim])
  note here = simD(3) [OF sim, of t] and node = public_node [OF ok]
  have head: "headAddr s \<in> dom (nodes s)" by (rule node) (simp add: public_def)
  show "touches s (lpc s t) \<subseteq> dom (nodes s)"
    using here node head private_kept(4) [OF sim, of t]
    by (cases "lpc s t") (auto simp: prev_ok_def node_ok_def simp del: domIff split: search_call.splits)
  show "ndata (the (nodes s cur)) \<noteq> None" if "lpc s t = L_Check c prev cur nxt"
    using here that ok by (auto simp: node_ok_def public_def chain_ok_def)
qed

end
