(* ===== verification/List_Progress.thy ===== *)
theory List_Progress
  imports List_Linear
begin

text \<open>
  Progress of the lock-free list: wherever the other threads stopped, a thread that runs alone returns from
  its call. It may have to start its search again because of what the others did before they stopped, but
  then it finds every link as it read it, so the part of the chain in front of it shrinks with every turn.
\<close>

section \<open>Runs of one thread\<close>

text \<open>
  The two compare-exchanges of \<open>Emplace\<close> and \<open>Delete\<close> that are written as the weak ones may fail although
  the link is as expected.
\<close>

definition spurious :: "nat \<Rightarrow> list_state \<Rightarrow> list_state \<Rightarrow> bool" where
  "spurious t s s' \<longleftrightarrow> (case lpc s t of
     L_Link d a prev cur \<Rightarrow> nextOf s prev = cur \<and> lpc s' t \<noteq> L_Add
   | L_Tag d prev cur nxt \<Rightarrow> nextOf s cur = nxt \<and> lpc s' t \<noteq> L_Unlink d prev cur nxt
   | _ \<Rightarrow> False)"

text \<open>Thread \<open>t\<close> makes \<open>n\<close> steps of the call it is in, \<open>k\<close> of them spurious failures, and no other thread makes any.\<close>

inductive alone :: "nat \<Rightarrow> nat \<Rightarrow> nat \<Rightarrow> list_state \<Rightarrow> list_state \<Rightarrow> bool" for t where
  stay: "alone t 0 0 s s"
| own_step: "lpc s t \<noteq> L_Idle \<Longrightarrow> list_step t s e s1 \<Longrightarrow> \<not> spurious t s s1 \<Longrightarrow> alone t k n s1 s' \<Longrightarrow> alone t k (Suc n) s s'"
| failed_step: "lpc s t \<noteq> L_Idle \<Longrightarrow> list_step t s e s1 \<Longrightarrow> spurious t s s1 \<Longrightarrow> alone t k n s1 s' \<Longrightarrow> alone t (Suc k) (Suc n) s s'"

inductive_cases alone_cases: "alone t k n s s'"

lemma step_others: "list_step t s e s' \<Longrightarrow> u \<noteq> t \<Longrightarrow> lpc s' u = lpc s u"
  by (induction rule: list_step.induct) simp_all

lemma alone_others: "alone t k n s s' \<Longrightarrow> u \<noteq> t \<Longrightarrow> lpc s' u = lpc s u"
  by (induction rule: alone.induct) (simp_all add: step_others)

text \<open>Within a call, the step of a thread is determined up to spurious failures.\<close>

inductive_cases step_at: "list_step t s e s'"

lemma step_determined:
  assumes "lpc s t \<noteq> L_Idle" and "list_step t s e1 s1" and "list_step t s e2 s2" and "spurious t s s1 = spurious t s s2"
  shows "s1 = s2"
  using assms by (elim step_at) (simp_all add: spurious_def)

text \<open>The thread can get back to its caller by steps that are no spurious failures.\<close>

inductive returns :: "nat \<Rightarrow> list_state \<Rightarrow> bool" for t where
  is_back: "lpc s t = L_Idle \<Longrightarrow> returns t s"
| one_step: "list_step t s e s' \<Longrightarrow> returns t s' \<Longrightarrow> lpc s t \<noteq> L_Idle \<and> \<not> spurious t s s' \<Longrightarrow> returns t s"

declare spurious_def [simp]

section \<open>The end of a call\<close>

lemma ret_return: "lpc s t = L_Return r \<Longrightarrow> returns t s"
  by (rule one_step [OF list_step.return is_back]) simp_all

lemma ret_add: "lpc s t = L_Add \<Longrightarrow> returns t s"
  by (rule one_step [OF list_step.add ret_return]) simp_all

lemma ret_sub_done: "lpc s t = L_SubDone \<Longrightarrow> returns t s"
  by (rule one_step [OF list_step.sub_done ret_return]) simp_all

lemma ret_link: "lpc s t = L_Link d a prev cur \<Longrightarrow> nextOf s prev = cur \<Longrightarrow> returns t s"
  by (rule one_step [OF list_step.link_ok [of s t d a prev cur] ret_add]) simp_all

lemma ret_store: "lpc s t = L_Store d a prev cur \<Longrightarrow> nextOf s prev = cur \<Longrightarrow> prev \<noteq> a \<Longrightarrow> returns t s"
  by (rule one_step [OF list_step.store [of s t d a prev cur] ret_link [of _ t d a prev cur]]) simp_all

lemma ret_unlink: "lpc s t = L_Unlink d prev cur nxt \<Longrightarrow> nextOf s prev = cur \<Longrightarrow> returns t s"
  by (rule one_step [OF list_step.unlink_ok [of s t d prev cur nxt] ret_sub_done]) simp_all

lemma ret_tag:
  "lpc s t = L_Tag d prev cur nxt \<Longrightarrow> nextOf s cur = nxt \<Longrightarrow> nextOf s prev = cur \<Longrightarrow> prev \<noteq> cur \<Longrightarrow> returns t s"
  by (rule one_step [OF list_step.tag_ok [of s t d prev cur nxt] ret_unlink [of _ t d prev cur nxt]]) simp_all

lemma ret_load:
  "lpc s t = L_Load d prev cur \<Longrightarrow> even (nextOf s cur) \<Longrightarrow> nextOf s prev = cur \<Longrightarrow> prev \<noteq> cur \<Longrightarrow> returns t s"
  by (rule one_step [OF list_step.load_plain [of s t d prev cur] ret_tag [of _ t d prev cur "nextOf s cur"]]) simp_all

lemma ret_searched:
  assumes "lpc s t = searched c prev cur r" and "nextOf s prev = cur" and "r \<noteq> None \<Longrightarrow> even (nextOf s cur) \<and> prev \<noteq> cur"
    and "\<And>a d. callNode c = Some (a, d) \<Longrightarrow> prev \<noteq> a"
  shows "returns t s"
  using assms by (cases c; cases r) (auto intro: ret_return ret_store ret_load)

section \<open>A search from links as they are\<close>

definition ahead :: "list_state \<Rightarrow> search_call \<Rightarrow> u64 \<Rightarrow> u64 list \<Rightarrow> bool" where
  "ahead s c prev bs \<longleftrightarrow> path (nodes s) (nextOf s prev) bs \<and> distinct (prev # bs)
     \<and> (\<forall>a d. callNode c = Some (a, d) \<longrightarrow> a \<notin> set (prev # bs))"

lemma ahead_same: "same_links s s' \<Longrightarrow> ahead s' c prev bs = ahead s c prev bs"
  using same_links_simps(1) [of s s'] by (auto simp: ahead_def same_links_def)

lemma search_returns:
  assumes "lpc s t = L_Mark c prev (nextOf s prev)" and "ahead s c prev bs"
  shows "returns t s"
  using assms
proof (induction "length bs" arbitrary: s prev bs)
  case 0
  then have "bs = []" by simp
  with 0 have last: "nextOf s prev = 0" "\<And>a d. callNode c = Some (a, d) \<Longrightarrow> prev \<noteq> a" by (auto simp: ahead_def)
  have "list_step t s None (goto t (searched c prev 0 None) s)"
    using 0(2) last(1) by (intro list_step.mark_end) simp_all
  then show ?case by (rule one_step) (use last 0(2) in \<open>auto intro!: ret_searched\<close>)
next
  case (Suc n)
  then obtain cur r where bs: "bs = cur # r" by (cases bs) auto
  have cur: "nextOf s prev = cur" "cur \<noteq> 0" "prev \<noteq> cur" "prev \<notin> set r" "distinct (cur # r)"
    and path: "path (nodes s) (unmark (nextOf s cur)) r"
    and own: "\<And>a d. callNode c = Some (a, d) \<Longrightarrow> a \<notin> {prev, cur} \<union> set r"
    using Suc.prems(2) bs unfolding ahead_def by (auto simp: nnext_nextOf)
  let ?s1 = "goto t (L_Next c prev cur) s"
  have "returns t ?s1"
  proof (cases "even (nextOf s cur)")
    case False
    let ?x = "unmark (nextOf s cur)"
    let ?s2 = "goto t (L_Help c prev cur (nextOf s cur)) ?s1"
    let ?s3 = "goto t (L_Sub c prev ?x) (hand cur (setNext prev ?x ?s2))"
    let ?s4 = "goto t (L_Mark c prev ?x) (?s3\<lparr>counter := counter ?s3 - 1\<rparr>)"
    have "ahead ?s4 c prev r"
      using path cur own by (auto simp: ahead_def path_setNext)
    then have "returns t ?s4" using Suc.hyps(1) [of r ?s4 prev] Suc.hyps(2) bs by simp
    then have "returns t ?s3" by (rule one_step [OF list_step.sub, rotated]) simp_all
    then have "returns t ?s2" by (intro one_step [OF list_step.help_ok [of ?s2 t c prev cur "nextOf s cur"]]) (simp_all add: cur)
    then show ?thesis by (intro one_step [OF list_step.next_marked [of ?s1 t c prev cur]]) (use False in simp_all)
  next
    case True
    let ?s2 = "goto t (L_Check c prev cur (nextOf s cur)) ?s1"
    have "returns t ?s2"
    proof (cases "GreaterOrEquals (dataOf s cur) (callData c)")
      case ge: True
      show ?thesis
        by (rule one_step [OF list_step.check_done [of ?s2 t c prev cur "nextOf s cur"] ret_searched])
           (use ge cur own True in auto)
    next
      case False
      let ?s3 = "goto t (L_Mark c cur (nextOf s cur)) ?s2"
      have "ahead ?s3 c cur r" using path cur own True by (auto simp: ahead_def)
      then have "returns t ?s3" using Suc.hyps(1) [of r ?s3 cur] Suc.hyps(2) bs by simp
      then show ?thesis
        by (intro one_step [OF list_step.check_on [of ?s2 t c prev cur "nextOf s cur"]]) (use False cur in simp_all)
    qed
    then show ?thesis by (intro one_step [OF list_step.next_plain [of ?s1 t c prev cur]]) (use True in simp_all)
  qed
  then show ?case by (intro one_step [OF list_step.mark_next [of s t c prev cur]]) (use Suc.prems(1) cur in simp_all)
qed

section \<open>From every place\<close>

text \<open>What a step of the thread leads to satisfies the invariant again.\<close>

lemma step_returns:
  assumes "sim s xs a" and "list_step t s e s'" and "\<And>xs' a'. sim s' xs' a' \<Longrightarrow> returns t s'"
    and "lpc s t \<noteq> L_Idle \<and> \<not> spurious t s s'"
  shows "returns t s"
  using sim_step [OF assms(1,2)] assms(3) one_step [OF assms(2) _ assms(4)] unfolding matched_def by blast

lemma own_call:
  assumes "sim s xs a" and "ownNode (lpc s t) = callNode c" and "callNode c = Some (b, d)"
  shows "b \<notin> public s xs"
  using private_kept(1) [OF assms(1), of t b d] assms by auto

lemma ret_mark:
  assumes sim: "sim s xs a" and pc: "lpc s t = L_Mark c prev (nextOf s prev)"
  shows "returns t s"
proof -
  have ok: "chain_ok s xs" by (rule simD(1) [OF sim])
  have at: "prev \<in> public s xs" "link_end s xs (nextOf s prev)" using simD(3) [OF sim, of t] pc by (simp_all add: prev_ok_def)
  obtain as bs where split: "headAddr s # xs = as @ prev # bs" and bs: "nextOf s prev = firstOf bs"
    using chain_split [OF ok at(1) link_end_even [OF ok at(2)]] by blast
  have pub: "set (prev # bs) \<subseteq> public s xs" using arg_cong [OF split, of set] by (auto simp: public_def)
  have "path (nodes s) (headAddr s) (as @ prev # bs)" using ok split unfolding chain_ok_def by metis
  then have "path (nodes s) (nextOf s prev) bs" using path_append [of "nodes s" "headAddr s" "as @ [prev]" bs] bs by simp
  moreover have "distinct (prev # bs)" using chain_distinct [OF ok] unfolding split by simp
  moreover have "b \<notin> set (prev # bs)" if "callNode c = Some (b, d)" for b d
    using own_call [OF sim _ that, of t] pc pub by auto
  ultimately have "ahead s c prev bs" by (simp add: ahead_def)
  then show ?thesis by (rule search_returns [OF pc])
qed

lemma ret_start: "sim s xs a \<Longrightarrow> lpc s t = L_Start c \<Longrightarrow> returns t s"
  by (rule step_returns [OF _ list_step.try_again]) (auto intro: ret_mark)

lemma ret_search:
  assumes "sim s xs a" and pc: "lpc s t = L_Mark c prev cur"
  shows "returns t s"
proof (cases "nextOf s prev = cur")
  case True
  then show ?thesis using ret_mark [OF assms(1), of t c prev] pc by simp
next
  case False
  show ?thesis by (rule step_returns [OF assms(1) list_step.mark_retry [OF pc False]]) (use pc False in \<open>auto intro: ret_start\<close>)
qed

lemma ret_unlink_any:
  assumes "sim s xs a" and pc: "lpc s t = L_Unlink d prev cur nxt"
  shows "returns t s"
proof (cases "nextOf s prev = cur")
  case True
  then show ?thesis by (rule ret_unlink [OF pc])
next
  case False
  show ?thesis by (rule step_returns [OF assms(1) list_step.unlink_retry [OF pc False]]) (use pc False in \<open>auto intro: ret_start\<close>)
qed

lemma ret_delete:
  assumes "sim s xs a" and "lpc s t = L_Tag d prev cur nxt"
  shows "returns t s"
proof (cases "nextOf s cur = nxt")
  case True
  show ?thesis
    by (rule step_returns [OF assms(1) list_step.tag_ok [OF assms(2) True]]) (use assms(2) True in \<open>auto intro: ret_unlink_any\<close>)
next
  case False
  show ?thesis by (rule step_returns [OF assms(1) list_step.tag_retry [OF assms(2)]]) (use assms(2) False in \<open>auto intro: ret_start\<close>)
qed

lemma ret_load_any:
  assumes "sim s xs a" and "lpc s t = L_Load d prev cur"
  shows "returns t s"
proof (cases "is_marked_reference LONG_BIT (nextOf s cur)")
  case True
  show ?thesis by (rule step_returns [OF assms(1) list_step.load_marked [OF assms(2) True]]) (use assms(2) True in \<open>auto intro: ret_start\<close>)
next
  case False
  show ?thesis by (rule step_returns [OF assms(1) list_step.load_plain [OF assms(2) False]]) (use assms(2) False in \<open>auto intro: ret_delete\<close>)
qed

lemma ret_link_any:
  assumes "sim s xs a" and "lpc s t = L_Link d b prev cur"
  shows "returns t s"
proof (cases "nextOf s prev = cur")
  case True
  then show ?thesis by (rule ret_link [OF assms(2)])
next
  case False
  show ?thesis by (rule step_returns [OF assms(1) list_step.link_retry [OF assms(2)]]) (use assms(2) False in \<open>auto intro: ret_start\<close>)
qed

lemma ret_store_any: "sim s xs a \<Longrightarrow> lpc s t = L_Store d b prev cur \<Longrightarrow> returns t s"
  by (rule step_returns [OF _ list_step.store]) (auto intro: ret_link_any)

lemma ret_searched_any: "sim s xs a \<Longrightarrow> lpc s t = searched c prev cur r \<Longrightarrow> returns t s"
  by (cases c; cases r) (auto intro: ret_return ret_store_any ret_load_any)

lemma ret_check:
  assumes "sim s xs a" and pc: "lpc s t = L_Check c prev cur nxt"
  shows "returns t s"
proof -
  consider "nextOf s prev \<noteq> cur" | "nextOf s prev = cur" "GreaterOrEquals (dataOf s cur) (callData c)"
    | "nextOf s prev = cur" "\<not> GreaterOrEquals (dataOf s cur) (callData c)" by blast
  then show ?thesis
  proof cases
    case 1
    show ?thesis by (rule step_returns [OF assms(1) list_step.check_retry [OF pc 1]]) (use pc in \<open>auto intro: ret_start\<close>)
  next
    case 2
    show ?thesis by (rule step_returns [OF assms(1) list_step.check_done [OF pc 2]]) (use pc in \<open>auto intro: ret_searched_any\<close>)
  next
    case 3
    show ?thesis by (rule step_returns [OF assms(1) list_step.check_on [OF pc 3]]) (use pc in \<open>auto intro: ret_search\<close>)
  qed
qed

lemma ret_sub: "sim s xs a \<Longrightarrow> lpc s t = L_Sub c prev cur \<Longrightarrow> returns t s"
  by (rule step_returns [OF _ list_step.sub]) (auto intro: ret_search)

lemma ret_help:
  assumes "sim s xs a" and pc: "lpc s t = L_Help c prev cur nxt"
  shows "returns t s"
proof (cases "nextOf s prev = cur")
  case True
  show ?thesis by (rule step_returns [OF assms(1) list_step.help_ok [OF pc True]]) (use pc True in \<open>auto intro: ret_sub\<close>)
next
  case False
  show ?thesis by (rule step_returns [OF assms(1) list_step.help_retry [OF pc False]]) (use pc False in \<open>auto intro: ret_start\<close>)
qed

lemma ret_next:
  assumes "sim s xs a" and pc: "lpc s t = L_Next c prev cur"
  shows "returns t s"
proof (cases "is_marked_reference LONG_BIT (nextOf s cur)")
  case True
  show ?thesis by (rule step_returns [OF assms(1) list_step.next_marked [OF pc True]]) (use pc True in \<open>auto intro: ret_help\<close>)
next
  case False
  show ?thesis by (rule step_returns [OF assms(1) list_step.next_plain [OF pc False]]) (use pc False in \<open>auto intro: ret_check\<close>)
qed

lemmas ret_intros = ret_start ret_search ret_next ret_help ret_sub ret_check ret_store_any ret_link_any
  ret_load_any ret_delete ret_unlink_any

lemma sim_returns: "sim s xs a \<Longrightarrow> returns t s"
  by (cases "lpc s t") (auto intro: is_back ret_return ret_add ret_sub_done ret_intros)

section \<open>All runs of one thread\<close>

lemma returns_alone: "returns t s \<Longrightarrow> \<exists>n s'. alone t 0 n s s' \<and> lpc s' t = L_Idle"
proof (induction rule: returns.induct)
  case (is_back s)
  then show ?case using stay by blast
next
  case (one_step s e s')
  then show ?case using own_step by blast
qed

lemma sim_next: "sim s xs a \<Longrightarrow> list_step t s e s' \<Longrightarrow> \<exists>xs' a'. sim s' xs' a'"
  using sim_step unfolding matched_def by blast

lemma alone_sim: "alone t k n s s' \<Longrightarrow> sim s xs a \<Longrightarrow> \<exists>xs' a'. sim s' xs' a'"
proof (induction arbitrary: xs a rule: alone.induct)
  case (own_step s e s1 k n s')
  then show ?case using sim_next [OF own_step.prems own_step.hyps(2)] by blast
next
  case (failed_step s e s1 k n s')
  then show ?case using sim_next [OF failed_step.prems failed_step.hyps(2)] by blast
qed blast

definition bounded :: "nat \<Rightarrow> nat \<Rightarrow> list_state \<Rightarrow> nat \<Rightarrow> bool" where
  "bounded t k s m \<longleftrightarrow> (\<forall>j n s'. alone t j n s s' \<longrightarrow> j \<le> k \<longrightarrow> n \<le> m)"

lemma bounded_step:
  assumes busy: "lpc s t \<noteq> L_Idle" and one: "list_step t s e s1" "\<not> spurious t s s1" "bounded t k s1 m1"
    and fail: "\<And>e s2. list_step t s e s2 \<Longrightarrow> spurious t s s2 \<Longrightarrow> 0 < k \<Longrightarrow> bounded t (k - 1) s2 m2"
  shows "bounded t k s (Suc (max m1 m2))"
  unfolding bounded_def
proof (intro allI impI)
  fix j n s'
  assume "alone t j n s s'" and j: "j \<le> k"
  then show "n \<le> Suc (max m1 m2)"
  proof cases
    case (own_step e' s1' n')
    have "s1' = s1" by (rule step_determined [OF busy own_step(3) one(1)]) (use own_step(4) one(2) in blast)
    then show ?thesis using own_step one(3) j unfolding bounded_def by (auto simp: le_max_iff_disj)
  next
    case (failed_step e' s2 j' n')
    then have "bounded t (k - 1) s2 m2" using fail [OF failed_step(4,5)] j by simp
    then have "n' \<le> m2" using failed_step(1,6) j unfolding bounded_def by fastforce
    then show ?thesis using failed_step(2) by simp
  qed simp
qed

lemma alone_bounded: "sim s xs a \<Longrightarrow> \<exists>m. bounded t k s m"
proof (induction k arbitrary: s xs a rule: less_induct)
  case (less k)
  have "returns t s" by (rule sim_returns [OF less.prems])
  then show ?case
    using less.prems
  proof (induction arbitrary: xs a rule: returns.induct)
    case (is_back s)
    then have "bounded t k s 0" unfolding bounded_def by (auto elim: alone_cases)
    then show ?case by blast
  next
    case (one_step s e s1)
    obtain m1 where m1: "bounded t k s1 m1" using one_step.IH sim_next [OF one_step.prems one_step.hyps(1)] by blast
    have "\<exists>m2. \<forall>e s2. list_step t s e s2 \<longrightarrow> spurious t s s2 \<longrightarrow> 0 < k \<longrightarrow> bounded t (k - 1) s2 m2"
    proof (cases "0 < k \<and> (\<exists>e s2. list_step t s e s2 \<and> spurious t s s2)")
      case True
      then obtain e' s2 where s2: "list_step t s e' s2" "spurious t s s2" "k - 1 < k" by auto
      obtain m2 where "bounded t (k - 1) s2 m2"
        using less.IH [OF s2(3)] sim_next [OF one_step.prems s2(1)] by blast
      moreover have "s3 = s2" if "list_step t s e3 s3" "spurious t s s3" for e3 s3
        by (rule step_determined [OF _ that(1) s2(1)]) (use that(2) s2(2) one_step.hyps(3) in blast)+
      ultimately show ?thesis by blast
    qed blast
    then obtain m2 where "\<forall>e s2. list_step t s e s2 \<longrightarrow> spurious t s s2 \<longrightarrow> 0 < k \<longrightarrow> bounded t (k - 1) s2 m2" by blast
    then have "bounded t k s (Suc (max m1 m2))"
      using bounded_step [OF _ one_step.hyps(1) _ m1] one_step.hyps(3) by blast
    then show ?case by blast
  qed
qed

lemma never_stuck: "sim s xs a \<Longrightarrow> lpc s t \<noteq> L_Idle \<Longrightarrow> \<exists>e s'. list_step t s e s' \<and> \<not> spurious t s s'"
  using returns.cases [OF sim_returns] by metis

section \<open>Property\<close>

text \<open>
  C10. No thread can block another. From every state \<open>s\<close> of every run let thread \<open>t\<close> alone make steps of the
  call it is in; the others stay where they are, in the middle of whatever they were doing. However it
  goes on, it comes to its return: for every number \<open>k\<close> of spurious failures of the weak compare-exchange
  there is a bound on the number of its steps, and as long as it has not returned it has a next step that
  is no such failure. In particular without such failures it returns.
\<close>

theorem list_is_obstruction_free:
  assumes "a \<noteq> 0" and "even a" and "list_run a es s"
  shows "(\<exists>m. \<forall>j n s'. alone t j n s s' \<and> j \<le> k \<longrightarrow> n \<le> m)
    \<and> (\<forall>j n s'. alone t j n s s' \<longrightarrow> (\<forall>u. u \<noteq> t \<longrightarrow> lpc s' u = lpc s u)
         \<and> (lpc s' t = L_Idle \<or> (\<exists>e s''. list_step t s' e s'' \<and> \<not> spurious t s' s'')))
    \<and> (\<exists>n s'. alone t 0 n s s' \<and> lpc s' t = L_Idle)"
proof -
  obtain spec xs where sim: "sim s xs spec" using sim_run [OF assms] by blast
  obtain m where m: "bounded t k s m" using alone_bounded [OF sim] by blast
  show ?thesis
  proof (intro conjI allI impI)
    show "\<exists>m. \<forall>j n s'. alone t j n s s' \<and> j \<le> k \<longrightarrow> n \<le> m" using m unfolding bounded_def by blast
    show "lpc s' u = lpc s u" if "alone t j n s s'" "u \<noteq> t" for j n s' u by (rule alone_others [OF that])
    show "lpc s' t = L_Idle \<or> (\<exists>e s''. list_step t s' e s'' \<and> \<not> spurious t s' s'')" if "alone t j n s s'" for j n s'
      using alone_sim [OF that sim] never_stuck by blast
    show "\<exists>n s'. alone t 0 n s s' \<and> lpc s' t = L_Idle" by (rule returns_alone [OF sim_returns [OF sim]])
  qed
qed

text \<open>In the run for the witness, the second thread is left alone while it has begun to search.\<close>

theorem list_is_obstruction_free_witness:
  "\<exists>n s'. alone 1 0 n (oneNode 32 0 1 L_Idle (L_Start (C_Find sampleKey))) s' \<and> lpc s' 1 = L_Idle \<and> n \<noteq> 0"
proof -
  let ?s = "oneNode 32 0 1 L_Idle (L_Start (C_Find sampleKey))"
  obtain n s' where r: "alone 1 0 n ?s s'" "lpc s' 1 = L_Idle"
    using list_is_obstruction_free [OF _ _ sample_run, of 1 0] by auto
  have "n \<noteq> 0" using r by (cases rule: alone.cases) auto
  with r show ?thesis by blast
qed

end
