(* ===== verification/Object_Pool.thy ===== *)
theory Object_Pool
  imports Prelude
begin

text \<open>
  The object pools, \<open>src/include/net/boostObjectPool.hpp\<close>: \<open>operator new\<close> and \<open>delete\<close> of a class, over a
  \<open>boost::pool\<close> that all objects of the class share, without a lock and with one.

  The pool of the library is a parameter, \<open>malloc\<close> and \<open>free\<close> on its state; \<open>malloc\<close> returns 0 if there is
  no memory. A call of it takes time: threads enter and leave it in steps of their own, and if two are in
  it at once the outcome is undefined, since the library's pool is made for one thread at a time.
\<close>

section \<open>Operators\<close>

record 'p pool_lib =
  pl_malloc :: "'p \<Rightarrow> u64 \<times> 'p"
  pl_free :: "u64 \<Rightarrow> 'p \<Rightarrow> 'p"

text \<open>\<open>operator new\<close> does not look at the size it is asked for.\<close>

definition op_new :: "'p pool_lib \<Rightarrow> nat \<Rightarrow> 'p \<Rightarrow> u64 \<times> 'p" where
  "op_new lib sz p = pl_malloc lib p"

definition op_delete :: "'p pool_lib \<Rightarrow> u64 \<Rightarrow> nat \<Rightarrow> 'p \<Rightarrow> 'p" where
  "op_delete lib ptr sz p = pl_free lib ptr p"

text \<open>
  What a new expression does with the result: an \<open>operator new\<close> that may not throw is not declared as such
  here, so the constructor runs without a test for null. \<open>destruct\<close> is a delete expression, which does
  nothing for null.
\<close>

definition newExpression :: "'p pool_lib \<Rightarrow> nat \<Rightarrow> 'p \<Rightarrow> (u64 \<times> 'p) result" where
  "newExpression lib sz p =
     (let (a, p') = op_new lib sz p in if a = 0 then Inl (Undefined ''constructor on null'') else Inr (a, p'))"

definition destruct :: "'p pool_lib \<Rightarrow> u64 \<Rightarrow> nat \<Rightarrow> 'p \<Rightarrow> 'p" where
  "destruct lib ptr sz p = (if ptr = 0 then p else op_delete lib ptr sz p)"

section \<open>Threads\<close>

datatype pool_call = New_object | Delete_object u64

datatype pool_pc = Outside | Waiting pool_call | Inside pool_call

record 'p pool_system =
  pool :: 'p
  mutex :: "nat option"
  ppc :: "nat \<Rightarrow> pool_pc"
  live :: "u64 list"
  clashed :: bool
  nullObject :: bool

definition newPoolSystem :: "'p \<Rightarrow> 'p pool_system" where
  "newPoolSystem p = \<lparr>pool = p, mutex = None, ppc = (\<lambda>t. Outside), live = [], clashed = False, nullObject = False\<rparr>"

fun runCall :: "'p pool_lib \<Rightarrow> pool_call \<Rightarrow> 'p pool_system \<Rightarrow> 'p pool_system" where
  "runCall lib New_object s =
     (case newExpression lib 0 (pool s) of
        Inl f \<Rightarrow> s\<lparr>nullObject := True\<rparr>
      | Inr (a, p) \<Rightarrow> s\<lparr>pool := p, live := a # live s\<rparr>)"
| "runCall lib (Delete_object a) s = s\<lparr>pool := destruct lib a 0 (pool s), live := remove1 a (live s)\<rparr>"

text \<open>The object whose deletion a thread is about.\<close>

fun deletes :: "pool_pc \<Rightarrow> u64 option" where
  "deletes (Waiting (Delete_object a)) = Some a"
| "deletes (Inside (Delete_object a)) = Some a"
| "deletes pc = None"

text \<open>
  With \<open>lock\<close>, the class of \<open>BoostObjectPoolTs\<close>, a call takes the mutex first and gives it back at its end;
  without, that of \<open>BoostObjectPool\<close>, it goes on at once. An object is deleted once, by one thread.
\<close>

inductive pool_step :: "'p pool_lib \<Rightarrow> bool \<Rightarrow> nat \<Rightarrow> 'p pool_system \<Rightarrow> 'p pool_system \<Rightarrow> bool" for lib lock t where
  call_new: "ppc s t = Outside \<Longrightarrow>
     pool_step lib lock t s (s\<lparr>ppc := (ppc s)(t := if lock then Waiting New_object else Inside New_object)\<rparr>)"
| call_delete: "ppc s t = Outside \<Longrightarrow> a \<in> set (live s) \<Longrightarrow>
     (\<forall>u. deletes (ppc s u) \<noteq> Some a) \<Longrightarrow>
     pool_step lib lock t s (s\<lparr>ppc := (ppc s)(t := if lock then Waiting (Delete_object a) else Inside (Delete_object a))\<rparr>)"
| acquire: "ppc s t = Waiting c \<Longrightarrow> mutex s = None \<Longrightarrow>
     pool_step lib lock t s (s\<lparr>mutex := Some t, ppc := (ppc s)(t := Inside c)\<rparr>)"
| finish: "ppc s t = Inside c \<Longrightarrow> (\<forall>u c'. ppc s u = Inside c' \<longrightarrow> u = t) \<Longrightarrow>
     pool_step lib lock t s ((runCall lib c s)\<lparr>mutex := None, ppc := (ppc s)(t := Outside)\<rparr>)"
| clash: "ppc s t = Inside c \<Longrightarrow> ppc s u = Inside c' \<Longrightarrow> u \<noteq> t \<Longrightarrow>
     pool_step lib lock t s (s\<lparr>clashed := True\<rparr>)"

inductive pool_reach :: "'p pool_lib \<Rightarrow> bool \<Rightarrow> 'p \<Rightarrow> 'p pool_system \<Rightarrow> bool" for lib lock p where
  start: "pool_reach lib lock p (newPoolSystem p)"
| step: "pool_reach lib lock p s \<Longrightarrow> pool_step lib lock t s s' \<Longrightarrow> pool_reach lib lock p s'"

section \<open>Properties\<close>

text \<open>
  What is documented of the library's pool, for one thread at a time: \<open>ok p A\<close> says that the blocks \<open>A\<close> of
  the pool \<open>p\<close> are in use. It hands out a block that is not in use, or 0, and takes one back.
\<close>

definition pool_contract :: "'p pool_lib \<Rightarrow> ('p \<Rightarrow> u64 set \<Rightarrow> bool) \<Rightarrow> bool" where
  "pool_contract lib ok \<longleftrightarrow>
     (\<forall>p A a p'. ok p A \<longrightarrow> pl_malloc lib p = (a, p') \<longrightarrow> a \<noteq> 0 \<longrightarrow> a \<notin> A \<and> ok p' (insert a A))
     \<and> (\<forall>p A a. ok p A \<longrightarrow> a \<in> A \<longrightarrow> ok (pl_free lib a p) (A - {a}))"

definition pool_inv :: "('p \<Rightarrow> u64 set \<Rightarrow> bool) \<Rightarrow> 'p pool_system \<Rightarrow> bool" where
  "pool_inv ok s \<longleftrightarrow> \<not> clashed s \<and> (\<forall>t c. ppc s t = Inside c \<longrightarrow> mutex s = Some t)
     \<and> distinct (live s) \<and> 0 \<notin> set (live s) \<and> ok (pool s) (set (live s))
     \<and> (\<forall>t a. deletes (ppc s t) = Some a \<longrightarrow> a \<in> set (live s))
     \<and> (\<forall>t u a. deletes (ppc s t) = Some a \<longrightarrow> deletes (ppc s u) = Some a \<longrightarrow> t = u)"

lemma inside_unique: "pool_inv ok s \<Longrightarrow> ppc s t = Inside c \<Longrightarrow> ppc s u = Inside c' \<Longrightarrow> t = u"
  unfolding pool_inv_def by (metis option.inject)

lemma leave_inv:
  assumes inv: "pool_inv ok s" and pc: "ppc s t = Inside c" and "distinct l" "0 \<notin> set l" "ok p (set l)"
    and l: "\<And>u a. u \<noteq> t \<Longrightarrow> deletes (ppc s u) = Some a \<Longrightarrow> a \<in> set l"
  shows "pool_inv ok (s\<lparr>pool := p, live := l, nullObject := b, mutex := None, ppc := (ppc s)(t := Outside)\<rparr>)"
proof -
  have "ppc s u \<noteq> Inside c'" if "u \<noteq> t" for u c' using inside_unique [OF inv pc] that by blast
  then show ?thesis using assms unfolding pool_inv_def by (simp add: l)
qed

lemma runCall_inv:
  assumes k: "pool_contract lib ok" and inv: "pool_inv ok s" and pc: "ppc s t = Inside c"
  shows "pool_inv ok ((runCall lib c s)\<lparr>mutex := None, ppc := (ppc s)(t := Outside)\<rparr>)"
proof (cases c)
  case New_object
  obtain a p' where m: "pl_malloc lib (pool s) = (a, p')" by fastforce
  have ok: "distinct (live s)" "0 \<notin> set (live s)" "ok (pool s) (set (live s))"
    and live: "\<And>u a. deletes (ppc s u) = Some a \<Longrightarrow> a \<in> set (live s)"
    using inv unfolding pool_inv_def by blast+
  show ?thesis
  proof (cases "a = 0")
    case True
    then show ?thesis
      using leave_inv [OF inv pc ok, of True] live New_object m by (simp add: newExpression_def op_new_def)
  next
    case False
    then have "a \<notin> set (live s)" "ok p' (set (a # live s))" using k ok m unfolding pool_contract_def by auto
    then show ?thesis
      using leave_inv [OF inv pc, of "a # live s" p' "nullObject s"] ok live False New_object m
      by (simp add: newExpression_def op_new_def)
  qed
next
  case (Delete_object a)
  have me: "deletes (ppc s t) = Some a" using pc Delete_object by simp
  have a: "a \<in> set (live s)" "0 \<notin> set (live s)" "distinct (live s)" "ok (pool s) (set (live s))"
    using inv me unfolding pool_inv_def by blast+
  have others: "b \<in> set (live s) \<and> b \<noteq> a" if "u \<noteq> t" "deletes (ppc s u) = Some b" for u b
    using inv me that unfolding pool_inv_def by blast
  have "ok (pl_free lib a (pool s)) (set (remove1 a (live s)))" using k a unfolding pool_contract_def by simp
  moreover have "a \<noteq> 0" using a by auto
  ultimately show ?thesis
    using leave_inv [OF inv pc, of "remove1 a (live s)" "pl_free lib a (pool s)" "nullObject s"] a others Delete_object
    by (simp add: destruct_def op_delete_def)
qed

lemma pool_step_inv:
  assumes "pool_contract lib ok" and "pool_step lib True t s s'" and "pool_inv ok s"
  shows "pool_inv ok s'"
  using assms(2)
proof cases
  case (finish c)
  then show ?thesis using runCall_inv [OF assms(1,3)] by blast
next
  case (clash c u c')
  then show ?thesis using inside_unique [OF assms(3)] by blast
next
  case call_new
  then show ?thesis using assms(3) by (auto simp: pool_inv_def split: if_splits)
next
  case (call_delete a)
  then show ?thesis using assms(3) by (auto simp: pool_inv_def split: if_splits)
next
  case (acquire c)
  then have "deletes (ppc s' u) = deletes (ppc s u)" for u by (cases c) simp_all
  then show ?thesis using assms(3) acquire by (auto simp: pool_inv_def split: if_splits)
qed

lemma pool_reach_inv:
  assumes "pool_contract lib ok" and "ok p {}" and "pool_reach lib True p s"
  shows "pool_inv ok s"
  using assms(3)
proof induction
  case start
  then show ?case using assms(2) by (simp add: pool_inv_def newPoolSystem_def)
next
  case (step s t s')
  then show ?case using pool_step_inv [OF assms(1)] by blast
qed

text \<open>
  C31. The pool with a lock serves any number of threads: however their calls interleave, at most one thread
  is inside the library's pool, and the objects that live have addresses of their own, as long as the
  library has memory. Without the lock two threads that make an object at the same time meet inside the
  pool. If there is no memory, either pool constructs an object at the null pointer.
\<close>

theorem locked_pool_is_exclusive:
  assumes "pool_contract lib ok" and "ok p {}" and "pool_reach lib True p s"
  shows "\<not> clashed s \<and> (ppc s t = Inside c \<and> ppc s u = Inside c' \<longrightarrow> t = u)
    \<and> (\<not> nullObject s \<longrightarrow> distinct (live s) \<and> 0 \<notin> set (live s))
    \<and> (\<exists>s'. pool_reach lib False p s' \<and> clashed s')
    \<and> (fst (pl_malloc lib q) = 0 \<longrightarrow> newExpression lib sz q = Inl (Undefined ''constructor on null''))"
proof -
  let ?s0 = "newPoolSystem p"
  let ?s1 = "?s0\<lparr>ppc := (ppc ?s0)(0 := Inside New_object)\<rparr>"
  let ?s2 = "?s1\<lparr>ppc := (ppc ?s1)(1 := Inside New_object)\<rparr>"
  have "pool_reach lib False p ?s1"
    using pool_reach.step [OF pool_reach.start pool_step.call_new [of ?s0 0 lib False]] by (simp add: newPoolSystem_def)
  then have "pool_reach lib False p ?s2"
    using pool_reach.step [OF _ pool_step.call_new [of ?s1 1 lib False]] by (simp add: newPoolSystem_def)
  then have "pool_reach lib False p (?s2\<lparr>clashed := True\<rparr>)"
    by (rule pool_reach.step [OF _ pool_step.clash [of ?s2 0 New_object 1 New_object]]) (simp_all add: newPoolSystem_def)
  then have "\<exists>s'. pool_reach lib False p s' \<and> clashed s'" by (intro exI [of _ "?s2\<lparr>clashed := True\<rparr>"]) simp
  moreover have inv: "pool_inv ok s" by (rule pool_reach_inv [OF assms])
  moreover have "t = u" if "ppc s t = Inside c" "ppc s u = Inside c'" using inside_unique [OF inv that] .
  moreover have "newExpression lib sz q = Inl (Undefined ''constructor on null'')" if "fst (pl_malloc lib q) = 0"
    using that by (auto simp: newExpression_def op_new_def split: prod.splits)
  ultimately show ?thesis by (auto simp: pool_inv_def)
qed

text \<open>A pool for the witness: a list of free blocks.\<close>

definition listPool :: "u64 list pool_lib" where
  "listPool = \<lparr>pl_malloc = (\<lambda>p. case p of [] \<Rightarrow> (0, []) | a # r \<Rightarrow> (a, r)), pl_free = (\<lambda>a p. a # p)\<rparr>"

definition listPool_ok :: "u64 list \<Rightarrow> u64 set \<Rightarrow> bool" where
  "listPool_ok p A \<longleftrightarrow> distinct p \<and> set p \<inter> A = {} \<and> 0 \<notin> A"

theorem locked_pool_is_exclusive_witness:
  "\<exists>s. pool_reach listPool True [16, 32] s \<and> ppc s 0 = Inside New_object \<and> ppc s 1 = Waiting New_object
    \<and> \<not> clashed s \<and> (\<exists>s'. pool_reach listPool False [16, 32] s' \<and> clashed s')"
proof -
  let ?s = "\<lambda>m a b. (newPoolSystem [16, 32])\<lparr>mutex := m, ppc := (\<lambda>t. Outside)(0 := a, 1 := b)\<rparr>"
  have contract: "pool_contract listPool listPool_ok"
    by (auto simp: pool_contract_def listPool_def listPool_ok_def split: list.splits)
  have "pool_reach listPool True [16, 32] (?s None (Waiting New_object) Outside)"
    using pool_reach.step [OF pool_reach.start pool_step.call_new [of _ 0 listPool True]]
    by (simp add: newPoolSystem_def fun_upd_idem)
  from pool_reach.step [OF this pool_step.call_new [of _ 1 listPool True]]
  have "pool_reach listPool True [16, 32] (?s None (Waiting New_object) (Waiting New_object))"
    by (simp add: newPoolSystem_def)
  from pool_reach.step [OF this pool_step.acquire [of _ 0 New_object listPool True]]
  have reach: "pool_reach listPool True [16, 32] (?s (Some 0) (Inside New_object) (Waiting New_object))"
    by (simp add: newPoolSystem_def fun_upd_twist)
  show ?thesis
    using locked_pool_is_exclusive [OF contract _ reach, of 0 New_object 1 New_object "[]" 0] reach
    by (intro exI [of _ "?s (Some 0) (Inside New_object) (Waiting New_object)"]) (simp add: listPool_ok_def)
qed

end
