(* ===== verification/Mysql_Connector.thy ===== *)
theory Mysql_Connector
  imports Prelude
begin

text \<open>
  The connector for MySQL 8, \<open>src/include/net/mysql8/connector.hpp\<close>: its options, \<open>init\<close>, and the
  conversion of a time stamp to text.

  Parameters stand for the libraries: \<open>encode_uri\<close> of cpprest, the JSON text that struct_mapping makes of
  the options, and the constructor of \<open>mysqlx::Client\<close>, each of which may throw where the library does.
  \<open>std::gmtime\<close> and \<open>std::put_time\<close> belong to the language: the calendar is the Gregorian one, extended to
  all years, as POSIX has it, and the text is that of the C locale.
\<close>

section \<open>Options and initialisation\<close>

record pooling_options =
  po_enabled :: bool
  po_maxSize :: int
  po_queueTimeout :: int
  po_maxIdleTime :: int

record client_options =
  co_pooling :: pooling_options

definition newPooling :: pooling_options where
  "newPooling = \<lparr>po_enabled = True, po_maxSize = 25, po_queueTimeout = 5000, po_maxIdleTime = 5000\<rparr>"

definition newClientOptions :: client_options where
  "newClientOptions = \<lparr>co_pooling = newPooling\<rparr>"

text \<open>The names that are registered for the conversion to JSON, in the order of the calls.\<close>

definition registPooling :: "string list" where
  "registPooling = [''enabled'', ''maxSize'', ''queueTimeout'', ''maxIdleTime'']"

definition registOptions :: "string list" where
  "registOptions = ''pooling'' # registPooling"

record 'c mysql_connector =
  registry :: "string list"
  mc_client :: "'c option"
  mc_dbname :: string

text \<open>The two encodings may throw; they are made before the \<open>try\<close>.\<close>

definition connString :: "(string \<Rightarrow> string result) \<Rightarrow> string \<Rightarrow> string \<Rightarrow> string \<Rightarrow> string \<Rightarrow> bool \<Rightarrow> string result" where
  "connString encode_uri ident pw host dbname useEncodeUrl =
     bindR (if \<not> useEncodeUrl then Inr ident else encode_uri ident) (\<lambda>i.
       bindR (if \<not> useEncodeUrl then Inr pw else encode_uri pw) (\<lambda>p.
         Inr (''mysqlx://'' @ i @ '':'' @ p @ ''@'' @ host @ ''/'' @ dbname)))"

text \<open>
  \<open>init\<close>; the exception is caught by value, which keeps only its base class, and this copy is thrown
  again. The first component is what leaves \<open>init\<close>.
\<close>

definition caughtCopy :: "fault \<Rightarrow> fault" where
  "caughtCopy f = (if is_exception f then Other_exception ''std::exception'' else f)"

definition connectorInit ::
  "(string \<Rightarrow> string result) \<Rightarrow> (string list \<Rightarrow> client_options \<Rightarrow> string result) \<Rightarrow> (string \<Rightarrow> string \<Rightarrow> 'c result) \<Rightarrow>
   string \<Rightarrow> string \<Rightarrow> string \<Rightarrow> string \<Rightarrow> client_options option \<Rightarrow> bool \<Rightarrow> 'c mysql_connector \<Rightarrow>
   fault option \<times> 'c mysql_connector" where
  "connectorInit encode_uri toJson mkClient ident pw host dbname opts useEncodeUrl c =
     (case connString encode_uri ident pw host dbname useEncodeUrl of
        Inl f \<Rightarrow> (Some f, c)
      | Inr cs \<Rightarrow>
          (let c1 = c\<lparr>registry := registry c @ registOptions\<rparr>
           in case bindR (toJson (registry c1) (case opts of Some opt \<Rightarrow> opt | None \<Rightarrow> newClientOptions)) (mkClient cs) of
                Inr client \<Rightarrow> (None, c1\<lparr>mc_client := Some client, mc_dbname := dbname\<rparr>)
              | Inl f \<Rightarrow> (Some (caughtCopy f), c1)))"

section \<open>The calendar\<close>

record tm =
  tm_sec :: int
  tm_min :: int
  tm_hour :: int
  tm_mday :: int
  tm_mon :: int
  tm_year :: int

text \<open>
  The date of a day, counted from 1970-01-01. Years are counted from the first of March here, so that
  the leap day is the last one; the cycles of 400, 100 and 4 years, the last two with a shorter or a
  longer end, give the year. \<open>11017\<close> days lie between 1970-01-01 and 2000-03-01.
\<close>

definition marchYear :: "int \<Rightarrow> int \<times> int" where
  "marchYear days =
     (let z = days - 11017;
          era = z div 146097; doe = z mod 146097;
          c = min 3 (doe div 36524); doc = doe - 36524 * c;
          q = doc div 1461; doq = doc mod 1461;
          y = min 3 (doq div 365)
      in (2000 + 400 * era + 100 * c + 4 * q + y, doq - 365 * y))"

fun marchMonth :: "int list \<Rightarrow> int \<Rightarrow> int \<Rightarrow> int \<times> int" where
  "marchMonth (l # ls) m d = (if l \<le> d \<and> ls \<noteq> [] then marchMonth ls (m + 1) (d - l) else (m, d))"
| "marchMonth [] m d = (m, d)"

definition marchMonths :: "int list" where
  "marchMonths = [31, 30, 31, 30, 31, 31, 30, 31, 30, 31, 31, 29]"

definition civilDate :: "int \<Rightarrow> int \<times> int \<times> int" where
  "civilDate days =
     (let (y, doy) = marchYear days; (m, d) = marchMonth marchMonths 3 doy
      in if m \<le> 12 then (y, m, d + 1) else (y + 1, m - 12, d + 1))"

text \<open>\<open>std::gmtime\<close> returns a null pointer if the year does not fit an \<open>int\<close>.\<close>

definition gmtime :: "int \<Rightarrow> tm option" where
  "gmtime t =
     (let (y, m, d) = civilDate (t div 86400); s = t mod 86400
      in if - (2 ^ 31) \<le> y - 1900 \<and> y - 1900 < 2 ^ 31
         then Some \<lparr>tm_sec = s mod 60, tm_min = s div 60 mod 60, tm_hour = s div 3600, tm_mday = d, tm_mon = m - 1,
                tm_year = y - 1900\<rparr>
         else None)"

definition signed :: "int \<Rightarrow> string" where
  "signed y = (if y < 0 then ''-'' @ decimal (nat (- y)) else decimal (nat y))"

text \<open>\<open>%Y-%m-%d %I:%M:%S %p\<close>, with the twelve-hour clock.\<close>

definition put_time :: "tm \<Rightarrow> string" where
  "put_time t =
     signed (tm_year t + 1900) @ ''-'' @ padded 2 (nat (tm_mon t + 1)) @ ''-'' @ padded 2 (nat (tm_mday t)) @ '' ''
       @ padded 2 (nat (if tm_hour t mod 12 = 0 then 12 else tm_hour t mod 12)) @ '':'' @ padded 2 (nat (tm_min t)) @ '':''
       @ padded 2 (nat (tm_sec t)) @ '' '' @ (if tm_hour t < 12 then ''AM'' else ''PM'')"

definition stringFromTs :: "int \<Rightarrow> string result" where
  "stringFromTs unixTimeStamp =
     (case gmtime unixTimeStamp of
        Some t \<Rightarrow> Inr (put_time t)
      | None \<Rightarrow> Inl (Undefined ''null pointer''))"

section \<open>Lemmas on the calendar\<close>

definition isLeap :: "int \<Rightarrow> bool" where
  "isLeap y \<longleftrightarrow> 4 dvd y \<and> (\<not> 100 dvd y \<or> 400 dvd y)"

text \<open>Days from 2000-03-01 to the first of March of a year, and the length of the year that begins there.\<close>

definition marchStart :: "int \<Rightarrow> int" where
  "marchStart y = (let a = y - 2000 in 365 * a + a div 4 - a div 100 + a div 400)"

definition marchLen :: "int \<Rightarrow> int" where
  "marchLen y = (if isLeap (y + 1) then 366 else 365)"

lemma div_next: "0 < n \<Longrightarrow> (a + 1) div n = a div n + (if n dvd a + 1 then 1 else 0)" for a n :: int
proof (cases "n dvd a + 1")
  case True
  assume n: "0 < n"
  obtain k where k: "a + 1 = n * k" using True by (elim dvdE)
  have "a div n = k - 1" using n k by (intro int_div_pos_eq [of _ _ _ "n - 1"]) (auto simp: algebra_simps)
  then show ?thesis using True n k by simp
next
  case False
  assume n: "0 < n"
  have "a mod n + 1 < n"
  proof (rule ccontr)
    assume "\<not> a mod n + 1 < n"
    then have "a mod n + 1 = n" using pos_mod_bound [OF n, of a] by linarith
    then have "a + 1 = n * (a div n + 1)" using mult_div_mod_eq [of n a] by (metis add.assoc distrib_left mult.right_neutral)
    then show False using False by (metis dvd_triv_left)
  qed
  then have "(a + 1) div n = a div n"
    using n mult_div_mod_eq [of n a] by (intro int_div_pos_eq [of _ _ _ "a mod n + 1"]) auto
  then show ?thesis using False by simp
qed

lemma leap_sum:
  assumes "Q \<Longrightarrow> P" and "R \<Longrightarrow> Q"
  shows "365 * (a + 1) + (x + (if P then 1 else 0)) - (y + (if Q then 1 else 0)) + (z + (if R then 1 else 0)) =
    365 * a + x - y + z + (if P \<and> (\<not> Q \<or> R) then 366 else (365 :: int))"
  by (cases P; cases Q; cases R) (use assms in simp_all)

lemma marchStart_next: "marchStart (y + 1) = marchStart y + marchLen y"
proof -
  define a where "a = y - 2000"
  have shift: "n dvd y + 1 \<longleftrightarrow> n dvd a + 1" if "n dvd 2000" for n
    using dvd_add_left_iff [OF that, of "a + 1"] by (simp add: a_def algebra_simps)
  have leap: "isLeap (y + 1) \<longleftrightarrow> 4 dvd a + 1 \<and> (\<not> 100 dvd a + 1 \<or> 400 dvd a + 1)"
    unfolding isLeap_def using shift [of 4] shift [of 100] shift [of 400] by simp
  have imp: "100 dvd a + 1 \<Longrightarrow> 4 dvd a + 1" "400 dvd a + 1 \<Longrightarrow> 100 dvd a + 1"
    by (rule dvd_trans [of 4 100], simp, assumption) (rule dvd_trans [of 100 400], simp, assumption)
  have y1: "y + 1 - 2000 = a + 1" by (simp add: a_def)
  have next_div: "(a + 1) div 4 = a div 4 + (if 4 dvd a + 1 then 1 else 0)"
      "(a + 1) div 100 = a div 100 + (if 100 dvd a + 1 then 1 else 0)"
      "(a + 1) div 400 = a div 400 + (if 400 dvd a + 1 then 1 else 0)"
    by (rule div_next; simp)+
  show ?thesis
    unfolding marchStart_def marchLen_def leap Let_def y1 next_div a_def [symmetric] by (rule leap_sum [OF imp])
qed

lemma marchLen_range: "365 \<le> marchLen y" "marchLen y \<le> 366"
  by (simp_all add: marchLen_def)

lemma marchStart_mono: "y \<le> y' \<Longrightarrow> marchStart y \<le> marchStart y'"
proof (induction y' rule: int_ge_induct)
  case (step i)
  then show ?case using marchStart_next [of i] marchLen_range [of i] by simp
qed simp

text \<open>The year and the day in it are determined by the number of the day.\<close>

lemma march_unique:
  assumes "marchStart y + d = marchStart y' + d'" and "0 \<le> d" "d < marchLen y" and "0 \<le> d'" "d' < marchLen y'"
  shows "y = y' \<and> d = d'"
proof -
  have "marchStart (y + 1) \<le> marchStart y'" if "y < y'" using that by (intro marchStart_mono) simp
  moreover have "marchStart (y' + 1) \<le> marchStart y" if "y' < y" using that by (intro marchStart_mono) simp
  ultimately have "\<not> y < y'" "\<not> y' < y" using assms marchStart_next [of y] marchStart_next [of y'] by auto
  then show ?thesis using assms(1) by simp
qed

lemma marchStart_parts:
  assumes "0 \<le> c" "c \<le> 3" "0 \<le> q" "q \<le> 24" "0 \<le> y" "y \<le> 3"
  shows "marchStart (2000 + 400 * era + 100 * c + 4 * q + y) = 146097 * era + 36524 * c + 1461 * q + 365 * y"
proof -
  let ?a = "400 * era + 100 * c + 4 * q + y"
  have "?a div 4 = 100 * era + 25 * c + q"
    by (rule int_div_pos_eq [where r = y]) (use assms in simp_all)
  moreover have "?a div 100 = 4 * era + c"
    by (rule int_div_pos_eq [where r = "4 * q + y"]) (use assms in simp_all)
  moreover have "?a div 400 = era"
    by (rule int_div_pos_eq [where r = "100 * c + 4 * q + y"]) (use assms in simp_all)
  moreover have "2000 + 400 * era + 100 * c + 4 * q + y - 2000 = ?a" by simp
  ultimately show ?thesis unfolding marchStart_def Let_def by (simp only:) simp
qed

lemma marchLen_parts:
  "marchLen (2000 + 400 * era + 100 * c + 4 * q + y) = 366 \<longleftrightarrow>
   4 dvd y + 1 \<and> (\<not> 100 dvd 4 * q + y + 1 \<or> 400 dvd 100 * c + 4 * q + y + 1)"
proof -
  have "4 dvd 2000 + 400 * era + 100 * c + 4 * q + y + 1 \<longleftrightarrow> 4 dvd y + 1"
    using dvd_add_right_iff [of 4 "4 * (500 + 100 * era + 25 * c + q)" "y + 1"] by (simp add: algebra_simps)
  moreover have "100 dvd 2000 + 400 * era + 100 * c + 4 * q + y + 1 \<longleftrightarrow> 100 dvd 4 * q + y + 1"
    using dvd_add_right_iff [of 100 "100 * (20 + 4 * era + c)" "4 * q + y + 1"] by (simp add: algebra_simps)
  moreover have "400 dvd 2000 + 400 * era + 100 * c + 4 * q + y + 1 \<longleftrightarrow> 400 dvd 100 * c + 4 * q + y + 1"
    using dvd_add_right_iff [of 400 "400 * (5 + era)" "100 * c + 4 * q + y + 1"] by (simp add: algebra_simps)
  ultimately show ?thesis by (simp add: marchLen_def isLeap_def)
qed

text \<open>Four equal parts with one day more at the end.\<close>

lemma fourth_part:
  assumes "0 < n" "0 \<le> x" "x \<le> 4 * n" and "c = min 3 (x div n)"
  shows "0 \<le> c" "c \<le> 3" "0 \<le> x - n * c" "c < 3 \<Longrightarrow> x - n * c < n" "x - n * c \<le> (n :: int)"
proof -
  have "0 \<le> x div n" using assms by (simp add: pos_imp_zdiv_nonneg_iff)
  then show c: "0 \<le> c" "c \<le> 3" using assms(4) by (simp_all add: min_def)
  have x: "n * (x div n) + x mod n = x" "0 \<le> x mod n" "x mod n < n" using assms(1) by simp_all
  show "0 \<le> x - n * c"
  proof -
    have "n * c \<le> n * (x div n)" using assms(1,4) by (intro mult_left_mono) auto
    then show ?thesis using x by linarith
  qed
  show "x - n * c < n" if "c < 3"
  proof -
    have c_div: "c = x div n" using that assms(4) by (simp add: min_def split: if_splits)
    show ?thesis unfolding c_div using x by linarith
  qed
  then show "x - n * c \<le> n" using c(2) assms(3) by (cases "c = 3") auto
qed

lemma marchYear_ok:
  assumes "marchYear days = (y, doy)"
  shows "days = 11017 + marchStart y + doy" and "0 \<le> doy" and "doy < marchLen y"
proof -
  define z where "z = days - 11017"
  define era doe where "era = z div 146097" and "doe = z mod 146097"
  define c where "c = min 3 (doe div 36524)"
  define doc where "doc = doe - 36524 * c"
  define q doq where "q = doc div 1461" and "doq = doc mod 1461"
  define yy where "yy = min 3 (doq div 365)"
  have y: "y = 2000 + 400 * era + 100 * c + 4 * q + yy" and doy: "doy = doq - 365 * yy"
    using assms unfolding marchYear_def z_def era_def doe_def c_def doc_def q_def doq_def yy_def Let_def
    by (simp_all only: prod.inject)
  have z: "z = 146097 * era + doe" "0 \<le> doe" "doe < 146097" by (simp_all add: era_def doe_def)
  have c: "0 \<le> c" "c \<le> 3" "0 \<le> doc" "c < 3 \<Longrightarrow> doc < 36524" "doc \<le> 36524"
    using fourth_part [of 36524 doe c] z(2,3) by (simp_all add: doc_def c_def)
  have q: "doc = 1461 * q + doq" "0 \<le> doq" "doq < 1461" by (simp_all add: q_def doq_def)
  have q24: "0 \<le> q" "q \<le> 24" using q c by linarith+
  have yy: "0 \<le> yy" "yy \<le> 3" "0 \<le> doy" "yy < 3 \<Longrightarrow> doy < 365" "doy \<le> 365"
    using fourth_part [of 365 doq yy] q(2,3) by (simp_all add: doy yy_def)
  show "days = 11017 + marchStart y + doy"
    using marchStart_parts [OF c(1,2) q24 yy(1,2), of era] z q(1) unfolding y doy z_def doc_def by linarith
  show "0 \<le> doy" by (rule yy(3))
  show "doy < marchLen y"
  proof (cases "doy < 365")
    case True
    then show ?thesis using marchLen_range(1) [of y] by linarith
  next
    case False
    then have yy3: "yy = 3" and d: "doy = 365" using yy by linarith+
    then have "doq = 1460" using doy by simp
    then have "q = 24 \<Longrightarrow> c = 3" using c q(1) by linarith
    moreover have "\<not> 100 dvd 4 * q + 4" if "q \<noteq> 24"
      using that q24 by (intro zdvd_not_zless) auto
    ultimately have "\<not> 100 dvd 4 * q + yy + 1 \<or> 400 dvd 100 * c + 4 * q + yy + 1"
      using yy3 by (cases "q = 24") (simp_all add: add.commute)
    then have "marchLen y = 366" unfolding y marchLen_parts using yy3 by simp
    then show ?thesis using d by simp
  qed
qed

lemma marchYear_unique:
  assumes "days = 11017 + marchStart y + doy" and "0 \<le> doy" and "doy < marchLen y"
  shows "marchYear days = (y, doy)"
proof -
  obtain y' doy' where m: "marchYear days = (y', doy')" by fastforce
  show ?thesis using march_unique [of y' doy' y doy] marchYear_ok [OF m] assms m by auto
qed

text \<open>The month and the day in it, from the day in a year that begins in March.\<close>

definition monthStart :: "int \<Rightarrow> int" where
  "monthStart m = sum_list (take (nat (m - 3)) marchMonths)"

lemma monthStart_simps:
  "monthStart 3 = 0" "monthStart 4 = 31" "monthStart 5 = 61" "monthStart 6 = 92" "monthStart 7 = 122"
  "monthStart 8 = 153" "monthStart 9 = 184" "monthStart 10 = 214" "monthStart 11 = 245" "monthStart 12 = 275"
  "monthStart 13 = 306" "monthStart 14 = 337"
  by (simp_all add: monthStart_def marchMonths_def)

lemma marchMonth_intervals:
  assumes "0 \<le> doy"
  shows "marchMonth marchMonths 3 doy =
    (if doy < 31 then (3, doy) else if doy < 61 then (4, doy - 31) else if doy < 92 then (5, doy - 61)
     else if doy < 122 then (6, doy - 92) else if doy < 153 then (7, doy - 122) else if doy < 184 then (8, doy - 153)
     else if doy < 214 then (9, doy - 184) else if doy < 245 then (10, doy - 214) else if doy < 275 then (11, doy - 245)
     else if doy < 306 then (12, doy - 275) else if doy < 337 then (13, doy - 306) else (14, doy - 337))"
  by (simp add: marchMonths_def not_le)

definition monthLen :: "int \<Rightarrow> int \<Rightarrow> int" where
  "monthLen y m = (if m = 2 then if isLeap y then 29 else 28 else if m \<in> {4, 6, 9, 11} then 30 else 31)"

definition nextDate :: "int \<times> int \<times> int \<Rightarrow> int \<times> int \<times> int" where
  "nextDate date = (case date of (y, m, d) \<Rightarrow>
     if d < monthLen y m then (y, m, d + 1) else if m < 12 then (y, m + 1, 1) else (y + 1, 1, 1))"

lemma marchMonth_next:
  assumes "0 \<le> doy" and "doy + 1 < marchLen y" and "marchMonth marchMonths 3 doy = (m, d)"
  shows "marchMonth marchMonths 3 (doy + 1) =
    (if d + 1 < (if m = 14 then marchLen y - 337 else monthLen y (if m \<le> 12 then m else m - 12)) then (m, d + 1) else (m + 1, 0))"
  using assms marchLen_range [of y] by (simp add: marchMonth_intervals monthLen_def split: if_splits)

lemma civilDate_next: "civilDate (days + 1) = nextDate (civilDate days)"
proof -
  obtain y doy where m: "marchYear days = (y, doy)" by fastforce
  obtain mo d where mo: "marchMonth marchMonths 3 doy = (mo, d)" by fastforce
  note ok = marchYear_ok [OF m]
  show ?thesis
  proof (cases "doy + 1 < marchLen y")
    case True
    then have "marchYear (days + 1) = (y, doy + 1)" using ok by (intro marchYear_unique) auto
    then show ?thesis
      using marchMonth_next [OF ok(2) True mo] m mo ok(2)
      by (auto simp: civilDate_def nextDate_def monthLen_def marchLen_def marchMonth_intervals split: if_splits)
  next
    case False
    then have "doy = marchLen y - 1" using ok by simp
    moreover have "marchYear (days + 1) = (y + 1, 0)"
      using ok False marchLen_range [of "y + 1"] by (intro marchYear_unique) (auto simp: marchStart_next)
    ultimately show ?thesis
      using m by (simp add: civilDate_def nextDate_def monthLen_def marchLen_def marchMonth_intervals)
  qed
qed

text \<open>The number of a day from its date, and the time stamp from its text.\<close>

definition dayOfDate :: "int \<Rightarrow> int \<Rightarrow> int \<Rightarrow> int" where
  "dayOfDate y m d =
     11017 + marchStart (if m \<le> 2 then y - 1 else y) + monthStart (if m \<le> 2 then m + 12 else m) + d - 1"

definition unsigned_text :: "string \<Rightarrow> int" where
  "unsigned_text s = (case s of [] \<Rightarrow> 0 | c # cs \<Rightarrow> if c = CHR ''-'' then - int (undecimal cs) else int (undecimal s))"

definition twoDigits :: "string \<Rightarrow> nat \<Rightarrow> int" where
  "twoDigits s i = int (undecimal (take 2 (drop i s)))"

definition readTs :: "string \<Rightarrow> int" where
  "readTs s =
     (let n = length s - 18; r = drop n s;
          day = dayOfDate (unsigned_text (take n s)) (twoDigits r 1) (twoDigits r 4);
          hour = twoDigits r 7 mod 12 + (if r ! 16 = CHR ''P'' then 12 else 0)
      in 86400 * day + 3600 * hour + 60 * twoDigits r 10 + twoDigits r 13)"

text \<open>The date and the time of day that a text shows: year, month and day, and the last eleven characters.\<close>

definition dateOf :: "string \<Rightarrow> int \<times> int \<times> int" where
  "dateOf s = (let n = length s - 18; r = drop n s in (unsigned_text (take n s), twoDigits r 1, twoDigits r 4))"

definition clockOf :: "string \<Rightarrow> string" where
  "clockOf s = drop (length s - 11) s"

lemma civilDate_inverse:
  assumes "civilDate days = (y, m, d)"
  shows "dayOfDate y m d = days" and "1 \<le> m" "m \<le> 12" "1 \<le> d" "d \<le> 31"
proof -
  obtain yy doy where m: "marchYear days = (yy, doy)" by fastforce
  note ok = marchYear_ok [OF m] marchLen_range [of yy]
  have "dayOfDate y m d = days \<and> 1 \<le> m \<and> m \<le> 12 \<and> 1 \<le> d \<and> d \<le> 31"
    using assms m ok
    by (auto simp: civilDate_def dayOfDate_def marchMonth_intervals monthStart_simps split: if_splits)
  then show "dayOfDate y m d = days" and "1 \<le> m" "m \<le> 12" "1 \<le> d" "d \<le> 31" by simp_all
qed

lemma unsigned_signed [simp]: "unsigned_text (signed y) = y"
proof (cases "y < 0")
  case False
  obtain c cs where d: "decimal (nat y) = c # cs" by (cases "decimal (nat y)") auto
  have "c \<noteq> CHR ''-''" using decimal_digits [of "nat y"] unfolding d by auto
  then show ?thesis using False undecimal_decimal [of "nat y"] by (simp add: unsigned_text_def signed_def d)
qed (simp add: unsigned_text_def signed_def)

lemma length_padded_2: "n < 100 \<Longrightarrow> length (padded 2 n) = 2"
  by (simp add: padded_2)

lemma clock_24:
  assumes "0 \<le> h" "h < 24"
  shows "(if h mod 12 = 0 then 12 else h mod 12) mod 12 + (if h < 12 then 0 else 12) = (h :: int)"
proof (cases "h < 12")
  case False
  then have "h mod 12 = h - 12" using assms by presburger
  then show ?thesis using False assms by simp
qed (use assms in simp)

lemma readTs_fields:
  assumes len: "length a = 2" "length b = 2" "length c = 2" "length d = 2" "length e = 2" and p: "p \<in> {''AM'', ''PM''}"
  shows "readTs (signed y @ ''-'' @ a @ ''-'' @ b @ '' '' @ c @ '':'' @ d @ '':'' @ e @ '' '' @ p) =
    86400 * dayOfDate y (int (undecimal a)) (int (undecimal b))
    + 3600 * (int (undecimal c) mod 12 + (if p = ''PM'' then 12 else 0)) + 60 * int (undecimal d) + int (undecimal e)"
proof -
  let ?r = "''-'' @ a @ ''-'' @ b @ '' '' @ c @ '':'' @ d @ '':'' @ e @ '' '' @ p"
  have n: "length (signed y @ ?r) - 18 = length (signed y)" using len p by auto
  have "take 2 (drop 1 ?r) = a" "take 2 (drop 4 ?r) = b" "take 2 (drop 7 ?r) = c" "take 2 (drop 10 ?r) = d"
    "take 2 (drop 13 ?r) = e" "?r ! 16 = hd p"
    using len p by (auto simp: numeral_2_eq_2 length_Suc_conv)
  then have "twoDigits ?r 1 = int (undecimal a)" "twoDigits ?r 4 = int (undecimal b)"
    "twoDigits ?r 7 = int (undecimal c)" "twoDigits ?r 10 = int (undecimal d)" "twoDigits ?r 13 = int (undecimal e)"
    "?r ! 16 = CHR ''P'' \<longleftrightarrow> p = ''PM''"
    using p unfolding twoDigits_def by auto
  then show ?thesis unfolding readTs_def Let_def n by simp
qed

lemma readTs_put_time:
  assumes "0 \<le> tm_mon t" "tm_mon t < 12" "0 \<le> tm_mday t" "tm_mday t < 32" "0 \<le> tm_hour t" "tm_hour t < 24"
    "0 \<le> tm_min t" "tm_min t < 60" "0 \<le> tm_sec t" "tm_sec t < 60"
  shows "readTs (put_time t) = 86400 * dayOfDate (tm_year t + 1900) (tm_mon t + 1) (tm_mday t)
    + 3600 * tm_hour t + 60 * tm_min t + tm_sec t"
proof -
  let ?h = "if tm_hour t mod 12 = 0 then 12 else tm_hour t mod 12"
  have "0 \<le> tm_hour t mod 12" "tm_hour t mod 12 < 12" by simp_all
  then have h: "0 \<le> ?h" "?h < 100" by (simp_all del: pos_mod_bound pos_mod_sign)
  have "undecimal (padded 2 (nat x)) = nat x" "length (padded 2 (nat x)) = 2" if "0 \<le> x" "x < 100" for x
    using that by (simp_all add: undecimal_padded_2 length_padded_2 nat_less_iff)
  note two = this
  have hour: "int (undecimal (padded 2 (nat ?h))) mod 12 + (if (if tm_hour t < 12 then ''AM'' else ''PM'') = ''PM'' then 12 else 0) = tm_hour t"
    unfolding two(1) [OF h] nat_0_le [OF h(1)] using clock_24 [OF assms(5,6)] by (cases "tm_hour t < 12") simp_all
  show ?thesis
    unfolding put_time_def
    by (subst readTs_fields; (subst hour)?) (use assms h in \<open>simp_all add: two\<close>)
qed

lemma drop_prefix: "drop (length xs) (xs @ ys) = ys"
  by simp

lemma shown_put_time:
  assumes "0 \<le> tm_mon t" "tm_mon t < 12" "0 \<le> tm_mday t" "tm_mday t < 32" "0 \<le> tm_hour t" "tm_hour t < 24"
    "0 \<le> tm_min t" "tm_min t < 60" "0 \<le> tm_sec t" "tm_sec t < 60"
  shows "dateOf (put_time t) = (tm_year t + 1900, tm_mon t + 1, tm_mday t)"
    and "clockOf (put_time t) = padded 2 (nat (if tm_hour t mod 12 = 0 then 12 else tm_hour t mod 12)) @ '':''
      @ padded 2 (nat (tm_min t)) @ '':'' @ padded 2 (nat (tm_sec t)) @ '' '' @ (if tm_hour t < 12 then ''AM'' else ''PM'')"
proof -
  let ?h = "if tm_hour t mod 12 = 0 then 12 else tm_hour t mod 12"
  let ?a = "padded 2 (nat (tm_mon t + 1))" and ?b = "padded 2 (nat (tm_mday t))" and ?y = "signed (tm_year t + 1900)"
  let ?c = "padded 2 (nat ?h) @ '':'' @ padded 2 (nat (tm_min t)) @ '':'' @ padded 2 (nat (tm_sec t)) @ '' ''
      @ (if tm_hour t < 12 then ''AM'' else ''PM'')"
  have "0 \<le> tm_hour t mod 12" "tm_hour t mod 12 < 12" by simp_all
  then have h: "0 \<le> ?h" "?h < 100" by (simp_all del: pos_mod_bound pos_mod_sign)
  have two: "undecimal (padded 2 (nat x)) = nat x" "length (padded 2 (nat x)) = 2" if "0 \<le> x" "x < 100" for x
    using that by (simp_all add: undecimal_padded_2 length_padded_2 nat_less_iff)
  have c: "length ?c = 11" using two(2) [OF h] two(2) [of "tm_min t"] two(2) [of "tm_sec t"] assms by simp
  let ?r = "''-'' @ ?a @ ''-'' @ ?b @ '' '' @ ?c"
  have ab: "length ?a = 2" "length ?b = 2" using two(2) [of "tm_mon t + 1"] two(2) [of "tm_mday t"] assms by simp_all
  have s: "put_time t = ?y @ ?r" by (simp add: put_time_def)
  have n: "length (?y @ ?r) - 18 = length ?y" "length (?y @ ?r) - 11 = length (?y @ ''-'' @ ?a @ ''-'' @ ?b @ '' '')"
    using c ab by simp_all
  have "take 2 (drop 1 ?r) = ?a" "take 2 (drop 4 ?r) = ?b" using ab by (auto simp: numeral_2_eq_2 length_Suc_conv)
  then have "twoDigits ?r 1 = tm_mon t + 1" "twoDigits ?r 4 = tm_mday t"
    unfolding twoDigits_def using assms by (simp_all add: two(1))
  then show "dateOf (put_time t) = (tm_year t + 1900, tm_mon t + 1, tm_mday t)"
    unfolding s dateOf_def Let_def n(1) by simp
  have "clockOf (put_time t) = drop (length (?y @ ''-'' @ ?a @ ''-'' @ ?b @ '' '')) ((?y @ ''-'' @ ?a @ ''-'' @ ?b @ '' '') @ ?c)"
    unfolding s clockOf_def n(2) by simp
  also have "\<dots> = ?c" by (rule drop_prefix)
  finally show "clockOf (put_time t) = ?c" .
qed

lemma gmtime_fields:
  assumes "gmtime ts = Some t"
  shows "dayOfDate (tm_year t + 1900) (tm_mon t + 1) (tm_mday t) = ts div 86400"
    and "3600 * tm_hour t + 60 * tm_min t + tm_sec t = ts mod 86400"
    and "0 \<le> tm_mon t" "tm_mon t < 12" "1 \<le> tm_mday t" "tm_mday t < 32" "0 \<le> tm_hour t" "tm_hour t < 24"
    and "0 \<le> tm_min t" "tm_min t < 60" "0 \<le> tm_sec t" "tm_sec t < 60"
proof -
  obtain y m d where c: "civilDate (ts div 86400) = (y, m, d)" by (metis prod_cases3)
  have t: "t = \<lparr>tm_sec = ts mod 86400 mod 60, tm_min = ts mod 86400 div 60 mod 60, tm_hour = ts mod 86400 div 3600,
      tm_mday = d, tm_mon = m - 1, tm_year = y - 1900\<rparr>"
    using assms c by (simp add: gmtime_def Let_def split: if_splits)
  note inv = civilDate_inverse [OF c]
  show "dayOfDate (tm_year t + 1900) (tm_mon t + 1) (tm_mday t) = ts div 86400"
    "0 \<le> tm_mon t" "tm_mon t < 12" "1 \<le> tm_mday t" "tm_mday t < 32"
    using inv by (simp_all add: t)
  define s where "s = ts mod 86400"
  have s: "0 \<le> s" "s < 86400" by (simp_all add: s_def)
  show "0 \<le> tm_hour t" "tm_hour t < 24" "0 \<le> tm_min t" "tm_min t < 60" "0 \<le> tm_sec t" "tm_sec t < 60"
    using s by (simp_all add: t flip: s_def)
  have "s = 60 * (s div 60) + s mod 60" "s div 60 = 60 * (s div 3600) + s div 60 mod 60"
    using zdiv_zmult2_eq [of 60 s 60] by (simp_all add: mult.commute)
  then have "3600 * (s div 3600) + 60 * (s div 60 mod 60) + s mod 60 = s" by linarith
  then show "3600 * tm_hour t + 60 * tm_min t + tm_sec t = ts mod 86400" unfolding t by (simp flip: s_def)
qed

lemma civilDate_year_bound:
  assumes "civilDate days = (y, m, d)"
  shows "365 * \<bar>y - 2000\<bar> \<le> \<bar>days\<bar> + 11800"
proof -
  obtain yy doy where my: "marchYear days = (yy, doy)" by fastforce
  note ok = marchYear_ok [OF my] marchLen_range [of yy]
  have y: "yy \<le> y" "y \<le> yy + 1" using assms my by (auto simp: civilDate_def split: prod.splits if_splits)
  define a where "a = yy - 2000"
  have "365 * \<bar>a\<bar> \<le> \<bar>marchStart yy\<bar> + 1"
  proof (cases "0 \<le> a")
    case True
    then show ?thesis unfolding marchStart_def Let_def a_def [symmetric] by linarith
  next
    case False
    then show ?thesis unfolding marchStart_def Let_def a_def [symmetric] by linarith
  qed
  moreover have "\<bar>y - 2000\<bar> \<le> \<bar>a\<bar> + 1" using y unfolding a_def by (auto simp: abs_if)
  moreover have "\<bar>marchStart yy\<bar> \<le> \<bar>days\<bar> + 11017 + 366" using ok by linarith
  moreover have "365 * Y \<le> D + 11800" if "365 * A \<le> M + 1" "Y \<le> A + 1" "M \<le> D + 11017 + 366" for A D M Y :: int
    using that by linarith
  ultimately show ?thesis by blast
qed

section \<open>Properties\<close>

lemma gmtime_range:
  assumes "\<bar>ts\<bar> \<le> 2 ^ 54 + 86400"
  shows "\<exists>t. gmtime ts = Some t"
proof -
  obtain y m d where c: "civilDate (ts div 86400) = (y, m, d)" by (metis prod_cases3)
  have "- (2 ^ 39) \<le> ts div 86400" "ts div 86400 \<le> 2 ^ 39" using assms by (auto simp: abs_le_iff)
  then show ?thesis using civilDate_year_bound [OF c] c by (simp add: gmtime_def Let_def abs_if split: if_splits)
qed

lemma gmtime_Some:
  assumes "gmtime ts = Some t"
  shows "civilDate (ts div 86400) = (tm_year t + 1900, tm_mon t + 1, tm_mday t)"
    and "tm_hour t = ts mod 86400 div 3600" "tm_min t = ts mod 86400 div 60 mod 60" "tm_sec t = ts mod 86400 mod 60"
proof -
  obtain y m d where c: "civilDate (ts div 86400) = (y, m, d)" by (metis prod_cases3)
  have "t = \<lparr>tm_sec = ts mod 86400 mod 60, tm_min = ts mod 86400 div 60 mod 60, tm_hour = ts mod 86400 div 3600,
      tm_mday = d, tm_mon = m - 1, tm_year = y - 1900\<rparr>"
    using assms c by (simp add: gmtime_def Let_def split: if_splits)
  then show "civilDate (ts div 86400) = (tm_year t + 1900, tm_mon t + 1, tm_mday t)"
    "tm_hour t = ts mod 86400 div 3600" "tm_min t = ts mod 86400 div 60 mod 60" "tm_sec t = ts mod 86400 mod 60"
    using c by simp_all
qed

lemma gmtime_next_day:
  assumes "gmtime ts = Some t" and "gmtime (ts + 86400) = Some t'"
  shows "(tm_year t' + 1900, tm_mon t' + 1, tm_mday t') = nextDate (tm_year t + 1900, tm_mon t + 1, tm_mday t)"
    and "tm_hour t' = tm_hour t" "tm_min t' = tm_min t" "tm_sec t' = tm_sec t"
proof -
  have n: "(ts + 86400) div 86400 = ts div 86400 + 1" "(ts + 86400) mod 86400 = ts mod 86400" by simp_all
  note a = gmtime_Some [OF assms(1)] and b = gmtime_Some [OF assms(2), unfolded n]
  show "(tm_year t' + 1900, tm_mon t' + 1, tm_mday t') = nextDate (tm_year t + 1900, tm_mon t + 1, tm_mday t)"
    using civilDate_next [of "ts div 86400"] unfolding a(1) b(1) .
  show "tm_hour t' = tm_hour t" "tm_min t' = tm_min t" "tm_sec t' = tm_sec t" unfolding a(2-4) b(2-4) by (rule refl)+
qed

text \<open>
  C29. The text of a time stamp stands for this very second: for every time stamp of at most \<open>2 ^ 54\<close> seconds
  (some 570 million years) before or after the beginning of 1970, \<open>stringFromTs\<close> returns a text from which the
  time stamp can be read back with the rules of the calendar. The text that it returns for a day later
  shows the next date of the Gregorian calendar, with its leap years, and the same time of day. Time stamp
  0 is the midnight at which 1970 begins. For the last of the 64-bit time stamps \<open>gmtime\<close> has no result, and
  the code uses its null pointer.
\<close>

theorem timestamp_text_roundtrip:
  assumes "\<bar>ts\<bar> \<le> 2 ^ 54"
  shows "\<exists>text text'. stringFromTs ts = Inr text \<and> readTs text = ts
    \<and> stringFromTs (ts + 86400) = Inr text' \<and> dateOf text' = nextDate (dateOf text) \<and> clockOf text' = clockOf text
    \<and> stringFromTs 0 = Inr ''1970-01-01 12:00:00 AM'' \<and> stringFromTs (2 ^ 63 - 1) = Inl (Undefined ''null pointer'')"
proof -
  obtain t where t: "gmtime ts = Some t" using gmtime_range [of ts] assms by auto
  obtain t' where t': "gmtime (ts + 86400) = Some t'" using gmtime_range [of "ts + 86400"] assms by fastforce
  note f = gmtime_fields [OF t] and f' = gmtime_fields [OF t'] and d = gmtime_next_day [OF t t']
  have "readTs (put_time t) = 86400 * (ts div 86400) + (3600 * tm_hour t + 60 * tm_min t + tm_sec t)"
    using f(1,3-12) by (simp add: readTs_put_time)
  then have "readTs (put_time t) = ts" unfolding f(2) by simp
  moreover have "dateOf (put_time t') = nextDate (dateOf (put_time t))" "clockOf (put_time t') = clockOf (put_time t)"
    using shown_put_time [of t] shown_put_time [of t'] f(3-12) f'(3-12) d by simp_all
  moreover have "stringFromTs 0 = Inr ''1970-01-01 12:00:00 AM''" by code_simp
  moreover have "stringFromTs (2 ^ 63 - 1) = Inl (Undefined ''null pointer'')" by code_simp
  ultimately show ?thesis using t t' by (simp add: stringFromTs_def)
qed

theorem timestamp_text_roundtrip_witness:
  "\<exists>text'. stringFromTs 1709210096 = Inr ''2024-02-29 12:34:56 PM'' \<and> readTs ''2024-02-29 12:34:56 PM'' = 1709210096
    \<and> stringFromTs (1709210096 + 86400) = Inr text' \<and> dateOf text' = (2024, 3, 1) \<and> clockOf text' = ''12:34:56 PM''"
proof -
  have s: "stringFromTs 1709210096 = Inr ''2024-02-29 12:34:56 PM''" by code_simp
  have d: "nextDate (dateOf ''2024-02-29 12:34:56 PM'') = (2024, 3, 1)" by code_simp
  have c: "clockOf ''2024-02-29 12:34:56 PM'' = ''12:34:56 PM''" by code_simp
  have "\<bar>1709210096 :: int\<bar> \<le> 2 ^ 54" by simp
  from timestamp_text_roundtrip [OF this] show ?thesis unfolding s using d c by auto
qed

text \<open>
  \<open>init\<close> replaces client and name if the client can be made and leaves both as they are otherwise; an
  exception of the library then reaches the caller as a plain \<open>std::exception\<close>, unless the encoding threw it.
\<close>

lemma init_outcome:
  "case connectorInit encode_uri toJson mkClient ident pw host db opts enc c of
     (None, c') \<Rightarrow> \<exists>cs json client. connString encode_uri ident pw host db enc = Inr cs
        \<and> toJson (registry c @ registOptions) (case opts of Some opt \<Rightarrow> opt | None \<Rightarrow> newClientOptions) = Inr json
        \<and> mkClient cs json = Inr client \<and> mc_client c' = Some client \<and> mc_dbname c' = db
   | (Some f, c') \<Rightarrow> mc_client c' = mc_client c \<and> mc_dbname c' = mc_dbname c
        \<and> (connString encode_uri ident pw host db enc = Inl f \<or> f = Other_exception ''std::exception'' \<or> \<not> is_exception f)"
  by (auto simp: connectorInit_def Let_def caughtCopy_def bindR_def split: sum.splits)

text \<open>The delimiters of the connection string.\<close>

definition uriDelims :: "char set" where
  "uriDelims = {CHR '':'', CHR ''@'', CHR ''/''}"

text \<open>An encoding that goes character by character and can be undone.\<close>

definition prefixFree :: "(char \<Rightarrow> string) \<Rightarrow> bool" where
  "prefixFree f \<longleftrightarrow> (\<forall>c c' r r'. f c @ r = f c' @ r' \<longrightarrow> c = c' \<and> r = r')"

lemma prefixFree_nonempty:
  assumes "prefixFree f"
  shows "f c \<noteq> []"
proof
  assume e: "f c = []"
  have "CHR ''a'' \<noteq> CHR ''b''" by simp
  then obtain c' where "c' \<noteq> c" by metis
  moreover have "f c @ f c' = f c' @ []" using e by simp
  ultimately show False using assms unfolding prefixFree_def by metis
qed

lemma prefixFree_inj: "prefixFree f \<Longrightarrow> concat (map f s) = concat (map f s') \<Longrightarrow> s = s'"
proof (induction s arbitrary: s')
  case Nil
  then show ?case using prefixFree_nonempty by (cases s') auto
next
  case (Cons c s)
  show ?case
  proof (cases s')
    case Nil
    then show ?thesis using Cons.prems prefixFree_nonempty [of f c] by auto
  next
    case (Cons c' r)
    then have "f c @ concat (map f s) = f c' @ concat (map f r)" using Cons.prems(2) by simp
    then have "c = c' \<and> concat (map f s) = concat (map f r)" using Cons.prems(1) unfolding prefixFree_def by blast
    then show ?thesis using Cons.IH [OF Cons.prems(1)] Cons by blast
  qed
qed

lemma cut_at: "x @ [s] @ r = x' @ [s] @ r' \<Longrightarrow> s \<notin> set x \<Longrightarrow> s \<notin> set x' \<Longrightarrow> x = x' \<and> r = r'"
proof (induction x arbitrary: x')
  case Nil
  then show ?case by (cases x') auto
next
  case (Cons a x)
  then show ?case by (cases x') auto
qed

text \<open>
  C30. What the connection string says, when \<open>encode_uri\<close> is called as the code calls it, for a whole URI: the
  characters that structure a URI, the colon, the at sign and the slash among them, are left as they are,
  and the other ones are encoded, each by itself. Then the string determines account, password, host and
  database if the account has no colon, the password no at sign and the host no slash, and the encoding
  adds nothing to that: with it as without it, a colon in the account moves to the password what comes
  after it, an at sign in the password makes what comes after it a part of the host, and a slash in the
  host makes what comes after it a part of the database name.
\<close>

theorem connection_string_ambiguity:
  assumes "\<forall>s. encode_uri s = Inr (concat (map f s))" and "\<forall>c \<in> uriDelims. f c = [c]"
    and "\<forall>c. c \<notin> uriDelims \<longrightarrow> set (f c) \<inter> uriDelims = {}"
    and "prefixFree f"
  shows "(CHR '':'' \<notin> set ident \<union> set ident' \<and> CHR ''@'' \<notin> set pw \<union> set pw' \<and> CHR ''/'' \<notin> set host \<union> set host' \<longrightarrow>
      (connString encode_uri ident pw host db u = connString encode_uri ident' pw' host' db' u \<longleftrightarrow>
       (ident, pw, host, db) = (ident', pw', host', db')))
    \<and> connString encode_uri (a @ '':'' @ b) pw host db u = connString encode_uri a (b @ '':'' @ pw) host db u
    \<and> connString encode_uri ident (a @ ''@'' @ b) host db u =
        connString encode_uri ident a ((if u then concat (map f b) else b) @ ''@'' @ host) db u
    \<and> connString encode_uri ident pw (a @ ''/'' @ b) db u = connString encode_uri ident pw a (b @ ''/'' @ db) u"
proof -
  let ?e = "\<lambda>s. if u then concat (map f s) else s"
  have cs: "connString encode_uri i p h d u = Inr (''mysqlx://'' @ ?e i @ '':'' @ ?e p @ ''@'' @ h @ ''/'' @ d)" for i p h d
    using assms(1) by (simp add: connString_def)
  have inj: "?e s = ?e s' \<Longrightarrow> s = s'" for s s' using prefixFree_inj [OF assms(4)] by (simp split: if_splits)
  have in_f: "x \<in> set (f c) \<longleftrightarrow> x = c" if "x \<in> uriDelims" for x c
  proof (cases "c \<in> uriDelims")
    case True
    then have "f c = [c]" using assms(2) by blast
    then show ?thesis by simp
  next
    case False
    then have "set (f c) \<inter> uriDelims = {}" using assms(3) by blast
    then show ?thesis using that False by blast
  qed
  have kept: "x \<in> set (?e s) \<longleftrightarrow> x \<in> set s" if "x \<in> uriDelims" for x s
    using in_f [OF that] by (auto split: if_splits)
  have "(ident, pw, host, db) = (ident', pw', host', db')"
    if free: "CHR '':'' \<notin> set ident \<union> set ident'" "CHR ''@'' \<notin> set pw \<union> set pw'" "CHR ''/'' \<notin> set host \<union> set host'"
      and eq: "connString encode_uri ident pw host db u = connString encode_uri ident' pw' host' db' u"
  proof -
    have "?e ident @ [CHR '':''] @ (?e pw @ [CHR ''@''] @ host @ [CHR ''/''] @ db) =
        ?e ident' @ [CHR '':''] @ (?e pw' @ [CHR ''@''] @ host' @ [CHR ''/''] @ db')" using eq unfolding cs by simp
    from cut_at [OF this] have i: "?e ident = ?e ident'"
      and r: "?e pw @ [CHR ''@''] @ (host @ [CHR ''/''] @ db) = ?e pw' @ [CHR ''@''] @ (host' @ [CHR ''/''] @ db')"
      using free(1) kept [of "CHR '':''"] by (simp_all add: uriDelims_def)
    from cut_at [OF r] have p: "?e pw = ?e pw'" and h: "host @ [CHR ''/''] @ db = host' @ [CHR ''/''] @ db'"
      using free(2) kept [of "CHR ''@''"] by (simp_all add: uriDelims_def)
    show ?thesis using cut_at [OF h] free(3) inj [OF i] inj [OF p] by blast
  qed
  moreover have "f (CHR '':'') = '':''" "f (CHR ''@'') = ''@''" using assms(2) by (simp_all add: uriDelims_def)
  ultimately show ?thesis unfolding cs by auto
qed

text \<open>
  An encoding of this kind for the witness: letters, digits, the marks \<open>-._~\<close> and the delimiters of a URI stay,
  every other character is a percent sign and two hexadecimal digits.
\<close>

definition keptChar :: "char \<Rightarrow> bool" where
  "keptChar c \<longleftrightarrow> (let n = of_char c :: nat in 48 \<le> n \<and> n < 58 \<or> 65 \<le> n \<and> n < 91 \<or> 97 \<le> n \<and> n < 123)
     \<or> c \<in> set ''-._~:/?#[]@!$&()*+,;=''"

definition hexDigit :: "nat \<Rightarrow> char" where
  "hexDigit k = char_of (if k < 10 then 48 + k else 55 + k)"

definition percentChar :: "char \<Rightarrow> string" where
  "percentChar c = (if keptChar c then [c] else [CHR ''%'', hexDigit (of_char c div 16), hexDigit (of_char c mod 16)])"

lemma of_hexDigit: "k < 16 \<Longrightarrow> of_char (hexDigit k) = (if k < 10 then 48 + k else 55 + k)"
  by (simp add: hexDigit_def)

lemma hexDigit_plain: "k < 16 \<Longrightarrow> hexDigit k \<notin> uriDelims"
proof
  assume k: "k < 16" and "hexDigit k \<in> uriDelims"
  then have "(of_char (hexDigit k) :: nat) \<in> {58, 64, 47}" by (auto simp: uriDelims_def)
  then show False unfolding of_hexDigit [OF k] using k by (auto split: if_splits)
qed

lemma hexDigit_inj: "k < 16 \<Longrightarrow> k' < 16 \<Longrightarrow> hexDigit k = hexDigit k' \<Longrightarrow> k = k'"
proof -
  assume k: "k < 16" "k' < 16" and "hexDigit k = hexDigit k'"
  then have "(if k < 10 then 48 + k else 55 + k) = (if k' < 10 then 48 + k' else 55 + k')"
    using of_hexDigit [OF k(1)] of_hexDigit [OF k(2)] by simp
  then show "k = k'" by (simp split: if_splits)
qed

lemma char_halves: "(of_char c :: nat) div 16 < 16" "(of_char c :: nat) mod 16 < 16" for c :: char
proof -
  have "(of_char c :: nat) < 256" by simp
  then show "(of_char c :: nat) div 16 < 16" "(of_char c :: nat) mod 16 < 16" by linarith+
qed

lemma percentChar_prefix: "prefixFree percentChar"
  unfolding prefixFree_def
proof (intro allI impI)
  fix c c' r r'
  assume eq: "percentChar c @ r = percentChar c' @ r'"
  have pct: "\<not> keptChar (CHR ''%'')" by (simp add: keptChar_def)
  show "c = c' \<and> r = r'"
  proof (cases "keptChar c \<or> keptChar c'")
    case True
    then show ?thesis using eq pct by (auto simp: percentChar_def split: if_splits)
  next
    case False
    then have h: "hexDigit (of_char c div 16) = hexDigit (of_char c' div 16)"
        "hexDigit (of_char c mod 16) = hexDigit (of_char c' mod 16)" and r: "r = r'"
      using eq by (simp_all add: percentChar_def)
    have "(of_char c :: nat) div 16 = of_char c' div 16" "(of_char c :: nat) mod 16 = of_char c' mod 16"
      using hexDigit_inj [OF char_halves(1) char_halves(1) h(1)] hexDigit_inj [OF char_halves(2) char_halves(2) h(2)] by simp_all
    then have "(of_char c :: nat) = of_char c'" by (metis mult_div_mod_eq)
    then show ?thesis using r by simp
  qed
qed

lemma percentChar_other:
  assumes "c \<notin> uriDelims"
  shows "set (percentChar c) \<inter> uriDelims = {}"
proof (cases "keptChar c")
  case True
  then show ?thesis using assms unfolding percentChar_def by auto
next
  case False
  then show ?thesis
    using hexDigit_plain [OF char_halves(1), of c] hexDigit_plain [OF char_halves(2), of c] unfolding percentChar_def
    by (auto simp: uriDelims_def)
qed

definition percentEncode :: "string \<Rightarrow> string result" where
  "percentEncode s = Inr (concat (map percentChar s))"

theorem connection_string_ambiguity_witness:
  "connString percentEncode ''a:b'' ''p'' ''h'' ''d'' True = connString percentEncode ''a'' ''b:p'' ''h'' ''d'' True
    \<and> connString percentEncode ''a'' ''p@q'' ''h'' ''d'' True = connString percentEncode ''a'' ''p'' ''q@h'' ''d'' True
    \<and> connString percentEncode ''a b'' ''p:q'' ''h'' ''d'' True \<noteq> connString percentEncode ''ab'' ''p:q'' ''h'' ''d'' True"
proof -
  have kept: "\<forall>c \<in> uriDelims. percentChar c = [c]" by (simp add: percentChar_def keptChar_def uriDelims_def)
  have q: "percentChar CHR ''q'' = ''q''" by (simp add: percentChar_def keptChar_def)
  have enc: "\<forall>s. percentEncode s = Inr (concat (map percentChar s))" by (simp add: percentEncode_def)
  have other: "\<forall>c. c \<notin> uriDelims \<longrightarrow> set (percentChar c) \<inter> uriDelims = {}"
    using percentChar_other by blast
  note amb = connection_string_ambiguity [OF enc kept other percentChar_prefix]
  have "connString percentEncode ''a:b'' ''p'' ''h'' ''d'' True = connString percentEncode ''a'' ''b:p'' ''h'' ''d'' True"
    using amb [THEN conjunct2, THEN conjunct1, of "''a''" "''b''" "''p''" "''h''" "''d''" True] by simp
  moreover have "connString percentEncode ''a'' ''p@q'' ''h'' ''d'' True = connString percentEncode ''a'' ''p'' ''q@h'' ''d'' True"
    using amb [THEN conjunct2, THEN conjunct2, THEN conjunct1, of "''a''" "''p''" "''q''" "''h''" "''d''" True] q by simp
  moreover have "connString percentEncode ''a b'' ''p:q'' ''h'' ''d'' True \<noteq> connString percentEncode ''ab'' ''p:q'' ''h'' ''d'' True"
    using amb [THEN conjunct1, of "''a b''" "''ab''" "''p:q''" "''p:q''" "''h''" "''h''" "''d''" True "''d''"] by simp
  ultimately show ?thesis by blast
qed

end
