(* ===== verification/Mysql_Connection.thy ===== *)
theory Mysql_Connection
  imports Prelude
begin

text \<open>
  \<open>Connection\<close> of \<open>src/include/net/mysql-legacy/connection.hpp\<close> with the options of
  \<open>src/include/net/mysql-legacy/options.h\<close>: one connection to a database over the MySQL client library.

  The library is a parameter: for every call, how it ends, with a value or an \<open>SQLException\<close>. The
  objects it hands out belong to the caller; result sets and statements are numbers, and the
  connection's record lists those that have been handed out and not deleted.
\<close>

section \<open>State\<close>

record target_options =
  addr_ :: string
  port_ :: string
  id_ :: string
  pw_ :: string
  db_ :: string

record pool_options =
  idle_timeout_sec :: "32 word"
  pool_min :: "32 word"
  pool_limit :: "32 word"

definition newPoolOptions :: pool_options where
  "newPoolOptions = \<lparr>idle_timeout_sec = 0, pool_min = 1, pool_limit = 100\<rparr>"

datatype db_status = Db_CLOSED | Db_CONNECTING | Db_CONNECTED | Db_USING

record sql_exception =
  sx_code :: nat
  sx_what :: string
  sx_state :: string

type_synonym 'x sql = "sql_exception + 'x"

datatype sql_value = Sql_Int int | Sql_UInt nat | Sql_Int64 int | Sql_UInt64 nat | Sql_String string

record db_connection =
  db_poolOpts :: pool_options
  db_status :: db_status
  db_conn :: "nat option"
  db_res :: "nat option"
  db_pstmt :: "nat option"
  db_queryString :: string
  db_lastExceptionMsg :: string
  db_bound :: "(nat \<times> sql_value) list"
  db_liveRes :: "nat list"
  db_liveStmts :: "nat list"
  db_fresh :: nat

definition newConnection :: "pool_options \<Rightarrow> db_connection" where
  "newConnection opts = \<lparr>db_poolOpts = opts, db_status = Db_CLOSED, db_conn = None, db_res = None, db_pstmt = None,
     db_queryString = [], db_lastExceptionMsg = [], db_bound = [], db_liveRes = [], db_liveStmts = [],
     db_fresh = 0\<rparr>"

definition setStatus :: "db_status \<Rightarrow> db_connection \<Rightarrow> db_connection" where
  "setStatus s c = c\<lparr>db_status := s\<rparr>"

section \<open>Errors\<close>

definition printException :: "sql_exception \<Rightarrow> db_connection \<Rightarrow> db_connection" where
  "printException e c =
     (if sx_code e \<noteq> 0 then
        c\<lparr>db_lastExceptionMsg :=
          ''# ERR: SQLException. '' @ ''# ERR: '' @ sx_what e @ '' (MySQL error code: '' @ decimal (sx_code e)
            @ '', SQLState: '' @ sx_state e\<rparr>
      else c)"

definition CR_SERVER_GONE_ERROR :: nat where "CR_SERVER_GONE_ERROR = 2006"
definition CR_SERVER_LOST :: nat where "CR_SERVER_LOST = 2013"
definition CR_INVALID_CONN_HANDLE :: nat where "CR_INVALID_CONN_HANDLE = 2048"
definition CR_SERVER_LOST_EXTENDED :: nat where "CR_SERVER_LOST_EXTENDED = 2055"

text \<open>The \<open>catch\<close> block: a text by the error code, then \<open>printException\<close>.\<close>

definition sessionFailed :: "sql_exception \<Rightarrow> db_connection \<Rightarrow> bool \<times> db_connection" where
  "sessionFailed e c =
     (let msg = (if sx_code e \<in> {CR_SERVER_GONE_ERROR, CR_SERVER_LOST, CR_INVALID_CONN_HANDLE, CR_SERVER_LOST_EXTENDED}
                 then ''invalid session. code:'' @ decimal (sx_code e)
                 else ''invalid session. not defined exception. code:'' @ decimal (sx_code e))
      in (False, printException e (c\<lparr>db_lastExceptionMsg := msg\<rparr>)))"

section \<open>Operations\<close>

type_synonym connect_options = "(string \<times> string) list"

text \<open>The options are fixed but for the address and the account; \<open>useAutoReconnect\<close> is not used.\<close>

definition connectionProperties :: "string \<Rightarrow> string \<Rightarrow> string \<Rightarrow> string \<Rightarrow> string \<Rightarrow> connect_options" where
  "connectionProperties addr port ident pw db =
     [(''hostName'', addr @ '':'' @ port), (''userName'', ident), (''password'', pw), (''schema'', db),
      (''OPT_RECONNECT'', ''true''), (''OPT_READ_TIMEOUT'', ''3''), (''OPT_CONNECT_TIMEOUT'', ''3''),
      (''OPT_WRITE_TIMEOUT'', ''3''), (''CLIENT_MULTI_STATEMENTS'', ''true'')]"

definition db_connect :: "(connect_options \<Rightarrow> nat sql) \<Rightarrow> string \<Rightarrow> string \<Rightarrow> string \<Rightarrow> string \<Rightarrow> string \<Rightarrow> bool
    \<Rightarrow> db_connection \<Rightarrow> bool \<times> db_connection" where
  "db_connect driver addr port ident pw db useAutoReconnect c =
     (case driver (connectionProperties addr port ident pw db) of
        Inl e \<Rightarrow> (False, printException e c)
      | Inr h \<Rightarrow> (True, setStatus Db_CONNECTED (c\<lparr>db_conn := Some h\<rparr>)))"

text \<open>\<open>closed\<close> and \<open>reconnects\<close>: how \<open>isClosed()\<close> and \<open>reconnect()\<close> end.\<close>

definition workWithCheckSessionValid :: "bool sql \<Rightarrow> bool sql \<Rightarrow> (db_connection \<Rightarrow> db_connection sql)
    \<Rightarrow> db_connection \<Rightarrow> (bool \<times> db_connection) result" where
  "workWithCheckSessionValid closed reconnects work c =
     (if db_conn c = None then Inl (Undefined ''null connection'')
      else Inr (
        let working = (case work c of Inl e \<Rightarrow> sessionFailed e c | Inr c1 \<Rightarrow> (True, c1))
        in case closed of
             Inl e \<Rightarrow> sessionFailed e c
           | Inr False \<Rightarrow> working
           | Inr True \<Rightarrow>
               (case reconnects of
                  Inl e \<Rightarrow> sessionFailed e c
                | Inr False \<Rightarrow> (False, c\<lparr>db_lastExceptionMsg := ''closed session. trying to reconnecting''\<rparr>)
                | Inr True \<Rightarrow> working)))"

definition switchDB :: "bool sql \<Rightarrow> bool sql \<Rightarrow> unit sql \<Rightarrow> db_connection \<Rightarrow> (bool \<times> db_connection) result" where
  "switchDB closed reconnects schema =
     workWithCheckSessionValid closed reconnects (\<lambda>c. case schema of Inl e \<Rightarrow> Inl e | Inr _ \<Rightarrow> Inr c)"

text \<open>
  The test before \<open>delete\<close> is the wrong way round: it deletes a null pointer, and a statement that is
  there is overwritten. \<open>prepared\<close>: how \<open>prepareStatement\<close> ends.
\<close>

definition newStatement :: "db_connection \<Rightarrow> db_connection" where
  "newStatement c = c\<lparr>db_pstmt := Some (db_fresh c), db_bound := [],
     db_liveStmts := db_fresh c # db_liveStmts c, db_fresh := db_fresh c + 1\<rparr>"

definition prepare :: "bool sql \<Rightarrow> bool sql \<Rightarrow> unit sql \<Rightarrow> db_connection \<Rightarrow> (bool \<times> db_connection) result" where
  "prepare closed reconnects prepared c =
     (let c1 = (if db_pstmt c = None then c\<lparr>db_pstmt := None\<rparr> else c)
      in workWithCheckSessionValid closed reconnects
           (\<lambda>c. case prepared of Inl e \<Rightarrow> Inl e | Inr _ \<Rightarrow> Inr (newStatement c)) c1)"

text \<open>The types a parameter may have, and the call that binds it.\<close>

datatype sql_param =
    P_short int | P_ushort nat | P_int int | P_uint nat | P_int64 int | P_uint64 nat | P_string string | P_chars string

primrec paramValue :: "sql_param \<Rightarrow> sql_value" where
  "paramValue (P_short x) = Sql_Int x"
| "paramValue (P_ushort x) = Sql_UInt x"
| "paramValue (P_int x) = Sql_Int x"
| "paramValue (P_uint x) = Sql_UInt x"
| "paramValue (P_int64 x) = Sql_Int64 x"
| "paramValue (P_uint64 x) = Sql_UInt64 x"
| "paramValue (P_string x) = Sql_String x"
| "paramValue (P_chars x) = Sql_String x"

text \<open>Binding is not inside a \<open>try\<close> block. \<open>accepts\<close>: how the library takes the value at a position.\<close>

definition setParam :: "(nat \<Rightarrow> sql_value \<Rightarrow> unit sql) \<Rightarrow> nat \<Rightarrow> sql_param \<Rightarrow> db_connection \<Rightarrow> db_connection result" where
  "setParam accepts idx p c =
     (if db_pstmt c = None then Inl (Undefined ''null statement'')
      else case accepts idx (paramValue p) of
        Inl e \<Rightarrow> Inl (Other_exception (sx_what e))
      | Inr _ \<Rightarrow> Inr (c\<lparr>db_bound := db_bound c @ [(idx, paramValue p)]\<rparr>))"

fun setInputParam :: "(nat \<Rightarrow> sql_value \<Rightarrow> unit sql) \<Rightarrow> nat \<Rightarrow> sql_param list \<Rightarrow> db_connection \<Rightarrow> db_connection result" where
  "setInputParam accepts idx [] c = Inr c"
| "setInputParam accepts idx (p # rest) c =
     bindR (setParam accepts idx p c) (setInputParam accepts (idx + 1) rest)"

text \<open>How the calls of one \<open>exeSql\<close> end.\<close>

record sql_calls =
  sc_closed :: "bool sql"
  sc_reconnects :: "bool sql"
  sc_prepared :: "unit sql"
  sc_accepts :: "nat \<Rightarrow> sql_value \<Rightarrow> unit sql"
  sc_closed2 :: "bool sql"
  sc_reconnects2 :: "bool sql"
  sc_executed :: "unit sql"

definition prepareSql :: "sql_calls \<Rightarrow> string \<Rightarrow> sql_param list \<Rightarrow> db_connection \<Rightarrow> (bool \<times> db_connection) result" where
  "prepareSql calls formatString params c =
     bindR (prepare (sc_closed calls) (sc_reconnects calls) (sc_prepared calls) (c\<lparr>db_queryString := formatString\<rparr>))
       (\<lambda>(ok, c1).
          if \<not> ok then Inr (False, c1)
          else bindR (setInputParam (sc_accepts calls) 1 params c1) (\<lambda>c2. Inr (True, c2)))"

definition newResult :: "db_connection \<Rightarrow> db_connection" where
  "newResult c = c\<lparr>db_res := Some (db_fresh c), db_liveRes := db_fresh c # db_liveRes c, db_fresh := db_fresh c + 1\<rparr>"

definition dropResult :: "db_connection \<Rightarrow> db_connection" where
  "dropResult c = (case db_res c of
     None \<Rightarrow> c
   | Some r \<Rightarrow> c\<lparr>db_res := None, db_liveRes := remove1 r (db_liveRes c)\<rparr>)"

definition exeSql :: "sql_calls \<Rightarrow> string \<Rightarrow> sql_param list \<Rightarrow> db_connection \<Rightarrow> (bool \<times> db_connection) result" where
  "exeSql calls formatString params c =
     bindR (prepareSql calls formatString params (dropResult c)) (\<lambda>(ok, c1).
       if \<not> ok then Inr (False, c1)
       else if db_pstmt c1 = None then Inl (Undefined ''null statement'')
       else workWithCheckSessionValid (sc_closed2 calls) (sc_reconnects2 calls)
              (\<lambda>c. case sc_executed calls of Inl e \<Rightarrow> Inl e | Inr _ \<Rightarrow> Inr (newResult c)) c1)"

text \<open>\<open>dbTest\<close> works on a connection of its own, which is not closed at the end.\<close>

definition dbTest :: "(connect_options \<Rightarrow> nat sql) \<Rightarrow> sql_calls \<Rightarrow> (bool \<times> db_connection) result" where
  "dbTest driver calls =
     (let (ok, dbConn) = db_connect driver ''127.0.0.1'' ''3306'' ''myId'' ''myPw'' ''test_db'' False
                           (newConnection newPoolOptions)
      in if \<not> ok then Inr (False, dbConn)
         else exeSql calls ''SELECT * from build where idx = ? and project_key = ?'' [P_int 39, P_int 6] dbConn)"

section \<open>Facts\<close>

text \<open>The result sets that are alive are the current one.\<close>

definition res_ok :: "db_connection \<Rightarrow> bool" where
  "res_ok c \<longleftrightarrow> db_liveRes c = (case db_res c of None \<Rightarrow> [] | Some r \<Rightarrow> [r])"

text \<open>When a call gets as far as making a statement.\<close>

definition sessionValid :: "bool sql \<Rightarrow> bool sql \<Rightarrow> bool" where
  "sessionValid closed reconnects \<longleftrightarrow> closed = Inr False \<or> closed = Inr True \<and> reconnects = Inr True"

definition makesStatement :: "sql_calls \<Rightarrow> bool" where
  "makesStatement calls \<longleftrightarrow> sessionValid (sc_closed calls) (sc_reconnects calls) \<and> sc_prepared calls = Inr ()"

lemma sessionFailed_frame [simp]:
  "fst (sessionFailed e c) = False"
  "db_conn (snd (sessionFailed e c)) = db_conn c" "db_res (snd (sessionFailed e c)) = db_res c"
  "db_pstmt (snd (sessionFailed e c)) = db_pstmt c" "db_bound (snd (sessionFailed e c)) = db_bound c"
  "db_liveRes (snd (sessionFailed e c)) = db_liveRes c" "db_liveStmts (snd (sessionFailed e c)) = db_liveStmts c"
  "db_queryString (snd (sessionFailed e c)) = db_queryString c"
  by (simp_all add: sessionFailed_def printException_def Let_def)

lemma work_cases:
  assumes "workWithCheckSessionValid closed reconnects work c = Inr (ok, c')"
  obtains (failed) "\<not> ok" "c' = c\<lparr>db_lastExceptionMsg := db_lastExceptionMsg c'\<rparr>"
      "\<not> sessionValid closed reconnects \<or> (\<exists>e. work c = Inl e)"
    | (worked) "ok" "work c = Inr c'" "sessionValid closed reconnects"
proof -
  have msg: "snd (sessionFailed e c) = c\<lparr>db_lastExceptionMsg := db_lastExceptionMsg (snd (sessionFailed e c))\<rparr>" for e
    by (simp add: sessionFailed_def printException_def Let_def)
  show thesis
    using assms that msg
    by (auto simp: workWithCheckSessionValid_def sessionValid_def prod_eq_iff Let_def
        split: if_splits sum.splits bool.splits)
qed

lemma setInputParam_binds:
  assumes "setInputParam accepts i ps c = Inr c'"
  shows "c' = c\<lparr>db_bound := db_bound c @ zip [i..<i + length ps] (map paramValue ps)\<rparr>"
  using assms
proof (induction ps arbitrary: i c)
  case (Cons p ps)
  then obtain c1 where "setParam accepts i p c = Inr c1" and "setInputParam accepts (i + 1) ps c1 = Inr c'"
    by (auto simp: bindR_eq_Inr)
  moreover from this have "c1 = c\<lparr>db_bound := db_bound c @ [(i, paramValue p)]\<rparr>"
    by (auto simp: setParam_def split: if_splits sum.splits)
  moreover have "[i..<i + length (p # ps)] = i # [i + 1..<i + 1 + length ps]"
    by (simp add: upt_conv_Cons del: upt_Suc)
  ultimately show ?case using Cons.IH [of "i + 1" c1] by (simp del: upt_Suc)
qed simp

lemma pstmt_None: "db_pstmt c = None \<Longrightarrow> c\<lparr>db_pstmt := None\<rparr> = c"
  by (cases c) simp

lemma prepare_cases:
  assumes "prepare closed reconnects prepared c = Inr (ok, c')"
  shows "if ok then c' = newStatement c else c' = c\<lparr>db_lastExceptionMsg := db_lastExceptionMsg c'\<rparr>"
    and "ok \<longleftrightarrow> sessionValid closed reconnects \<and> prepared = Inr ()"
proof -
  let ?work = "\<lambda>c. case prepared of Inl e \<Rightarrow> Inl e | Inr _ \<Rightarrow> Inr (newStatement c)"
  have run: "workWithCheckSessionValid closed reconnects ?work c = Inr (ok, c')"
    using assms by (cases "db_pstmt c = None") (simp_all add: prepare_def Let_def pstmt_None)
  from run show "if ok then c' = newStatement c else c' = c\<lparr>db_lastExceptionMsg := db_lastExceptionMsg c'\<rparr>"
    by (cases rule: work_cases) (auto split: sum.splits)
  from run show "ok \<longleftrightarrow> sessionValid closed reconnects \<and> prepared = Inr ()"
    by (cases rule: work_cases) (auto split: sum.splits)
qed

text \<open>How a call of \<open>exeSql\<close> that does not throw goes: without a statement, with one that fails, or through.\<close>

definition withQuery :: "string \<Rightarrow> db_connection \<Rightarrow> db_connection" where
  "withQuery q c = (dropResult c)\<lparr>db_queryString := q\<rparr>"

definition withParams :: "string \<Rightarrow> sql_param list \<Rightarrow> db_connection \<Rightarrow> db_connection" where
  "withParams q ps c =
     (newStatement (withQuery q c))\<lparr>db_bound := zip [1..<1 + length ps] (map paramValue ps)\<rparr>"

lemma exeSql_cases:
  assumes "exeSql calls q ps c = Inr (ok, c')"
  obtains (unprepared) "\<not> makesStatement calls" "\<not> ok"
      "c' = (withQuery q c)\<lparr>db_lastExceptionMsg := db_lastExceptionMsg c'\<rparr>"
    | (failed) "makesStatement calls" "\<not> ok"
      "c' = (withParams q ps c)\<lparr>db_lastExceptionMsg := db_lastExceptionMsg c'\<rparr>"
    | (executed) "makesStatement calls" "ok" "c' = newResult (withParams q ps c)"
proof -
  obtain ok1 c1 where p: "prepare (sc_closed calls) (sc_reconnects calls) (sc_prepared calls) (withQuery q c) = Inr (ok1, c1)"
    using assms by (auto simp: exeSql_def prepareSql_def withQuery_def bindR_eq_Inr)
  have makes: "ok1 \<longleftrightarrow> makesStatement calls" using prepare_cases(2) [OF p] by (simp add: makesStatement_def)
  show thesis
  proof (cases ok1)
    case False
    then have "\<not> ok \<and> c' = c1"
      using assms p by (auto simp: exeSql_def prepareSql_def withQuery_def bindR_eq_Inr)
    then show thesis using prepare_cases(1) [OF p] makes False by (intro unprepared) auto
  next
    case True
    then have c1: "c1 = newStatement (withQuery q c)" using prepare_cases(1) [OF p] by simp
    obtain c2 where c2: "setInputParam (sc_accepts calls) 1 ps c1 = Inr c2"
        and run: "workWithCheckSessionValid (sc_closed2 calls) (sc_reconnects2 calls)
          (\<lambda>c. case sc_executed calls of Inl e \<Rightarrow> Inl e | Inr _ \<Rightarrow> Inr (newResult c)) c2 = Inr (ok, c')"
      using assms p True by (auto simp: exeSql_def prepareSql_def withQuery_def bindR_eq_Inr split: if_splits)
    have "c2 = withParams q ps c"
      using setInputParam_binds [OF c2] c1 by (simp add: withParams_def newStatement_def)
    with run show thesis
      by (cases rule: work_cases) (use makes True failed executed in \<open>auto split: sum.splits\<close>)
  qed
qed

text \<open>What such a call leaves behind.\<close>

lemma exeSql_effect:
  assumes "exeSql calls q ps c = Inr (ok, c')" and "res_ok c"
  shows "res_ok c'"
    and "db_liveStmts c' = (if makesStatement calls then [db_fresh c] else []) @ db_liveStmts c"
    and "db_queryString c' = q"
    and "makesStatement calls \<Longrightarrow> db_bound c' = zip [1..<1 + length ps] (map paramValue ps)"
    and "ok \<longleftrightarrow> db_res c' \<noteq> None"
proof -
  let ?c0 = "withQuery q c"
  have c0: "db_liveRes ?c0 = []" "db_res ?c0 = None" "db_liveStmts ?c0 = db_liveStmts c" "db_fresh ?c0 = db_fresh c"
      "db_queryString ?c0 = q"
    using assms(2) by (auto simp: withQuery_def dropResult_def res_ok_def split: option.splits)
  have c1: "db_liveRes (withParams q ps c) = []" "db_res (withParams q ps c) = None"
      "db_liveStmts (withParams q ps c) = db_fresh c # db_liveStmts c" "db_queryString (withParams q ps c) = q"
      "db_bound (withParams q ps c) = zip [1..<1 + length ps] (map paramValue ps)"
    using c0 by (simp_all add: withParams_def newStatement_def)
  from assms(1)
  have "res_ok c' \<and> db_liveStmts c' = (if makesStatement calls then [db_fresh c] else []) @ db_liveStmts c
    \<and> db_queryString c' = q
    \<and> (makesStatement calls \<longrightarrow> db_bound c' = zip [1..<1 + length ps] (map paramValue ps))
    \<and> (ok \<longleftrightarrow> db_res c' \<noteq> None)"
  proof (cases rule: exeSql_cases)
    case unprepared
    show ?thesis by (subst (1 2 3 4 5) unprepared(3)) (use unprepared(1,2) c0 in \<open>simp add: res_ok_def\<close>)
  next
    case failed
    show ?thesis by (subst (1 2 3 4 5) failed(3)) (use failed(1,2) c1 in \<open>simp add: res_ok_def\<close>)
  next
    case executed
    then show ?thesis using c1 by (simp add: res_ok_def newResult_def)
  qed
  then show "res_ok c'"
    and "db_liveStmts c' = (if makesStatement calls then [db_fresh c] else []) @ db_liveStmts c"
    and "db_queryString c' = q"
    and "makesStatement calls \<Longrightarrow> db_bound c' = zip [1..<1 + length ps] (map paramValue ps)"
    and "ok \<longleftrightarrow> db_res c' \<noteq> None" by blast+
qed

text \<open>Queries one after the other on one connection.\<close>

definition exeAll :: "(sql_calls \<times> string \<times> sql_param list) list \<Rightarrow> db_connection \<Rightarrow> db_connection result" where
  "exeAll = seqR (\<lambda>(calls, q, ps) c. bindR (exeSql calls q ps c) (\<lambda>(ok, c1). Inr c1))"

lemma exeAll_effect:
  assumes "exeAll xs c = Inr c'" and "res_ok c"
  shows "res_ok c' \<and> length (db_liveStmts c') =
    length (db_liveStmts c) + length (filter (makesStatement \<circ> fst) xs)"
  using assms
proof (induction xs arbitrary: c)
  case (Cons x xs)
  obtain calls q ps where x: "x = (calls, q, ps)" by (cases x)
  with Cons.prems obtain ok c1 where e: "exeSql calls q ps c = Inr (ok, c1)" and r: "exeAll xs c1 = Inr c'"
    by (auto simp: exeAll_def bindR_eq_Inr)
  show ?case using exeSql_effect(1,2) [OF e Cons.prems(2)] Cons.IH [OF r] x by simp
qed (simp add: exeAll_def)

text \<open>
  C39. Statements pile up: after any sequence of queries on a connection of which none throws, there are
  as many live statements as queries that got as far as preparing one, for none is ever deleted; of the
  result sets at most the last is alive. The last query of the sequence has bound its parameters at the
  positions from 1 on, in order, if it was prepared, and it has a result set exactly if it returned true.
\<close>

theorem statements_pile_up:
  assumes "exeAll xs (newConnection opts\<lparr>db_conn := Some h\<rparr>) = Inr c"
    and "exeSql calls q ps c = Inr (ok, c')"
  shows "length (db_liveStmts c') = length (filter makesStatement (map fst xs @ [calls]))
    \<and> length (db_liveRes c') \<le> 1 \<and> (ok \<longleftrightarrow> db_res c' \<noteq> None)
    \<and> (makesStatement calls \<longrightarrow> db_bound c' = zip [1..<1 + length ps] (map paramValue ps))"
proof -
  have "res_ok (newConnection opts\<lparr>db_conn := Some h\<rparr>)" by (simp add: res_ok_def newConnection_def)
  then have c: "res_ok c" "length (db_liveStmts c) = length (filter (makesStatement \<circ> fst) xs)"
    using exeAll_effect [OF assms(1)] by (simp_all add: newConnection_def)
  note e = exeSql_effect [OF assms(2) c(1)]
  have "length (db_liveRes c') \<le> 1" using e(1) by (simp add: res_ok_def split: option.splits)
  then show ?thesis using e(2,4,5) c(2) by (simp add: filter_map)
qed

definition goodCalls :: sql_calls where
  "goodCalls = \<lparr>sc_closed = Inr False, sc_reconnects = Inr True, sc_prepared = Inr (), sc_accepts = (\<lambda>i v. Inr ()),
     sc_closed2 = Inr False, sc_reconnects2 = Inr True, sc_executed = Inr ()\<rparr>"

theorem statements_pile_up_witness:
  "\<exists>c c'. exeAll [(goodCalls, ''a'', []), (goodCalls, ''b'', [])] (newConnection newPoolOptions\<lparr>db_conn := Some 7\<rparr>) = Inr c
    \<and> exeSql goodCalls ''c'' [P_int 39, P_int 6] c = Inr (True, c')
    \<and> length (db_liveStmts c') = 3 \<and> length (db_liveRes c') \<le> 1 \<and> db_bound c' = [(1, Sql_Int 39), (2, Sql_Int 6)]"
proof -
  let ?xs = "[(goodCalls, ''a'', []), (goodCalls, ''b'', [])]"
  let ?c = "newConnection newPoolOptions\<lparr>db_conn := Some 7\<rparr>"
  obtain c c' where run: "exeAll ?xs ?c = Inr c" "exeSql goodCalls ''c'' [P_int 39, P_int 6] c = Inr (True, c')"
    by (simp add: exeAll_def exeSql_def prepareSql_def prepare_def workWithCheckSessionValid_def goodCalls_def
        newConnection_def dropResult_def newStatement_def newResult_def setParam_def)
  have "makesStatement goodCalls" by (simp add: makesStatement_def sessionValid_def goodCalls_def)
  then show ?thesis using statements_pile_up [OF run] run by (auto simp: upt_rec)
qed

end
