(* ===== verification/Rental_Pool.thy ===== *)
theory Rental_Pool
  imports Prelude
begin

text \<open>
  \<open>RentalItem\<close> and \<open>RentalItemPool\<close> of \<open>src/include/net/container/rentalItemPool.hpp\<close>: objects that are
  rented from a pool, made when the pool is empty, and returned when the rental ends.

  An object is its address; \<open>new T()\<close> returns the address it is given. The release function of an
  item is either empty or the pool's \<open>releaseItem\<close>, so it is a flag. The mutex only orders the
  operations and is left out.
\<close>

section \<open>Operations\<close>

record rental_item =
  itemValue :: u64
  reusable :: bool
  hasRelease :: bool

definition newRentalItem :: "u64 \<Rightarrow> rental_item" where
  "newRentalItem item = \<lparr>itemValue = item, reusable = True, hasRelease = False\<rparr>"

definition createItem :: "u64 \<Rightarrow> rental_item" where
  "createItem fresh = (newRentalItem fresh)\<lparr>hasRelease := True\<rparr>"

definition getItem :: "u64 \<Rightarrow> u64 list \<Rightarrow> rental_item \<times> u64 list" where
  "getItem fresh pool =
     (case pool of
        itemPtr # rest \<Rightarrow> (newRentalItem itemPtr, rest)
      | [] \<Rightarrow> (createItem fresh, pool))"

definition releaseItem :: "u64 \<Rightarrow> u64 list \<Rightarrow> bool \<times> u64 list" where
  "releaseItem itemPtr pool = (if itemPtr = 0 then (False, pool) else (True, pool @ [itemPtr]))"

text \<open>The destructor of \<open>RentalItem\<close>.\<close>

definition endRental :: "rental_item \<Rightarrow> u64 list \<Rightarrow> u64 list" where
  "endRental item pool =
     (if reusable item then
        (if hasRelease item then snd (releaseItem (itemValue item) pool) else pool)
      else pool)"

section \<open>Rentals one after the other\<close>

text \<open>A list of rentals, each ended before the next; each comes with the address \<open>new\<close> would return.\<close>

fun rentals :: "u64 list \<Rightarrow> u64 list \<Rightarrow> u64 list \<times> u64 list" where
  "rentals [] pool = ([], pool)"
| "rentals (fresh # news) pool =
     (let (item, pool1) = getItem fresh pool;
          (used, pool2) = rentals news (endRental item pool1)
      in (itemValue item # used, pool2))"

text \<open>
  An object is rented twice at most: the item made from a pooled object has no release function, so
  the object does not come back. Rentals one after the other from an empty pool make a new object
  every other time, and leave the pool as the rest of the rentals does without those two.
\<close>

lemma object_is_rented_twice_at_most:
  assumes "a \<noteq> 0"
  shows "rentals (a # b # news) [] = (let (used, pool) = rentals news [] in (a # a # used, pool))"
  using assms
  by (simp add: getItem_def createItem_def newRentalItem_def endRental_def releaseItem_def
      split: prod.split)

end
