(* ===== verification/Byte_Stream.thy ===== *)
theory Byte_Stream
  imports Prelude
begin

text \<open>
  The class \<open>ByteStream\<close> of \<open>src/include/net/byteStream.hpp\<close>: a growing byte buffer with a read
  and a write position, used for received data, for single packets and for data to be sent.

  The positions are \<open>int32_t\<close>, sizes are \<open>size_t\<close>; every place where the code mixes the two
  converts explicitly. A copy that would leave the vector's storage is the fault \<open>Undefined\<close>.
\<close>

section \<open>State\<close>

text \<open>
  \<open>PacketManipulator\<close> (\<open>netTypes.h\<close>) is a pair of functions: the size of a packet header, and a
  writer that stores a size in the header at the address it is given. The writer's model gets
  the memory from that address to the end of the vector and returns it updated.
\<close>

record packet_manipulator =
  GetHeaderSize :: nat
  WriteHeaderSize :: "nat \<Rightarrow> byte list \<Rightarrow> byte list result"

record byte_stream =
  posRead :: int
  posWrite :: int
  buffer :: "byte list"
  bufCapacity :: nat
  packetManipulator :: "packet_manipulator option"

definition DEFAULT_BUFFER_SIZE :: nat where
  "DEFAULT_BUFFER_SIZE = 8192"

section \<open>Operations\<close>

definition clear :: "byte_stream \<Rightarrow> byte_stream" where
  "clear bs = bs\<lparr>posWrite := 0, posRead := 0\<rparr>"

definition bsize :: "byte_stream \<Rightarrow> nat" where
  "bsize bs = to_size_t (posWrite bs - posRead bs)"

definition capacity :: "byte_stream \<Rightarrow> nat" where
  "capacity bs = to_size_t (int (length (buffer bs)) - posWrite bs)"

definition available :: "byte_stream \<Rightarrow> nat" where
  "available bs = capacity bs"

text \<open>\<open>std::vector::reserve\<close> (which allocates exactly what is asked for) and \<open>resize\<close>.\<close>

definition vec_reserve :: "nat \<Rightarrow> byte_stream \<Rightarrow> byte_stream" where
  "vec_reserve n bs = (if bufCapacity bs < n then bs\<lparr>bufCapacity := n\<rparr> else bs)"

definition vec_resize :: "nat \<Rightarrow> byte_stream \<Rightarrow> byte_stream" where
  "vec_resize n bs = bs\<lparr>buffer := take n (buffer bs) @ replicate (n - length (buffer bs)) 0,
                        bufCapacity := max n (bufCapacity bs)\<rparr>"

definition checkAdvanceWriteBuffer :: "nat \<Rightarrow> byte_stream \<Rightarrow> byte_stream" where
  "checkAdvanceWriteBuffer bytes bs =
     (if bufCapacity bs < to_size_t (int (bsize bs) + int bytes) then
        let nextCapacity = to_size_t (int (bsize bs) + int bytes)
        in vec_resize nextCapacity (vec_reserve nextCapacity bs)
      else bs)"

definition rearrange :: "byte_stream \<Rightarrow> byte_stream" where
  "rearrange bs =
     (if posRead bs = posWrite bs then clear bs
      else let bytesCount = bsize bs
           in bs\<lparr>buffer := overwrite 0 (take bytesCount (drop (nat (posRead bs)) (buffer bs))) (buffer bs),
                 posRead := 0, posWrite := to_int32 (int bytesCount)\<rparr>)"

text \<open>
  The guard \<open>available() < capacity() * 0.7f\<close>. The constant \<open>0.7f\<close> is the binary fraction
  \<open>11744051 / 2 ^ 24\<close>; the comparison is made in exact arithmetic. (Single precision rounds both
  sides with the same monotone rounding, which cannot make a false comparison of \<open>x\<close> with a value
  at most \<open>x\<close> true.)
\<close>

definition needRearrange :: "byte_stream \<Rightarrow> bool" where
  "needRearrange bs = (available bs * 2 ^ 24 < capacity bs * 11744051)"

definition checkAdvanceReadBuffer :: "nat \<Rightarrow> byte_stream \<Rightarrow> byte_stream result" where
  "checkAdvanceReadBuffer bytes bs =
     (if bsize bs < bytes then Inl (Runtime_error ''reading larger than the data size.'')
      else if needRearrange bs then Inr (rearrange bs)
      else Inr bs)"

text \<open>The storage a copy of \<open>n\<close> bytes at position \<open>p\<close> may touch.\<close>

definition inBuffer :: "byte_stream \<Rightarrow> int \<Rightarrow> nat \<Rightarrow> bool" where
  "inBuffer bs p n = (0 \<le> p \<and> p + int n \<le> int (length (buffer bs)))"

definition bwrite :: "byte list \<Rightarrow> byte_stream \<Rightarrow> byte_stream result" where
  "bwrite src bs =
     (let bs1 = checkAdvanceWriteBuffer (length src) bs
      in if inBuffer bs1 (posWrite bs1) (length src) then
           Inr (bs1\<lparr>buffer := overwrite (nat (posWrite bs1)) src (buffer bs1),
                    posWrite := to_int32 (posWrite bs1 + int (length src))\<rparr>)
         else Inl (Undefined ''write past the buffer''))"

definition advancePosWrite :: "nat \<Rightarrow> byte_stream \<Rightarrow> byte_stream" where
  "advancePosWrite bytes bs =
     (let bs1 = checkAdvanceWriteBuffer bytes bs
      in bs1\<lparr>posWrite := to_int32 (posWrite bs1 + int bytes)\<rparr>)"

definition tryRead :: "nat \<Rightarrow> byte_stream \<Rightarrow> byte list option result" where
  "tryRead bytes bs =
     (if bytes > bsize bs then Inr None
      else if inBuffer bs (posRead bs) bytes then
        Inr (Some (take bytes (drop (nat (posRead bs)) (buffer bs))))
      else Inl (Undefined ''read past the buffer''))"

definition bread :: "nat \<Rightarrow> byte_stream \<Rightarrow> (byte list \<times> byte_stream) result" where
  "bread bytes bs =
     bindR (checkAdvanceReadBuffer bytes bs) (\<lambda>bs1.
       if inBuffer bs1 (posRead bs1) bytes then
         Inr (take bytes (drop (nat (posRead bs1)) (buffer bs1)),
              bs1\<lparr>posRead := to_int32 (posRead bs1 + int bytes)\<rparr>)
       else Inl (Undefined ''read past the buffer''))"

definition advancePosRead :: "nat \<Rightarrow> byte_stream \<Rightarrow> byte_stream result" where
  "advancePosRead bytes bs =
     bindR (checkAdvanceReadBuffer bytes bs) (\<lambda>bs1.
       let bs2 = bs1\<lparr>posRead := to_int32 (posRead bs1 + int bytes)\<rparr>
       in Inr (if posRead bs2 = posWrite bs2 then clear bs2 else bs2))"

text \<open>\<open>data()\<close> is the address of the unread bytes; its model is the memory from there on.\<close>

definition data :: "byte_stream \<Rightarrow> byte list" where
  "data bs = drop (nat (posRead bs)) (buffer bs)"

definition setManipulator :: "packet_manipulator option \<Rightarrow> byte_stream \<Rightarrow> byte_stream" where
  "setManipulator manip bs = bs\<lparr>packetManipulator := manip\<rparr>"

definition setHeaderSize :: "byte_stream \<Rightarrow> byte_stream result" where
  "setHeaderSize bs =
     (case packetManipulator bs of
        None \<Rightarrow> Inr bs
      | Some m \<Rightarrow>
          bindR (WriteHeaderSize m (bsize bs) (data bs)) (\<lambda>mem.
            Inr (bs\<lparr>buffer := take (nat (posRead bs)) (buffer bs) @ mem\<rparr>)))"

text \<open>The two constructors.\<close>

definition newByteStream :: "nat \<Rightarrow> byte_stream" where
  "newByteStream bufferSize =
     clear \<lparr>posRead = 0, posWrite = 0, buffer = replicate bufferSize 0,
            bufCapacity = bufferSize, packetManipulator = None\<rparr>"

definition newByteStreamManip :: "packet_manipulator option \<Rightarrow> bool \<Rightarrow> nat \<Rightarrow> byte_stream result" where
  "newByteStreamManip manip preWriteAsHeaderSize bufferSize =
     (let bs = (newByteStream bufferSize)\<lparr>packetManipulator := manip\<rparr>
      in if preWriteAsHeaderSize then
           (case manip of
              None \<Rightarrow> Inl (Undefined ''null packet manipulator'')
            | Some m \<Rightarrow> Inr (advancePosWrite (GetHeaderSize m) bs))
         else Inr bs)"

section \<open>Invariant and abstraction\<close>

definition bs_wf :: "byte_stream \<Rightarrow> bool" where
  "bs_wf bs \<longleftrightarrow> 0 \<le> posRead bs \<and> posRead bs \<le> posWrite bs
      \<and> posWrite bs \<le> int (length (buffer bs))
      \<and> bufCapacity bs = length (buffer bs) \<and> length (buffer bs) < 2 ^ 31"

definition contents :: "byte_stream \<Rightarrow> byte list" where
  "contents bs = take (bsize bs) (data bs)"

section \<open>The stream under its invariant\<close>

lemma bs_wf_bounds [dest]:
  assumes "bs_wf bs"
  shows "0 \<le> posRead bs" "posRead bs \<le> posWrite bs" "0 \<le> posWrite bs"
    "posWrite bs \<le> int (length (buffer bs))" "bufCapacity bs = length (buffer bs)"
    "length (buffer bs) < 2 ^ 31"
  using assms by (auto simp: bs_wf_def)

lemma bsize_wf [stream_simps]: "bs_wf bs \<Longrightarrow> bsize bs = nat (posWrite bs - posRead bs)"
  by (auto simp: bsize_def bs_wf_def intro!: to_size_t_id)

lemma bsize_bound: "bs_wf bs \<Longrightarrow> bsize bs < 2 ^ 31"
  using bs_wf_bounds [of bs] by (simp add: bsize_wf nat_less_iff)

lemma length_contents [simp]: "bs_wf bs \<Longrightarrow> length (contents bs) = bsize bs"
  by (auto simp: contents_def data_def bsize_wf bs_wf_def min_def)

lemma contents_wf:
  "bs_wf bs \<Longrightarrow>
   contents bs = take (nat (posWrite bs) - nat (posRead bs)) (drop (nat (posRead bs)) (buffer bs))"
  by (simp add: contents_def data_def bsize_wf nat_diff_distrib' bs_wf_def)

lemma needRearrange_never [simp]: "\<not> needRearrange bs"
  by (simp add: needRearrange_def available_def)

lemma checkAdvanceReadBuffer_eq [stream_simps]:
  "checkAdvanceReadBuffer n bs =
     (if bsize bs < n then Inl (Runtime_error ''reading larger than the data size.'') else Inr bs)"
  by (simp add: checkAdvanceReadBuffer_def)

lemma clear_wf [inv_intros]: "bs_wf bs \<Longrightarrow> bs_wf (clear bs)"
  by (auto simp: bs_wf_def clear_def)

lemma contents_clear [simp]: "contents (clear bs) = []"
  by (simp add: contents_def clear_def bsize_def to_size_t_def)

lemma inBuffer_read:
  "bs_wf bs \<Longrightarrow> n \<le> bsize bs \<Longrightarrow> inBuffer bs (posRead bs) n"
  by (auto simp: inBuffer_def bsize_wf bs_wf_def)

lemma take_data:
  "n \<le> bsize bs \<Longrightarrow> take n (data bs) = take n (contents bs)"
  by (simp add: contents_def min_def)

lemma advance_contents:
  assumes "bs_wf bs" and "n \<le> bsize bs"
  defines "bs' \<equiv> bs\<lparr>posRead := to_int32 (posRead bs + int n)\<rparr>"
  shows "bs_wf bs'" and "contents bs' = drop n (contents bs)"
    and "posRead bs' = posRead bs + int n"
proof -
  note b = bs_wf_bounds [OF assms(1)]
  have n: "int n \<le> posWrite bs - posRead bs"
    using assms(2) b by (simp add: bsize_wf [OF assms(1)])
  have p: "to_int32 (posRead bs + int n) = posRead bs + int n"
    using b n by (intro to_int32_id) auto
  show "posRead bs' = posRead bs + int n" by (simp add: bs'_def p)
  show wf: "bs_wf bs'" using assms(1) n by (auto simp: bs'_def p bs_wf_def)
  have "nat (posRead bs + int n) = nat (posRead bs) + n" using b by simp
  then show "contents bs' = drop n (contents bs)"
    unfolding contents_wf [OF wf] contents_wf [OF assms(1)]
    by (simp add: bs'_def p drop_take add.commute)
qed

section \<open>What each operation does to the contents\<close>

lemma tryRead_eq [stream_simps]:
  "bs_wf bs \<Longrightarrow>
   tryRead n bs = Inr (if n \<le> length (contents bs) then Some (take n (contents bs)) else None)"
  using take_data [of n bs] by (simp add: tryRead_def inBuffer_read data_def)

lemma bread_eq:
  assumes "bs_wf bs"
  shows "bread n bs =
     (if n \<le> length (contents bs)
      then Inr (take n (contents bs), bs\<lparr>posRead := to_int32 (posRead bs + int n)\<rparr>)
      else Inl (Runtime_error ''reading larger than the data size.''))"
  using take_data [of n bs] assms
  by (simp add: bread_def checkAdvanceReadBuffer_eq inBuffer_read data_def)

lemma bread_Inr:
  assumes "bs_wf bs" and "bread n bs = Inr (xs, bs')"
  shows "xs = take n (contents bs)" and "contents bs' = drop n (contents bs)" and "bs_wf bs'"
    and "n \<le> length (contents bs)"
  using assms advance_contents [OF assms(1), of n]
  by (auto simp: bread_eq [OF assms(1)] split: if_splits)

lemma advancePosRead_ok:
  assumes "bs_wf bs" and "n \<le> length (contents bs)"
  obtains bs' where "advancePosRead n bs = Inr bs'" and "bs_wf bs'"
    and "contents bs' = drop n (contents bs)"
    and "n < length (contents bs) \<Longrightarrow> posRead bs' = posRead bs + int n"
    and "n = length (contents bs) \<Longrightarrow> posRead bs' = 0"
    and "buffer bs' = buffer bs" and "posWrite bs' \<le> posWrite bs"
proof -
  let ?b = "bs\<lparr>posRead := to_int32 (posRead bs + int n)\<rparr>"
  have n: "n \<le> bsize bs" using assms by simp
  note a = advance_contents [OF assms(1) n]
  have end_iff: "posRead ?b = posWrite ?b \<longleftrightarrow> n = length (contents bs)"
    using a(3) n bs_wf_bounds [OF assms(1)] assms(1) by (auto simp: bsize_wf)
  have eq: "advancePosRead n bs = Inr (if posRead ?b = posWrite ?b then clear ?b else ?b)"
    using n by (simp add: advancePosRead_def checkAdvanceReadBuffer_eq Let_def)
  have "contents (if posRead ?b = posWrite ?b then clear ?b else ?b) = drop n (contents bs)"
    using a(2) end_iff by simp
  then show thesis
    using that [OF eq] a clear_wf [OF a(1)] end_iff bs_wf_bounds [OF assms(1)]
    by (auto simp: clear_def split: if_splits)
qed

lemma advancePosRead_error:
  "bs_wf bs \<Longrightarrow> length (contents bs) < n \<Longrightarrow>
   advancePosRead n bs = Inl (Runtime_error ''reading larger than the data size.'')"
  by (simp add: advancePosRead_def checkAdvanceReadBuffer_eq)

lemma checkAdvanceWriteBuffer_eq:
  assumes "bs_wf bs" and "posWrite bs + int n < 2 ^ 31"
  shows "checkAdvanceWriteBuffer n bs =
    (if length (buffer bs) < bsize bs + n then
       bs\<lparr>buffer := buffer bs @ replicate (bsize bs + n - length (buffer bs)) 0,
          bufCapacity := bsize bs + n\<rparr>
     else bs)"
proof -
  have "int (bsize bs) + int n < 2 ^ 31"
    using assms bs_wf_bounds [OF assms(1)] by (simp add: bsize_wf)
  then have "to_size_t (int (bsize bs) + int n) = bsize bs + n"
    by (subst to_size_t_id) auto
  then show ?thesis
    using bs_wf_bounds [OF assms(1)]
    by (simp add: checkAdvanceWriteBuffer_def Let_def vec_reserve_def vec_resize_def max_def)
qed

text \<open>
  A write never overflows exactly when nothing has been read from the stream yet, or when the
  bytes still fit behind the write position: the guard of \<open>checkAdvanceWriteBuffer\<close> looks at the
  unread size and not at the write position.
\<close>

definition canWrite :: "byte_stream \<Rightarrow> nat \<Rightarrow> bool" where
  "canWrite bs n \<longleftrightarrow> posRead bs = 0 \<or> posWrite bs + int n \<le> int (length (buffer bs))"

lemma grown_inBuffer:
  assumes "bs_wf bs" and "posWrite bs + int n < 2 ^ 31"
  shows "inBuffer (checkAdvanceWriteBuffer n bs) (posWrite bs) n \<longleftrightarrow> canWrite bs n"
  using bs_wf_bounds [OF assms(1)]
  by (auto simp: inBuffer_def checkAdvanceWriteBuffer_eq [OF assms] canWrite_def
      bsize_wf [OF assms(1)])

lemma grown_frame [simp]:
  "posRead (checkAdvanceWriteBuffer n bs) = posRead bs"
  "posWrite (checkAdvanceWriteBuffer n bs) = posWrite bs"
  "packetManipulator (checkAdvanceWriteBuffer n bs) = packetManipulator bs"
  by (simp_all add: checkAdvanceWriteBuffer_def vec_reserve_def vec_resize_def Let_def)

lemma grown_wf:
  assumes "bs_wf bs" and "posWrite bs + int n < 2 ^ 31"
  shows "bs_wf (checkAdvanceWriteBuffer n bs)"
    and "contents (checkAdvanceWriteBuffer n bs) = contents bs"
proof -
  note b = bs_wf_bounds [OF assms(1)]
  show wf: "bs_wf (checkAdvanceWriteBuffer n bs)"
    using assms b by (auto simp: checkAdvanceWriteBuffer_eq [OF assms] bs_wf_def bsize_wf)
  show "contents (checkAdvanceWriteBuffer n bs) = contents bs"
    unfolding contents_wf [OF wf] contents_wf [OF assms(1)]
    using b by (simp add: checkAdvanceWriteBuffer_eq [OF assms])
qed

lemma bwrite_fails:
  assumes "bs_wf bs" and "posWrite bs + int (length src) < 2 ^ 31" and "\<not> canWrite bs (length src)"
  shows "bwrite src bs = Inl (Undefined ''write past the buffer'')"
  using grown_inBuffer [OF assms(1,2)] assms(3) by (simp add: bwrite_def Let_def)

lemma bwrite_ok:
  assumes "bs_wf bs" and "posWrite bs + int (length src) < 2 ^ 31" and "canWrite bs (length src)"
  obtains bs' where "bwrite src bs = Inr bs'" and "bs_wf bs'"
    and "contents bs' = contents bs @ src" and "posRead bs' = posRead bs"
    and "posWrite bs' = posWrite bs + int (length src)"
    and "packetManipulator bs' = packetManipulator bs"
    and "length (buffer bs') = max (length (buffer bs)) (bsize bs + length src)"
proof -
  let ?g = "checkAdvanceWriteBuffer (length src) bs"
  let ?b = "?g\<lparr>buffer := overwrite (nat (posWrite bs)) src (buffer ?g),
               posWrite := posWrite bs + int (length src)\<rparr>"
  note b = bs_wf_bounds [OF assms(1)]
  note g = grown_wf [OF assms(1,2)]
  have inb: "inBuffer ?g (posWrite bs) (length src)"
    using grown_inBuffer [OF assms(1,2)] assms(3) by simp
  have "to_int32 (posWrite bs + int (length src)) = posWrite bs + int (length src)"
    using assms(2) b by (intro to_int32_id) auto
  then have eq: "bwrite src bs = Inr ?b"
    using inb by (simp add: bwrite_def Let_def)
  have fits: "nat (posWrite bs) + length src \<le> length (buffer ?g)"
    using inb by (auto simp: inBuffer_def)
  have wf: "bs_wf ?b"
    using g(1) inb fits by (auto simp: bs_wf_def inBuffer_def)
  have "contents ?b = contents ?g @ src"
  proof -
    have "nat (posWrite bs + int (length src)) = nat (posWrite bs) + length src"
      using b by simp
    then show ?thesis
      unfolding contents_wf [OF wf] contents_wf [OF g(1)]
      using fits b by (simp add: slice_overwrite_extend)
  qed
  moreover have "length (buffer ?b) = max (length (buffer bs)) (bsize bs + length src)"
    using fits by (auto simp: checkAdvanceWriteBuffer_eq [OF assms(1,2)])
  ultimately show thesis
    using that [OF eq wf] g(2) by simp
qed

lemma newByteStream_wf [inv_intros]: "n < 2 ^ 31 \<Longrightarrow> bs_wf (newByteStream n)"
  by (simp add: newByteStream_def clear_def bs_wf_def)

lemma newByteStream_facts [simp]:
  "contents (newByteStream n) = []" "posRead (newByteStream n) = 0" "posWrite (newByteStream n) = 0"
  "packetManipulator (newByteStream n) = None" "length (buffer (newByteStream n)) = n"
  by (simp_all add: newByteStream_def contents_clear, simp_all add: clear_def)

lemma rearrange_keeps:
  assumes "bs_wf bs"
  shows "bs_wf (rearrange bs)" and "contents (rearrange bs) = contents bs"
    and "posRead (rearrange bs) = 0"
proof -
  note b = bs_wf_bounds [OF assms]
  have n: "to_int32 (int (bsize bs)) = int (bsize bs)"
    using bsize_bound [OF assms] by (intro to_int32_id) auto
  have len: "length (take (bsize bs) (drop (nat (posRead bs)) (buffer bs))) = bsize bs"
    using length_contents [OF assms] by (simp add: contents_def data_def)
  show wf: "bs_wf (rearrange bs)"
    using assms b len n
    by (auto simp: rearrange_def clear_wf Let_def bs_wf_def clear_def bsize_wf)
  show "contents (rearrange bs) = contents bs"
  proof (cases "posRead bs = posWrite bs")
    case True
    then have "contents bs = []" using length_contents [OF assms] bsize_wf [OF assms] by simp
    then show ?thesis using True by (simp add: rearrange_def)
  next
    case False
    then have "contents (rearrange bs) = take (bsize bs) (buffer (rearrange bs))"
      unfolding contents_wf [OF wf] by (simp add: rearrange_def Let_def n)
    also have "\<dots> = contents bs"
      using False len by (simp add: rearrange_def Let_def overwrite_def contents_def data_def)
    finally show ?thesis .
  qed
  show "posRead (rearrange bs) = 0" by (simp add: rearrange_def clear_def Let_def)
qed

section \<open>The stream as a queue of bytes\<close>

text \<open>
  What the clients of a stream rely on: bytes come out in the order they went in, a short stream
  refuses a read, and room for a long write is room for its parts.
\<close>

locale byte_fifo =
  fixes inv :: "'s \<Rightarrow> bool"
    and content :: "'s \<Rightarrow> byte list"
    and room :: "'s \<Rightarrow> nat \<Rightarrow> bool"
    and put :: "byte list \<Rightarrow> 's \<Rightarrow> 's result"
    and get :: "nat \<Rightarrow> 's \<Rightarrow> (byte list \<times> 's) result"
  assumes put_ok: "inv s \<Longrightarrow> room s (length xs) \<Longrightarrow>
      \<exists>s'. put xs s = Inr s' \<and> inv s' \<and> content s' = content s @ xs"
    and room_rest: "inv s \<Longrightarrow> room s (length xs + n) \<Longrightarrow> put xs s = Inr s' \<Longrightarrow> room s' n"
    and room_less: "room s (m + n) \<Longrightarrow> room s m"
    and get_ok: "inv s \<Longrightarrow> n \<le> length (content s) \<Longrightarrow>
      \<exists>s'. get n s = Inr (take n (content s), s') \<and> inv s' \<and> content s' = drop n (content s)"
    and get_short: "inv s \<Longrightarrow> length (content s) < n \<Longrightarrow> \<exists>f. get n s = Inl f \<and> is_exception f"
begin

lemma put_seq:
  "inv s \<Longrightarrow> room s (length (concat xss)) \<Longrightarrow>
   \<exists>s'. seqR put xss s = Inr s' \<and> inv s' \<and> content s' = content s @ concat xss"
proof (induction xss arbitrary: s)
  case (Cons xs xss)
  have "room s (length xs)" using Cons.prems(2) room_less by simp
  then obtain t where t: "put xs s = Inr t" "inv t" "content t = content s @ xs"
    using put_ok [OF Cons.prems(1)] by blast
  have "room t (length (concat xss))"
    using room_rest [OF Cons.prems(1) _ t(1)] Cons.prems(2) by simp
  then show ?case using Cons.IH [OF t(2)] t by auto
qed simp

lemma get_seq:
  "inv s \<Longrightarrow> content s = concat xss @ rest \<Longrightarrow>
   \<exists>s'. collectR get (map length xss) s = Inr (xss, s') \<and> inv s' \<and> content s' = rest"
proof (induction xss arbitrary: s)
  case (Cons xs xss)
  then obtain t where "get (length xs) s = Inr (take (length xs) (content s), t)" "inv t"
    "content t = drop (length xs) (content s)"
    using get_ok [OF Cons.prems(1), of "length xs"] by auto
  then show ?case using Cons.IH [of t] Cons.prems(2) by auto
qed simp

lemma put_get_seq:
  assumes "inv s" and "content s = []" and "room s (length (concat xss))"
    and "concat xss = concat yss"
  obtains s' s'' where "seqR put xss s = Inr s'" and "collectR get (map length yss) s' = Inr (yss, s'')"
    and "content s'' = []"
proof -
  from put_seq [OF assms(1,3)] assms(2,4) obtain s' where
    s': "seqR put xss s = Inr s'" "inv s'" "content s' = concat yss" by auto
  from get_seq [OF s'(2), of yss "[]"] s'(3) show thesis using that s'(1) by auto
qed

end

definition streamRoom :: "byte_stream \<Rightarrow> nat \<Rightarrow> bool" where
  "streamRoom bs n \<longleftrightarrow> canWrite bs n \<and> posWrite bs + int n < 2 ^ 31"

text \<open>Taking a packet as \<open>packetParser.hpp\<close> does: copy from \<open>data()\<close>, then advance.\<close>

definition takeData :: "nat \<Rightarrow> byte_stream \<Rightarrow> (byte list \<times> byte_stream) result" where
  "takeData n bs = bindR (advancePosRead n bs) (\<lambda>bs'. Inr (take n (data bs), bs'))"

lemma streamRoom_put:
  assumes "bs_wf bs" and "streamRoom bs (length xs)"
  shows "\<exists>bs'. bwrite xs bs = Inr bs' \<and> bs_wf bs' \<and> contents bs' = contents bs @ xs"
  using assms by (auto simp: streamRoom_def elim: bwrite_ok)

lemma streamRoom_less: "streamRoom bs (m + n) \<Longrightarrow> streamRoom bs m"
  by (auto simp: streamRoom_def canWrite_def)

lemma streamRoom_rest:
  assumes "bs_wf bs" and "streamRoom bs (length xs + n)" and "bwrite xs bs = Inr bs'"
  shows "streamRoom bs' n"
proof -
  have r: "streamRoom bs (length xs)" using assms(2) by (rule streamRoom_less)
  then obtain c where "bwrite xs bs = Inr c" "posRead c = posRead bs"
    "posWrite c = posWrite bs + int (length xs)"
    "length (buffer c) = max (length (buffer bs)) (bsize bs + length xs)"
    using assms(1) by (auto simp: streamRoom_def elim: bwrite_ok)
  then show ?thesis using assms(2,3) by (auto simp: streamRoom_def canWrite_def)
qed

interpretation stream_fifo: byte_fifo bs_wf contents streamRoom bwrite bread
proof (unfold_locales, goal_cases)
  case 1 then show ?case by (rule streamRoom_put)
next
  case 2 then show ?case by (rule streamRoom_rest)
next
  case 3 then show ?case by (rule streamRoom_less)
next
  case (4 s n) then show ?case using advance_contents [of s n] by (simp add: bread_eq)
next
  case (5 s n) then show ?case by (simp add: bread_eq is_exception_def)
qed

interpretation packet_fifo: byte_fifo bs_wf contents streamRoom bwrite takeData
proof (unfold_locales, goal_cases)
  case 1 then show ?case by (rule streamRoom_put)
next
  case 2 then show ?case by (rule streamRoom_rest)
next
  case 3 then show ?case by (rule streamRoom_less)
next
  case (4 s n)
  then show ?case
    by (auto simp: takeData_def take_data intro: advancePosRead_ok [of s n])
next
  case (5 s n) then show ?case by (simp add: takeData_def advancePosRead_error is_exception_def)
qed

section \<open>Properties\<close>

text \<open>
  C21. A byte stream is a queue: bytes written to an empty stream in pieces \<open>xss\<close> come out in the same
  order whatever pieces \<open>yss\<close> they are read in, and the stream is empty again.
\<close>

theorem stream_roundtrip:
  assumes "bs_wf bs" and "contents bs = []" and "streamRoom bs (length (concat xss))"
    and "concat xss = concat yss"
  shows "\<exists>bs' bs''. seqR bwrite xss bs = Inr bs' \<and> collectR bread (map length yss) bs' = Inr (yss, bs'')
    \<and> contents bs'' = []"
proof -
  obtain s' s'' where "seqR bwrite xss bs = Inr s'" "collectR bread (map length yss) s' = Inr (yss, s'')"
    "contents s'' = []"
    by (rule stream_fifo.put_get_seq [OF assms])
  then show ?thesis by blast
qed

theorem stream_roundtrip_witness:
  "\<exists>bs' bs''. seqR bwrite [[1, 2], [3]] (newByteStream DEFAULT_BUFFER_SIZE) = Inr bs'
    \<and> collectR bread (map length [[1 :: byte], [2, 3]]) bs' = Inr ([[1], [2, 3]], bs'') \<and> contents bs'' = []"
  by (rule stream_roundtrip)
     (simp_all add: newByteStream_wf streamRoom_def canWrite_def DEFAULT_BUFFER_SIZE_def)

text \<open>
  C22. What a write does: it appends the bytes when the read position is 0 (the buffer then grows as
  needed) or the bytes fit behind the write position; otherwise it writes past the buffer, although
  the stream that \<open>rearrange\<close> would have produced takes the same bytes.
\<close>

theorem write_outcome:
  assumes "bs_wf bs" and "posWrite bs + int (length src) < 2 ^ 31"
  shows "if posRead bs = 0 \<or> posWrite bs + int (length src) \<le> int (length (buffer bs))
    then \<exists>bs'. bwrite src bs = Inr bs' \<and> bs_wf bs' \<and> contents bs' = contents bs @ src
    else bwrite src bs = Inl (Undefined ''write past the buffer'')
      \<and> (\<exists>bs'. bwrite src (rearrange bs) = Inr bs' \<and> contents bs' = contents bs @ src)"
proof -
  have r: "bs_wf (rearrange bs)" "contents (rearrange bs) = contents bs" "posRead (rearrange bs) = 0"
    using rearrange_keeps [OF assms(1)] by auto
  have "posWrite (rearrange bs) = int (bsize (rearrange bs))"
    using bs_wf_bounds [OF r(1)] r(3) by (simp add: bsize_wf [OF r(1)])
  moreover have "bsize (rearrange bs) = bsize bs"
    using length_contents [OF r(1)] length_contents [OF assms(1)] r(2) by simp
  ultimately have "posWrite (rearrange bs) + int (length src) < 2 ^ 31"
    using bs_wf_bounds [OF assms(1)] assms(2) by (simp add: bsize_wf [OF assms(1)])
  then have again: "\<exists>bs'. bwrite src (rearrange bs) = Inr bs' \<and> contents bs' = contents bs @ src"
    using streamRoom_put [OF r(1), of src] r(2,3) by (auto simp: streamRoom_def canWrite_def)
  show ?thesis
    using streamRoom_put [OF assms(1), of src] bwrite_fails [OF assms] again assms(2)
    by (auto simp: streamRoom_def canWrite_def)
qed

text \<open>A stream of four bytes of which one was read.\<close>

definition shiftedStream :: byte_stream where
  "shiftedStream = (newByteStream 4)\<lparr>posRead := 1, posWrite := 4\<rparr>"

theorem write_outcome_witness:
  "bwrite [5] shiftedStream = Inl (Undefined ''write past the buffer'')
    \<and> (\<exists>bs'. bwrite [5] (rearrange shiftedStream) = Inr bs' \<and> contents bs' = contents shiftedStream @ [5])"
proof -
  have "posRead shiftedStream = 1" "posWrite shiftedStream = 4" "length (buffer shiftedStream) = 4"
    "bs_wf shiftedStream"
    by (simp_all add: shiftedStream_def bs_wf_def newByteStream_def clear_def)
  then show ?thesis using write_outcome [of shiftedStream "[5]"] by simp
qed

text \<open>
  No read moves the data to the front of the buffer: the test before a read compares the free
  space with itself, so \<open>rearrange\<close> is never called.
\<close>

lemma read_never_rearranges:
  "checkAdvanceReadBuffer n bs =
     (if bsize bs < n then Inl (Runtime_error ''reading larger than the data size.'') else Inr bs)"
  by (simp add: checkAdvanceReadBuffer_def)

section \<open>Sequences of calls\<close>

text \<open>The public operations that change a stream or copy from it, as calls.\<close>

datatype stream_call =
    Call_clear
  | Call_write "byte list"
  | Call_advancePosWrite nat
  | Call_read nat
  | Call_tryRead nat
  | Call_advancePosRead nat
  | Call_setHeaderSize
  | Call_setManipulator "packet_manipulator option"

fun streamCall :: "stream_call \<Rightarrow> byte_stream \<Rightarrow> byte_stream result" where
  "streamCall Call_clear bs = Inr (clear bs)"
| "streamCall (Call_write src) bs = bwrite src bs"
| "streamCall (Call_advancePosWrite n) bs = Inr (advancePosWrite n bs)"
| "streamCall (Call_read n) bs = bindR (bread n bs) (\<lambda>(dst, bs'). Inr bs')"
| "streamCall (Call_tryRead n) bs = bindR (tryRead n bs) (\<lambda>dst. Inr bs)"
| "streamCall (Call_advancePosRead n) bs = advancePosRead n bs"
| "streamCall Call_setHeaderSize bs = setHeaderSize bs"
| "streamCall (Call_setManipulator m) bs = Inr (setManipulator m bs)"

text \<open>
  What a caller has to observe: bytes are written, and the write position advanced, only where there is
  room, and the manipulator stays within the memory that it is given. Reads need no care.
\<close>

fun callTyped :: "stream_call \<Rightarrow> byte_stream \<Rightarrow> bool" where
  "callTyped (Call_write src) bs = streamRoom bs (length src)"
| "callTyped (Call_advancePosWrite n) bs = streamRoom bs n"
| "callTyped Call_setHeaderSize bs =
     (case packetManipulator bs of None \<Rightarrow> True
      | Some m \<Rightarrow> (case WriteHeaderSize m (bsize bs) (data bs) of Inl f \<Rightarrow> is_exception f
                    | Inr mem \<Rightarrow> length mem = length (data bs)))"
| "callTyped c bs = True"

fun callsTyped :: "stream_call list \<Rightarrow> byte_stream \<Rightarrow> bool" where
  "callsTyped [] bs = True"
| "callsTyped (c # cs) bs = (callTyped c bs \<and> (case streamCall c bs of Inl f \<Rightarrow> True | Inr bs' \<Rightarrow> callsTyped cs bs'))"

lemma advancePosWrite_wf:
  assumes "bs_wf bs" and "streamRoom bs n"
  shows "bs_wf (advancePosWrite n bs)"
proof -
  let ?g = "checkAdvanceWriteBuffer n bs"
  have b: "posWrite bs + int n < 2 ^ 31" "canWrite bs n" using assms(2) by (simp_all add: streamRoom_def)
  note g = grown_wf(1) [OF assms(1) b(1)]
  have "inBuffer ?g (posWrite bs) n" using grown_inBuffer [OF assms(1) b(1)] b(2) by simp
  moreover have "to_int32 (posWrite bs + int n) = posWrite bs + int n"
    using b(1) bs_wf_bounds [OF assms(1)] by (intro to_int32_id) auto
  ultimately show ?thesis using g by (auto simp: advancePosWrite_def Let_def bs_wf_def inBuffer_def)
qed

lemma setHeaderSize_wf:
  assumes "bs_wf bs" and "callTyped Call_setHeaderSize bs"
  shows "case setHeaderSize bs of Inl f \<Rightarrow> is_exception f | Inr bs' \<Rightarrow> bs_wf bs'"
proof -
  have "nat (posRead bs) \<le> length (buffer bs)" using bs_wf_bounds [OF assms(1)] by simp
  then show ?thesis
    using assms
    by (auto simp: setHeaderSize_def bindR_def data_def bs_wf_def min_def split: option.splits sum.splits)
qed

lemma streamCall_typed:
  assumes wf: "bs_wf bs" and ok: "callTyped c bs"
  shows "case streamCall c bs of Inl f \<Rightarrow> is_exception f | Inr bs' \<Rightarrow> bs_wf bs'"
proof (cases c)
  case (Call_write src)
  then show ?thesis using streamRoom_put [OF wf, of src] ok by auto
next
  case (Call_read n)
  then show ?thesis
    using advance_contents(1) [OF wf, of n] wf by (simp add: bread_eq [OF wf] bindR_def is_exception_def)
next
  case (Call_tryRead n)
  then show ?thesis using wf by (simp add: tryRead_eq bindR_def)
next
  case (Call_advancePosRead n)
  show ?thesis
  proof (cases "n \<le> length (contents bs)")
    case True
    then show ?thesis using Call_advancePosRead by (auto intro: advancePosRead_ok [OF wf, of n])
  next
    case False
    then show ?thesis using Call_advancePosRead advancePosRead_error [OF wf, of n] by (simp add: is_exception_def)
  qed
next
  case Call_setHeaderSize
  then show ?thesis using setHeaderSize_wf [OF wf] ok by simp
next
  case (Call_setManipulator m)
  then show ?thesis using wf by (simp add: setManipulator_def bs_wf_def)
qed (use wf ok advancePosWrite_wf clear_wf in simp_all)

text \<open>
  C20. Whatever calls are made on a well-formed stream, in whatever order, as long as bytes are written only
  where there is room: every one leaves a well-formed stream, with both positions inside the buffer and
  the read position not behind the write position, or throws an exception; no copy leaves the buffer.
\<close>

theorem stream_stays_well_formed:
  assumes "bs_wf bs" and "callsTyped cs bs"
  shows "case seqR streamCall cs bs of Inl f \<Rightarrow> is_exception f | Inr bs' \<Rightarrow> bs_wf bs'"
  using assms
proof (induction cs arbitrary: bs)
  case (Cons c cs)
  show ?case
  proof (cases "streamCall c bs")
    case (Inl f)
    then show ?thesis using streamCall_typed [OF Cons.prems(1), of c] Cons.prems(2) by simp
  next
    case (Inr bs')
    then have "bs_wf bs'" "callsTyped cs bs'" using streamCall_typed [OF Cons.prems(1), of c] Cons.prems(2) by simp_all
    then show ?thesis using Cons.IH [of bs'] Inr by simp
  qed
qed simp

theorem stream_stays_well_formed_witness:
  "case seqR streamCall [Call_write [1, 2], Call_read 1, Call_tryRead 9, Call_advancePosRead 1, Call_clear] (newByteStream 4)
     of Inl f \<Rightarrow> is_exception f | Inr bs' \<Rightarrow> bs_wf bs'"
proof (rule stream_stays_well_formed)
  have "streamRoom (newByteStream 4) (Suc (Suc 0))" by (simp add: streamRoom_def canWrite_def)
  then show "callsTyped [Call_write [1, 2], Call_read 1, Call_tryRead 9, Call_advancePosRead 1, Call_clear] (newByteStream 4)"
    by (auto split: sum.split)
qed (simp add: newByteStream_wf)

end
