(* ===== verification/Event_Receiver.thy ===== *)
theory Event_Receiver
  imports Byte_Stream
begin

text \<open>
  The callbacks of \<open>src/include/net/eventReceiver.hpp\<close>. A callback is a \<open>std::function\<close> that may be
  empty; calling an empty one throws \<open>std::bad_function_call\<close>. The callbacks belong to the
  application and are parameters of the model: \<open>'s\<close> is the session a callback may change, \<open>'p\<close> the
  packet procedure the application registers its handlers with, \<open>'w\<close> what the periodic update
  changes.
\<close>

record ('s, 'p, 'w) event_receiver =
  onAccept :: "('s \<Rightarrow> 's result) option"
  onAcceptFailed :: "('s \<Rightarrow> 's result) option"
  onConnect :: "('s \<Rightarrow> 's result) option"
  onConnectFailed :: "('s \<Rightarrow> 's result) option"
  onCloseCb :: "('s \<Rightarrow> 's result) option"
  onCloseFailed :: "('s \<Rightarrow> 's result) option"
  onExpiredSession :: "('s \<Rightarrow> 's result) option"
  onUpdate :: "(nat \<Rightarrow> 'w \<Rightarrow> 'w result) option"
  noHandler :: "('s \<Rightarrow> byte_stream \<Rightarrow> 's result) option"
  initHandler :: "('p \<Rightarrow> 'p result) option"

definition emptyReceiver :: "('s, 'p, 'w) event_receiver" where
  "emptyReceiver = \<lparr>onAccept = None, onAcceptFailed = None, onConnect = None,
     onConnectFailed = None, onCloseCb = None, onCloseFailed = None, onExpiredSession = None,
     onUpdate = None, noHandler = None, initHandler = None\<rparr>"

definition callFn :: "('x \<Rightarrow> 'y result) option \<Rightarrow> 'x \<Rightarrow> 'y result" where
  "callFn f x = (case f of None \<Rightarrow> Inl Bad_function_call | Some g \<Rightarrow> g x)"

definition callFn2 :: "('x \<Rightarrow> 'y \<Rightarrow> 'z result) option \<Rightarrow> 'x \<Rightarrow> 'y \<Rightarrow> 'z result" where
  "callFn2 f x y = (case f of None \<Rightarrow> Inl Bad_function_call | Some g \<Rightarrow> g x y)"

lemma callFn_simps [simp]:
  "callFn None x = Inl Bad_function_call" "callFn (Some g) x = g x"
  "callFn2 None x y = Inl Bad_function_call" "callFn2 (Some h) x y = h x y"
  by (simp_all add: callFn_def callFn2_def)

text \<open>\<open>EventReceiver::clone\<close> copies every callback into the target.\<close>

definition clone :: "('s, 'p, 'w) event_receiver \<Rightarrow> ('s, 'p, 'w) event_receiver
    \<Rightarrow> ('s, 'p, 'w) event_receiver" where
  "clone this target = target\<lparr>
     onAccept := onAccept this,
     onAcceptFailed := onAcceptFailed this,
     onConnect := onConnect this,
     onConnectFailed := onConnectFailed this,
     onCloseCb := onCloseCb this,
     onCloseFailed := onCloseFailed this,
     onExpiredSession := onExpiredSession this,
     onUpdate := onUpdate this,
     noHandler := noHandler this,
     initHandler := initHandler this\<rparr>"

text \<open>
  The members an application class provides; \<open>EventReceiverAcceptorRegister\<close> and
  \<open>EventReceiverConnectorRegister\<close> bind them into an \<open>EventReceiver\<close>.
\<close>

record ('s, 'p, 'w) receiver_class =
  m_onAccept :: "'s \<Rightarrow> 's result"
  m_onAcceptFailed :: "'s \<Rightarrow> 's result"
  m_onConnect :: "'s \<Rightarrow> 's result"
  m_onConnectFailed :: "'s \<Rightarrow> 's result"
  m_onClose :: "'s \<Rightarrow> 's result"
  m_onCloseFailed :: "'s \<Rightarrow> 's result"
  m_onExpiredSession :: "'s \<Rightarrow> 's result"
  m_onUpdate :: "nat \<Rightarrow> 'w \<Rightarrow> 'w result"
  m_noHandler :: "'s \<Rightarrow> byte_stream \<Rightarrow> 's result"
  m_initHandler :: "'p \<Rightarrow> 'p result"

definition EventReceiverAcceptorRegister ::
    "('s, 'p, 'w) receiver_class \<Rightarrow> ('s, 'p, 'w) event_receiver" where
  "EventReceiverAcceptorRegister inst = emptyReceiver\<lparr>
     onAccept := Some (m_onAccept inst),
     onAcceptFailed := Some (m_onAcceptFailed inst),
     onCloseCb := Some (m_onClose inst),
     onCloseFailed := Some (m_onCloseFailed inst),
     onExpiredSession := Some (m_onExpiredSession inst),
     onUpdate := Some (m_onUpdate inst),
     noHandler := Some (m_noHandler inst),
     initHandler := Some (m_initHandler inst)\<rparr>"

definition EventReceiverConnectorRegister ::
    "('s, 'p, 'w) receiver_class \<Rightarrow> ('s, 'p, 'w) event_receiver" where
  "EventReceiverConnectorRegister inst = emptyReceiver\<lparr>
     onConnect := Some (m_onConnect inst),
     onConnectFailed := Some (m_onConnectFailed inst),
     onCloseCb := Some (m_onClose inst),
     onCloseFailed := Some (m_onCloseFailed inst),
     onExpiredSession := Some (m_onExpiredSession inst),
     onUpdate := Some (m_onUpdate inst),
     noHandler := Some (m_noHandler inst),
     initHandler := Some (m_initHandler inst)\<rparr>"

lemma clone_eq: "clone this target = this"
  by (simp add: clone_def)

end
