(* ===== verification/Session.thy ===== *)
theory Session
  imports Event_Receiver
begin

text \<open>
  The class \<open>Session\<close> of \<open>src/include/net/session.hpp\<close>: one TCP or websocket connection.

  A session's completion handlers all run on its strand, one after the other. The model keeps the
  strand as the queue \<open>strand\<close> of handlers that are ready to run, and the operations in flight (the
  socket read, the writes, the waits of the two timers) as fields; what the session does to the
  outside (starting a write, shutting the socket down, calling the application) is appended to
  \<open>effects\<close>. Log output is left out.
\<close>

section \<open>State\<close>

datatype session_type = TCP | WEBSOCKET

datatype socket_status = OPEN | PENDING_CLOSE | CLOSED

datatype error_code = Ec_ok | Ec_shut_down | Ec_eof | Ec_operation_aborted | Ec_other nat

datatype shutdown_type = Shutdown_receive | Shutdown_send | Shutdown_both

datatype task =
    T_handleRead error_code "byte list"
  | T_dispatch
  | T_handleWrite error_code nat
  | T_onClose
  | T_onExpired error_code
  | T_onCloseReserveTime error_code "nat option"

datatype effect =
    F_async_read session_type
  | F_async_write session_type "byte list"
  | F_no_delay
  | F_linger
  | F_shutdown shutdown_type
  | F_close
  | F_websocket_close
  | F_onClose
  | F_onExpiredSession
  | F_post nat

record user =
  userId :: nat
  userSessionType :: session_type
  userSession :: u64

record session =
  sessionType :: session_type
  identity :: u64
  socketStatus :: socket_status
  keepAliveTime :: nat
  readHandlerPending :: u64
  postRetryCount :: u64
  recvStream :: byte_stream
  sessionManip :: "packet_manipulator option"
  netServiceID :: nat
  endPoint :: "byte list \<times> nat"
  spUser :: "user option"
  socketOpen :: bool
  readsInFlight :: nat
  writesInFlight :: nat
  keepAliveWaits :: nat
  closeWaits :: "nat option list"
  strand :: "task list"
  effects :: "effect list"

definition RECV_BUFFER_SIZE :: nat where "RECV_BUFFER_SIZE = 8192"
definition HANDLE_READ_RETRY_MAX :: u64 where "HANDLE_READ_RETRY_MAX = 5"

text \<open>The dispatcher a session is given: it may throw, and it may fail to return (\<open>None\<close>).\<close>

type_synonym 's dispatcher = "'s \<Rightarrow> (bool \<times> 's) result option"

section \<open>Construction\<close>

text \<open>
  \<open>Session::create\<close>: the keep-alive time and the connection id are not handed to the constructor
  (those arguments are commented out), so \<open>_keepAliveTime\<close> stays 0. The identity comes from the
  static counter \<open>s_identitySeed\<close>, which is returned incremented. \<open>_recvStream\<close> is empty until the
  session is started, and \<open>_netServiceID\<close> is set by the caller.
\<close>

definition newSession :: "session_type \<Rightarrow> packet_manipulator option \<Rightarrow> u64 \<Rightarrow> session" where
  "newSession st manip ident =
     \<lparr>sessionType = st, identity = ident, socketStatus = CLOSED, keepAliveTime = 0,
      readHandlerPending = 0, postRetryCount = 0, recvStream = newByteStream 0,
      sessionManip = manip, netServiceID = 0, endPoint = ([], 0), spUser = None,
      socketOpen = False, readsInFlight = 0, writesInFlight = 0, keepAliveWaits = 0,
      closeWaits = [], strand = [], effects = []\<rparr>"

definition create :: "session_type \<Rightarrow> packet_manipulator option \<Rightarrow> nat \<Rightarrow> nat \<Rightarrow> u64
    \<Rightarrow> session \<times> u64" where
  "create st manip keepAliveTimeMs connectionID s_identitySeed =
     (newSession st manip s_identitySeed, s_identitySeed + 1)"

section \<open>Timers, strand and effects\<close>

definition post :: "task \<Rightarrow> 'a session_scheme \<Rightarrow> 'a session_scheme" where
  "post t s = s\<lparr>strand := strand s @ [t]\<rparr>"

definition emit :: "effect \<Rightarrow> 'a session_scheme \<Rightarrow> 'a session_scheme" where
  "emit e s = s\<lparr>effects := effects s @ [e]\<rparr>"

text \<open>Cancelling a timer completes its waits with \<open>operation_aborted\<close>, on the strand.\<close>

definition cancelKeepAlive :: "'a session_scheme \<Rightarrow> 'a session_scheme" where
  "cancelKeepAlive s =
     s\<lparr>strand := strand s @ replicate (keepAliveWaits s) (T_onExpired Ec_operation_aborted),
       keepAliveWaits := 0\<rparr>"

definition cancelCloseReserve :: "'a session_scheme \<Rightarrow> 'a session_scheme" where
  "cancelCloseReserve s =
     s\<lparr>strand := strand s @ map (T_onCloseReserveTime Ec_operation_aborted) (closeWaits s),
       closeWaits := []\<rparr>"

definition asyncRead :: "session_type \<Rightarrow> 'a session_scheme \<Rightarrow> 'a session_scheme" where
  "asyncRead st s = (emit (F_async_read st) s)\<lparr>readsInFlight := readsInFlight s + 1\<rparr>"

definition asyncWrite :: "byte list \<Rightarrow> 'a session_scheme \<Rightarrow> 'a session_scheme" where
  "asyncWrite bs s =
     (emit (F_async_write (sessionType s) bs) s)\<lparr>writesInFlight := writesInFlight s + 1\<rparr>"

section \<open>Operations\<close>

definition setSocketStatus :: "socket_status \<Rightarrow> 'a session_scheme \<Rightarrow> 'a session_scheme" where
  "setSocketStatus st s = s\<lparr>socketStatus := st\<rparr>"

definition incReadHandlerPendingCount :: "'a session_scheme \<Rightarrow> 'a session_scheme" where
  "incReadHandlerPendingCount s = s\<lparr>readHandlerPending := readHandlerPending s + 1\<rparr>"

definition decReadHandlerPendingCount :: "'a session_scheme \<Rightarrow> 'a session_scheme" where
  "decReadHandlerPendingCount s = s\<lparr>readHandlerPending := readHandlerPending s - 1\<rparr>"

definition setUser :: "user option \<Rightarrow> 'a session_scheme \<Rightarrow> 'a session_scheme" where
  "setUser u s = s\<lparr>spUser := u\<rparr>"

definition setServiceID :: "nat \<Rightarrow> 'a session_scheme \<Rightarrow> 'a session_scheme" where
  "setServiceID i s = s\<lparr>netServiceID := i\<rparr>"

definition saveEndPoint :: "byte list \<times> nat \<Rightarrow> 'a session_scheme \<Rightarrow> 'a session_scheme" where
  "saveEndPoint remote s = s\<lparr>endPoint := remote\<rparr>"

definition getSessionTypeString :: "'a session_scheme \<Rightarrow> string" where
  "getSessionTypeString s = (if sessionType s = TCP then ''TCP'' else ''WEBSOCKET'')"

definition renewExpireTime :: "'a session_scheme \<Rightarrow> 'a session_scheme" where
  "renewExpireTime s =
     (if keepAliveTime s = 0 then s
      else let s1 = cancelKeepAlive s in s1\<lparr>keepAliveWaits := keepAliveWaits s1 + 1\<rparr>)"

text \<open>
  The acceptor calls \<open>startAccept\<close> from its own handler and not on the session's strand. It is one step here: the
  read it starts completes on the strand, and the model lets a completion run only after the call.
\<close>

definition startAccept :: "'a session_scheme \<Rightarrow> 'a session_scheme" where
  "startAccept s =
     (let s1 = s\<lparr>recvStream := newByteStream DEFAULT_BUFFER_SIZE\<rparr>;
          s2 = emit F_linger (emit F_no_delay s1);
          s3 = asyncRead (sessionType s2) s2
      in renewExpireTime (s3\<lparr>socketStatus := OPEN\<rparr>))"

definition startConnect :: "session_type \<Rightarrow> 'a session_scheme \<Rightarrow> 'a session_scheme" where
  "startConnect st s =
     (let s1 = s\<lparr>recvStream := newByteStream DEFAULT_BUFFER_SIZE\<rparr>;
          s2 = emit F_linger (emit F_no_delay s1);
          s3 = asyncRead st s2
      in renewExpireTime (s3\<lparr>socketStatus := OPEN\<rparr>))"

definition send :: "byte_stream \<Rightarrow> 'a session_scheme \<Rightarrow> 'a session_scheme result" where
  "send sendStream s =
     bindR (setHeaderSize sendStream) (\<lambda>st. Inr (asyncWrite (contents st) s))"

definition sendFixedBuffer :: "byte list \<Rightarrow> 'a session_scheme \<Rightarrow> 'a session_scheme" where
  "sendFixedBuffer sendBuffer s = asyncWrite sendBuffer s"

definition sendRaw :: "byte list \<Rightarrow> 'a session_scheme \<Rightarrow> 'a session_scheme result" where
  "sendRaw dat s =
     bindR (bwrite dat (newByteStream DEFAULT_BUFFER_SIZE)) (\<lambda>st. Inr (asyncWrite (contents st) s))"

definition sendByteStream :: "byte list \<Rightarrow> bool \<Rightarrow> 'a session_scheme \<Rightarrow> 'a session_scheme result" where
  "sendByteStream sendBuffer writeHeader s =
     bindR (newByteStreamManip (sessionManip s) writeHeader DEFAULT_BUFFER_SIZE) (\<lambda>st.
       bindR (bwrite sendBuffer st) (\<lambda>st'. send st' s))"

definition closeReserve :: "nat \<Rightarrow> nat option \<Rightarrow> 'a session_scheme \<Rightarrow> 'a session_scheme" where
  "closeReserve timeAfterMs p s =
     (let s1 = cancelCloseReserve s in s1\<lparr>closeWaits := closeWaits s1 @ [p]\<rparr>)"

definition tryCloseByFailed :: "shutdown_type \<Rightarrow> 'a session_scheme \<Rightarrow> 'a session_scheme" where
  "tryCloseByFailed what s =
     (let s1 = (if sessionType s = TCP then emit (F_shutdown what) s else s)
      in if socketStatus s1 = OPEN then
           post T_onClose (cancelCloseReserve (cancelKeepAlive (s1\<lparr>socketStatus := PENDING_CLOSE\<rparr>)))
         else s1)"

definition closeSocket :: "'a session_scheme \<Rightarrow> 'a session_scheme" where
  "closeSocket s =
     (if socketOpen s then
        (if sessionType s = TCP then (emit F_close (emit (F_shutdown Shutdown_both) s))\<lparr>socketOpen := False\<rparr>
         else (emit F_websocket_close (emit F_websocket_close s))\<lparr>socketOpen := False\<rparr>)
      else s)"

definition onClose :: "('a session_scheme, 'p, 'w) event_receiver \<Rightarrow> 'a session_scheme
    \<Rightarrow> 'a session_scheme result" where
  "onClose er s =
     (if socketStatus s \<noteq> CLOSED then
        let s1 = setSocketStatus CLOSED s;
            s2 = cancelCloseReserve (cancelKeepAlive s1)
        in bindR (callFn (onCloseCb er) (emit F_onClose s2)) (\<lambda>s3. Inr (closeSocket s3))
      else Inr s)"

definition onExpired :: "('a session_scheme, 'p, 'w) event_receiver \<Rightarrow> error_code
    \<Rightarrow> 'a session_scheme \<Rightarrow> 'a session_scheme result" where
  "onExpired er ec s =
     (if ec = Ec_ok \<and> socketStatus s = OPEN
      then callFn (onExpiredSession er) (emit F_onExpiredSession s)
      else Inr s)"

definition onCloseReserveTime :: "('a session_scheme, 'p, 'w) event_receiver \<Rightarrow> error_code
    \<Rightarrow> nat option \<Rightarrow> 'a session_scheme \<Rightarrow> 'a session_scheme result" where
  "onCloseReserveTime er ec p s =
     (if socketStatus s = OPEN then
        bindR (onClose er s) (\<lambda>s1. Inr (case p of None \<Rightarrow> s1 | Some f \<Rightarrow> emit (F_post f) s1))
      else Inr s)"

definition handleRead :: "error_code \<Rightarrow> byte list \<Rightarrow> 'a session_scheme \<Rightarrow> 'a session_scheme result" where
  "handleRead ec bytes s =
     (if ec = Ec_ok then
        bindR (bwrite bytes (recvStream s)) (\<lambda>st.
          let s1 = incReadHandlerPendingCount (s\<lparr>recvStream := st\<rparr>);
              s2 = post T_dispatch s1;
              s3 = asyncRead (sessionType s2) s2
          in Inr (renewExpireTime s3))
      else if ec \<noteq> Ec_shut_down \<and> ec \<noteq> Ec_eof \<and> 0 < readHandlerPending s then
        let retry = postRetryCount s < HANDLE_READ_RETRY_MAX;
            s1 = s\<lparr>postRetryCount := postRetryCount s + 1\<rparr>
        in Inr (if retry then post (T_handleRead ec bytes) s1
                else tryCloseByFailed Shutdown_receive s1)
      else Inr (tryCloseByFailed Shutdown_receive s))"

definition handleWrite :: "error_code \<Rightarrow> nat \<Rightarrow> 'a session_scheme \<Rightarrow> 'a session_scheme" where
  "handleWrite ec bytes_transferred s =
     (if ec = Ec_ok then renewExpireTime s else tryCloseByFailed Shutdown_send s)"

definition session_dispatch :: "'a session_scheme dispatcher \<Rightarrow> 'a session_scheme
    \<Rightarrow> 'a session_scheme result option" where
  "session_dispatch disp s =
     (case disp s of
        None \<Rightarrow> None
      | Some (Inl f) \<Rightarrow> Some (Inl f)
      | Some (Inr (b, s')) \<Rightarrow> Some (Inr s'))"

text \<open>Running the handler at the head of the strand.\<close>

fun runTask :: "('a session_scheme, 'p, 'w) event_receiver \<Rightarrow> 'a session_scheme dispatcher \<Rightarrow> task
    \<Rightarrow> 'a session_scheme \<Rightarrow> 'a session_scheme result option" where
  "runTask er disp (T_handleRead ec bytes) s = Some (handleRead ec bytes s)"
| "runTask er disp T_dispatch s = session_dispatch disp s"
| "runTask er disp (T_handleWrite ec n) s = Some (Inr (handleWrite ec n s))"
| "runTask er disp T_onClose s = Some (onClose er s)"
| "runTask er disp (T_onExpired ec) s = Some (onExpired er ec s)"
| "runTask er disp (T_onCloseReserveTime ec p) s = Some (onCloseReserveTime er ec p s)"

end
