(* ===== verification/Schedulers.thy ===== *)
theory Schedulers
  imports Session
begin

text \<open>
  The three job schedulers: \<open>SimpleScheduler\<close> and \<open>SimpleSchedulerES\<close> of
  \<open>src/include/net/time/simpleScheduler.h\<close>, which tick with one timer for all jobs, and \<open>Scheduler\<close> of
  \<open>src/include/net/time/scheduler.h\<close> with one timer per job.

  The template parameters \<open>MAX_SCHEDULES\<close> and \<open>TIME_INCREMENT_SIZE_MS\<close> are the length of the array of
  entries and the argument \<open>T\<close>. A callback changes the state \<open>'w\<close> of the application. The remaining time
  is an \<open>int64_t\<close> from which a \<open>size_t\<close> is subtracted, that is modulo \<open>2 ^ 64\<close>: it is a 64-bit word, read
  as a signed number where the code compares it. Waits on a timer are counted.
\<close>

section \<open>\<open>SimpleScheduler\<close>\<close>

type_synonym 'w job_callback = "u64 \<Rightarrow> 'w \<Rightarrow> 'w"

record 'w scheduler_info =
  schedulerID :: nat
  interval :: u64
  intervalRemain :: u64
  jobCallback :: "'w job_callback"

record 'w simple_scheduler =
  schedulerEntry :: "'w scheduler_info option list"
  currentEntries :: nat
  processing :: bool
  timerWaits :: nat
  timerAborted :: nat

definition newSchedulerInfo :: "nat \<Rightarrow> u64 \<Rightarrow> 'w job_callback \<Rightarrow> 'w scheduler_info" where
  "newSchedulerInfo i ms cb = \<lparr>schedulerID = i, interval = ms, intervalRemain = ms, jobCallback = cb\<rparr>"

definition newSimpleScheduler :: "nat \<Rightarrow> 'w simple_scheduler" where
  "newSimpleScheduler maxSchedules =
     \<lparr>schedulerEntry = replicate maxSchedules None, currentEntries = 0, processing = False,
      timerWaits = 0, timerAborted = 0\<rparr>"

text \<open>
  Setting the expiry of the timer aborts the waits that are there. How long the wait is, \<open>TIME_INCREMENT_SIZE_MS\<close>
  converted to an \<open>int\<close>, has no part in counting the ticks and is left out.
\<close>

definition ReserveUpdate :: "'w simple_scheduler \<Rightarrow> 'w simple_scheduler" where
  "ReserveUpdate s = s\<lparr>timerAborted := timerAborted s + timerWaits s, timerWaits := 1\<rparr>"

definition TimerStart :: "'w simple_scheduler \<Rightarrow> 'w simple_scheduler" where
  "TimerStart s = ReserveUpdate (s\<lparr>processing := True\<rparr>)"

definition TimerStop :: "'w simple_scheduler \<Rightarrow> 'w simple_scheduler" where
  "TimerStop s = s\<lparr>processing := False, timerAborted := timerAborted s + timerWaits s, timerWaits := 0\<rparr>"

text \<open>The index is not checked against the size of the array.\<close>

definition AddJobInterval :: "u64 \<Rightarrow> u64 \<Rightarrow> 'w job_callback option \<Rightarrow> 'w simple_scheduler
    \<Rightarrow> ((bool \<times> nat) \<times> 'w simple_scheduler) result" where
  "AddJobInterval T waitCount cb s =
     (case cb of
        None \<Rightarrow> Inr ((False, 0), s)
      | Some f \<Rightarrow>
          if waitCount = 0 then Inr ((False, 0), s)
          else
            let entryIndex = currentEntries s in
            if entryIndex < length (schedulerEntry s) then
              Inr ((True, entryIndex),
                s\<lparr>currentEntries := currentEntries s + 1,
                  schedulerEntry := (schedulerEntry s)
                    [entryIndex := Some (newSchedulerInfo entryIndex (waitCount * T) f)]\<rparr>)
            else Inl (Undefined ''entry past m_schedulerEntry''))"

text \<open>One entry of the loop in \<open>UpdateHandler\<close>.\<close>

definition tickEntry :: "u64 \<Rightarrow> 'w scheduler_info \<Rightarrow> 'w \<Rightarrow> 'w scheduler_info \<times> 'w" where
  "tickEntry T e w =
     (let e1 = e\<lparr>intervalRemain := intervalRemain e - T\<rparr> in
      if sint (intervalRemain e1) \<le> 0
      then (e1\<lparr>intervalRemain := interval e1\<rparr>, jobCallback e1 0 w)
      else (e1, w))"

text \<open>The loop over the first \<open>n\<close> entries; an entry that was never set is a null dereference.\<close>

fun tickEntries :: "u64 \<Rightarrow> nat \<Rightarrow> 'w scheduler_info option list \<Rightarrow> 'w
    \<Rightarrow> ('w scheduler_info option list \<times> 'w) result" where
  "tickEntries T 0 es w = Inr (es, w)"
| "tickEntries T (Suc n) [] w = Inl (Undefined ''entry past m_schedulerEntry'')"
| "tickEntries T (Suc n) (None # es) w = Inl (Undefined ''null entry'')"
| "tickEntries T (Suc n) (Some e # es) w =
     (let (e', w') = tickEntry T e w
      in bindR (tickEntries T n es w') (\<lambda>(es', w''). Inr (Some e' # es', w'')))"

definition UpdateHandler :: "u64 \<Rightarrow> error_code \<Rightarrow> 'w \<Rightarrow> 'w simple_scheduler
    \<Rightarrow> ('w \<times> 'w simple_scheduler) result" where
  "UpdateHandler T ec w s =
     (if ec = Ec_ok \<and> processing s then
        bindR (tickEntries T (currentEntries s) (schedulerEntry s) w) (\<lambda>(es, w').
          Inr (w', ReserveUpdate (s\<lparr>schedulerEntry := es\<rparr>)))
      else Inr (w, s))"

section \<open>\<open>SimpleSchedulerES\<close>\<close>

text \<open>
  The variant that runs on a strand of its own or on an external one. \<open>ownStrand\<close>: it has made its
  own; \<open>externalStrand\<close>: it was given one (\<open>None\<close> before \<open>Init\<close>), and whether that still exists.
\<close>

record 'w simple_scheduler_es = "'w simple_scheduler" +
  usingExternalStrand :: bool
  ownStrand :: bool
  externalStrand :: "bool option"

definition newSimpleSchedulerES :: "nat \<Rightarrow> bool \<Rightarrow> 'w simple_scheduler_es" where
  "newSimpleSchedulerES maxSchedules ext =
     simple_scheduler.extend (newSimpleScheduler maxSchedules)
       \<lparr>usingExternalStrand = ext, ownStrand = False, externalStrand = None\<rparr>"

definition InitES :: "'w simple_scheduler_es \<Rightarrow> 'w simple_scheduler_es result" where
  "InitES s = (if usingExternalStrand s then Inl (Runtime_error ''external starnd'') else Inr s)"

definition InitExternalES :: "'w simple_scheduler_es \<Rightarrow> 'w simple_scheduler_es result" where
  "InitExternalES s =
     (if \<not> usingExternalStrand s then Inl (Runtime_error ''external starnd'')
      else Inr (s\<lparr>externalStrand := Some True\<rparr>))"

definition GetStrandES :: "'w simple_scheduler_es \<Rightarrow> bool" where
  "GetStrandES s = (if usingExternalStrand s then externalStrand s = Some True else ownStrand s)"

text \<open>Setting the expiry of the timer cancels the wait for it.\<close>

definition ReserveUpdateES :: "'w simple_scheduler_es \<Rightarrow> 'w simple_scheduler_es" where
  "ReserveUpdateES s = s\<lparr>timerAborted := timerAborted s + timerWaits s, timerWaits := 1\<rparr>"

definition TimerStartES :: "'w simple_scheduler_es \<Rightarrow> 'w simple_scheduler_es result" where
  "TimerStartES s =
     (if \<not> GetStrandES s then Inl (Runtime_error ''noen of starnd'')
      else Inr (ReserveUpdateES (s\<lparr>processing := True\<rparr>)))"

definition AddJobIntervalES :: "u64 \<Rightarrow> u64 \<Rightarrow> 'w job_callback option \<Rightarrow> 'w simple_scheduler_es
    \<Rightarrow> ((bool \<times> nat) \<times> 'w simple_scheduler_es) result" where
  "AddJobIntervalES T waitCount cb s =
     (case cb of
        None \<Rightarrow> Inr ((False, 0), s)
      | Some f \<Rightarrow>
          if waitCount = 0 then Inr ((False, 0), s)
          else
            let s1 = (if \<not> usingExternalStrand s then s\<lparr>ownStrand := True\<rparr> else s) in
            if \<not> GetStrandES s1 then Inl (Runtime_error ''noen of starnd'')
            else
              let entryIndex = currentEntries s1 in
              if entryIndex < length (schedulerEntry s1) then
                Inr ((True, entryIndex),
                  s1\<lparr>currentEntries := currentEntries s1 + 1,
                     schedulerEntry := (schedulerEntry s1)
                       [entryIndex := Some (newSchedulerInfo entryIndex (waitCount * T) f)]\<rparr>)
              else Inl (Undefined ''entry past m_schedulerEntry''))"

definition TimerStopES :: "'w simple_scheduler_es \<Rightarrow> 'w simple_scheduler_es" where
  "TimerStopES s = s\<lparr>processing := False, timerAborted := timerAborted s + timerWaits s, timerWaits := 0\<rparr>"

definition UpdateHandlerES :: "u64 \<Rightarrow> error_code \<Rightarrow> 'w \<Rightarrow> 'w simple_scheduler_es
    \<Rightarrow> ('w \<times> 'w simple_scheduler_es) result" where
  "UpdateHandlerES T ec w s =
     (if usingExternalStrand s \<and> externalStrand s \<noteq> Some True then Inr (w, s)
      else if ec = Ec_ok \<and> processing s then
        bindR (tickEntries T (currentEntries s) (schedulerEntry s) w) (\<lambda>(es, w').
          let s1 = s\<lparr>schedulerEntry := es\<rparr> in
          Inr (w', if GetStrandES s1 then ReserveUpdateES s1 else s1))
      else Inr (w, s))"

section \<open>\<open>Scheduler\<close>\<close>

record 'w timed_info =
  ti_schedulerID :: nat
  updateTimeMs :: u64
  updatePrevTime :: int
  infoWaits :: nat
  ti_callback :: "'w job_callback"

record 'w scheduler =
  timedEntry :: "'w timed_info option list"
  timedEntries :: nat

definition newScheduler :: "nat \<Rightarrow> 'w scheduler" where
  "newScheduler maxSchedules = \<lparr>timedEntry = replicate maxSchedules None, timedEntries = 0\<rparr>"

definition AddTimedJob :: "int \<Rightarrow> u64 \<Rightarrow> 'w job_callback option \<Rightarrow> 'w scheduler
    \<Rightarrow> ((bool \<times> nat) \<times> 'w scheduler) result" where
  "AddTimedJob now ms cb s =
     (case cb of
        None \<Rightarrow> Inr ((False, 0), s)
      | Some f \<Rightarrow>
          if ms = 0 then Inr ((False, 0), s)
          else if length (timedEntry s) \<le> timedEntries s
          then Inl (Runtime_error ''m_schedulerEntry => buffer overflow'')
          else
            let entryIndex = timedEntries s;
                ent = \<lparr>ti_schedulerID = entryIndex, updateTimeMs = ms, updatePrevTime = now,
                       infoWaits = 1, ti_callback = f\<rparr>
            in Inr ((True, entryIndex),
                 s\<lparr>timedEntries := timedEntries s + 1, timedEntry := (timedEntry s)[entryIndex := Some ent]\<rparr>))"

text \<open>\<open>elapsed\<close> is converted to an \<open>unsigned long\<close>. The wait of the timer that fired is gone.\<close>

definition TimedUpdateHandler :: "nat \<Rightarrow> error_code \<Rightarrow> int \<Rightarrow> 'w \<Rightarrow> 'w scheduler
    \<Rightarrow> ('w \<times> 'w scheduler) result" where
  "TimedUpdateHandler i ec now w s =
     (if ec = Ec_ok then
        (if i < length (timedEntry s) then
           (case timedEntry s ! i of
              None \<Rightarrow> Inl (Undefined ''null entry'')
            | Some ent \<Rightarrow>
                let elapsed = of_int (now - updatePrevTime ent);
                    ent1 = ent\<lparr>updatePrevTime := now\<rparr>;
                    w' = ti_callback ent1 elapsed w
                in Inr (w', s\<lparr>timedEntry := (timedEntry s)[i := Some (ent1\<lparr>infoWaits := 1\<rparr>)]\<rparr>))
         else Inl (Undefined ''entry past m_schedulerEntry''))
      else Inr (w, s))"

section \<open>Jobs run at their interval\<close>

text \<open>
  Jobs that count their calls, a scheduler with such jobs, and the ticks of its timer: a wait that
  completes runs the handler.
\<close>

definition countCall :: "nat \<Rightarrow> (nat \<Rightarrow> nat) job_callback" where
  "countCall i elapsed w = w(i := w i + 1)"

fun addJobs :: "u64 \<Rightarrow> nat list \<Rightarrow> (nat \<Rightarrow> nat) simple_scheduler \<Rightarrow> (nat \<Rightarrow> nat) simple_scheduler result" where
  "addJobs T [] s = Inr s"
| "addJobs T (k # ks) s =
     bindR (AddJobInterval T (of_nat k) (Some (countCall (currentEntries s))) s) (\<lambda>(r, s'). addJobs T ks s')"

fun runTicks :: "u64 \<Rightarrow> nat \<Rightarrow> 'w \<Rightarrow> 'w simple_scheduler \<Rightarrow> ('w \<times> 'w simple_scheduler) result" where
  "runTicks T 0 w s = Inr (w, s)"
| "runTicks T (Suc n) w s =
     (case timerWaits s of
        0 \<Rightarrow> Inr (w, s)
      | Suc m \<Rightarrow> bindR (UpdateHandler T Ec_ok w (s\<lparr>timerWaits := m\<rparr>)) (\<lambda>(w', s'). runTicks T n w' s'))"

text \<open>A job of \<open>k\<close> increments, with index \<open>i\<close>, after \<open>n\<close> ticks.\<close>

definition job_at :: "u64 \<Rightarrow> nat \<Rightarrow> nat \<Rightarrow> nat \<Rightarrow> (nat \<Rightarrow> nat) scheduler_info \<Rightarrow> bool" where
  "job_at T n k i e \<longleftrightarrow> unat (interval e) = k * unat T
     \<and> unat (intervalRemain e) = (k - n mod k) * unat T \<and> jobCallback e = countCall i"

definition jobs_ok :: "u64 \<Rightarrow> nat list \<Rightarrow> bool" where
  "jobs_ok T ks \<longleftrightarrow> 0 < unat T \<and> (\<forall>k \<in> set ks. 0 < k \<and> k * unat T < 2 ^ 63)"

lemma sint_unat:
  assumes "unat (x :: u64) < 2 ^ 63"
  shows "sint x = int (unat x)"
proof -
  have "int (unat x) < 2 ^ 63" using assms by (metis of_nat_less_iff of_nat_numeral of_nat_power)
  then have "uint x < 2 ^ 63" by simp
  moreover have "0 \<le> uint x" by simp
  then have "- (2 ^ 63) \<le> uint x" by (rule order.trans [rotated]) simp
  ultimately have "signed_take_bit 63 (uint x) = uint x" by (rule signed_take_bit_int_eq_self [rotated])
  then show ?thesis by (simp add: sint_uint)
qed

lemma unat_minus_T:
  assumes "unat x = Suc r * unat T"
  shows "unat (x - T) = r * unat T"
  using assms by (simp add: unat_sub word_le_nat_alt)

lemma tickEntry_job:
  assumes "job_at T n k i e" and "0 < k" and "0 < unat T" and "k * unat T < 2 ^ 63"
  shows "\<exists>e'. tickEntry T e w = (e', if Suc n mod k = 0 then countCall i 0 w else w) \<and> job_at T (Suc n) k i e'"
proof -
  obtain r where r: "k - n mod k = Suc r" using assms(2) by (metis Suc_pred mod_less_divisor zero_less_diff)
  have x: "unat (intervalRemain e - T) = r * unat T"
    using assms(1) r by (intro unat_minus_T) (simp add: job_at_def)
  have "r < k" using r by simp
  then have "r * unat T < k * unat T" using assms(3) by simp
  then have "r * unat T < 2 ^ 63" using assms(4) by (rule less_trans)
  then have s: "sint (intervalRemain e - T) = int (r * unat T)"
    using sint_unat [of "intervalRemain e - T"] unfolding x by blast
  then have z: "sint (intervalRemain e - T) \<le> 0 \<longleftrightarrow> r = 0"
    unfolding s of_nat_le_0_iff mult_eq_0_iff using assms(3) by auto
  have m: "r = 0 \<longleftrightarrow> Suc n mod k = 0" "r \<noteq> 0 \<Longrightarrow> k - Suc n mod k = r"
    using r assms(2) by (auto simp: mod_Suc)
  show ?thesis
    using assms(1) z m x by (auto simp: tickEntry_def job_at_def Let_def)
qed

text \<open>A tick of the loop, from job \<open>j\<close> on.\<close>

definition jobs_at :: "u64 \<Rightarrow> nat \<Rightarrow> nat \<Rightarrow> nat list \<Rightarrow> (nat \<Rightarrow> nat) scheduler_info option list
    \<Rightarrow> (nat \<Rightarrow> nat) \<Rightarrow> bool" where
  "jobs_at T n j ks es w \<longleftrightarrow> length ks \<le> length es
     \<and> (\<forall>i < length ks. (\<exists>e. es ! i = Some e \<and> job_at T n (ks ! i) (j + i) e) \<and> w (j + i) = n div ks ! i)"

lemma jobs_at_Cons:
  "jobs_at T n j (k # ks) (Some e # es) w \<longleftrightarrow>
     job_at T n k j e \<and> w j = n div k \<and> jobs_at T n (Suc j) ks es w"
  by (auto simp: jobs_at_def less_Suc_eq_0_disj all_conj_distrib)

lemma tickEntries_jobs:
  assumes "jobs_ok T ks" and "jobs_at T n j ks es w"
  shows "\<exists>es' w'. tickEntries T (length ks) es w = Inr (es', w') \<and> jobs_at T (Suc n) j ks es' w'
    \<and> length es' = length es \<and> (\<forall>i < j. w' i = w i)"
  using assms
proof (induction ks arbitrary: j es w)
  case Nil
  then show ?case by (auto simp: jobs_at_def)
next
  case (Cons k ks)
  then obtain e es1 where es: "es = Some e # es1"
    by (cases es) (auto simp: jobs_at_def)
  have k: "job_at T n k j e" "w j = n div k" "jobs_at T n (Suc j) ks es1 w" "0 < k" "0 < unat T"
    "k * unat T < 2 ^ 63" "jobs_ok T ks"
    using Cons.prems by (auto simp: es jobs_at_Cons jobs_ok_def)
  let ?w = "if Suc n mod k = 0 then countCall j 0 w else w"
  obtain e' where e': "tickEntry T e w = (e', ?w)" "job_at T (Suc n) k j e'"
    using tickEntry_job [OF k(1,4-6)] by blast
  have "jobs_at T n (Suc j) ks es1 ?w" using k(3) by (simp add: jobs_at_def countCall_def)
  then obtain es' w' where r: "tickEntries T (length ks) es1 ?w = Inr (es', w')"
      "jobs_at T (Suc n) (Suc j) ks es' w'" "length es' = length es1" "\<forall>i < Suc j. w' i = ?w i"
    using Cons.IH [OF k(7)] by blast
  have "w' j = Suc n div k" using r(4) k(2) by (simp add: countCall_def div_Suc)
  then show ?case using r e' es by (auto simp: jobs_at_Cons countCall_def)
qed

lemma runTicks_jobs:
  assumes "jobs_ok T ks" and "jobs_at T m 0 ks (schedulerEntry s) w" and "currentEntries s = length ks"
    and "processing s" and "timerWaits s = 1"
  shows "\<exists>w' s'. runTicks T n w s = Inr (w', s') \<and> jobs_at T (m + n) 0 ks (schedulerEntry s') w'
    \<and> timerWaits s' = 1"
  using assms(2-)
proof (induction n arbitrary: m w s)
  case 0
  then show ?case by simp
next
  case (Suc n)
  obtain es w1 where t: "tickEntries T (length ks) (schedulerEntry s) w = Inr (es, w1)"
      "jobs_at T (Suc m) 0 ks es w1"
    using tickEntries_jobs [OF assms(1) Suc.prems(1)] by blast
  let ?s1 = "ReserveUpdate (s\<lparr>timerWaits := 0, schedulerEntry := es\<rparr>)"
  have "UpdateHandler T Ec_ok w (s\<lparr>timerWaits := 0\<rparr>) = Inr (w1, ?s1)"
    using t(1) Suc.prems(2,3) by (simp add: UpdateHandler_def)
  moreover have "\<exists>w' s'. runTicks T n w1 ?s1 = Inr (w', s')
      \<and> jobs_at T (Suc m + n) 0 ks (schedulerEntry s') w' \<and> timerWaits s' = 1"
    using t(2) Suc.prems(2,3) by (intro Suc.IH) (simp_all add: ReserveUpdate_def)
  ultimately show ?case using Suc.prems(4) by simp
qed

lemma newJob_at:
  assumes "0 < k" and "k * unat T < 2 ^ 63" and "0 < unat T"
  shows "job_at T 0 k i (newSchedulerInfo i (of_nat k * T) (countCall i))" and "of_nat k \<noteq> (0 :: u64)"
proof -
  have "k \<le> k * unat T" using assms(3) by simp
  then have k: "k < 2 ^ 63" using assms(2) by (rule le_less_trans)
  then have "unat (of_nat k :: u64) = k" by (simp add: unat_of_nat)
  then have u: "unat (of_nat k * T) = k * unat T" and nz: "of_nat k \<noteq> (0 :: u64)"
    using assms by (auto simp: unat_word_ariths)
  show "job_at T 0 k i (newSchedulerInfo i (of_nat k * T) (countCall i))"
    using u by (simp add: job_at_def newSchedulerInfo_def)
  show "of_nat k \<noteq> (0 :: u64)" by (rule nz)
qed

lemma addJobs_at:
  assumes "jobs_ok T ks" and "currentEntries s + length ks \<le> length (schedulerEntry s)"
  shows "\<exists>s'. addJobs T ks s = Inr s' \<and> currentEntries s' = currentEntries s + length ks
    \<and> length (schedulerEntry s') = length (schedulerEntry s)
    \<and> (\<forall>i < currentEntries s. schedulerEntry s' ! i = schedulerEntry s ! i)
    \<and> (\<forall>i < length ks. \<exists>e. schedulerEntry s' ! (currentEntries s + i) = Some e
          \<and> job_at T 0 (ks ! i) (currentEntries s + i) e)"
  using assms
proof (induction ks arbitrary: s)
  case Nil
  then show ?case by simp
next
  case (Cons k ks)
  let ?j = "currentEntries s"
  let ?e = "newSchedulerInfo ?j (of_nat k * T) (countCall ?j)"
  let ?s = "s\<lparr>currentEntries := ?j + 1, schedulerEntry := (schedulerEntry s)[?j := Some ?e]\<rparr>"
  have k: "job_at T 0 k ?j ?e" "of_nat k \<noteq> (0 :: u64)" "jobs_ok T ks"
    using newJob_at [of k T] Cons.prems(1) by (auto simp: jobs_ok_def)
  have "addJobs T (k # ks) s = addJobs T ks ?s"
    using k(2) Cons.prems(2) by (simp add: AddJobInterval_def Let_def)
  moreover have "currentEntries ?s + length ks \<le> length (schedulerEntry ?s)" using Cons.prems(2) by simp
  from Cons.IH [OF k(3) this] obtain s' where s': "addJobs T ks ?s = Inr s'"
    "currentEntries s' = Suc ?j + length ks" "length (schedulerEntry s') = length (schedulerEntry s)"
    "\<forall>i < Suc ?j. schedulerEntry s' ! i = (schedulerEntry s)[?j := Some ?e] ! i"
    "\<forall>i < length ks. \<exists>e. schedulerEntry s' ! (Suc ?j + i) = Some e \<and> job_at T 0 (ks ! i) (Suc ?j + i) e"
    by auto
  moreover have "schedulerEntry s' ! ?j = Some ?e" using s'(4) Cons.prems(2) by simp
  then have "\<exists>e. schedulerEntry s' ! (?j + i) = Some e \<and> job_at T 0 ((k # ks) ! i) (?j + i) e"
    if "i < Suc (length ks)" for i
    using s'(5) k(1) that by (cases i) auto
  ultimately show ?case by auto
qed

text \<open>
  C33. A simple scheduler calls every job at its interval: with jobs of \<open>k\<close> increments each (as long as
  the interval fits \<open>int64_t\<close> and the jobs fit the array), \<open>n\<close> ticks after the start each job has been
  called exactly \<open>n div k\<close> times, and the timer waits for the next tick.
\<close>

theorem jobs_run_at_their_interval:
  assumes "jobs_ok T ks" and "length ks \<le> maxSchedules"
  shows "\<exists>s w s'. addJobs T ks (newSimpleScheduler maxSchedules) = Inr s
    \<and> runTicks T n (\<lambda>i. 0) (TimerStart s) = Inr (w, s')
    \<and> (\<forall>i < length ks. w i = n div ks ! i) \<and> timerWaits s' = 1"
proof -
  obtain s where s: "addJobs T ks (newSimpleScheduler maxSchedules) = Inr s" "currentEntries s = length ks"
    "length (schedulerEntry s) = maxSchedules"
    "\<forall>i < length ks. \<exists>e. schedulerEntry s ! i = Some e \<and> job_at T 0 (ks ! i) i e"
    using addJobs_at [OF assms(1), of "newSimpleScheduler maxSchedules"] assms(2)
    by (auto simp: newSimpleScheduler_def)
  have "jobs_at T 0 0 ks (schedulerEntry (TimerStart s)) (\<lambda>i. 0)"
    using s(3,4) assms(2) by (simp add: jobs_at_def TimerStart_def ReserveUpdate_def)
  then obtain w s' where "runTicks T n (\<lambda>i. 0) (TimerStart s) = Inr (w, s')"
      "jobs_at T n 0 ks (schedulerEntry s') w" "timerWaits s' = 1"
    using runTicks_jobs [OF assms(1), of 0 "TimerStart s" "\<lambda>i. 0" n] s(2)
    by (auto simp: TimerStart_def ReserveUpdate_def)
  then show ?thesis using s(1) by (auto simp: jobs_at_def)
qed

theorem jobs_run_at_their_interval_witness:
  "\<exists>s w s'. addJobs 10 [2, 3] (newSimpleScheduler 2) = Inr s
    \<and> runTicks 10 7 (\<lambda>i. 0) (TimerStart s) = Inr (w, s') \<and> w 0 = 3 \<and> w 1 = 2 \<and> timerWaits s' = 1"
  using jobs_run_at_their_interval [of 10 "[2, 3]" 2 7]
  by (auto simp: jobs_ok_def less_Suc_eq simp del: addJobs.simps runTicks.simps)

text \<open>
  The array of jobs is not guarded in the simple scheduler: when it is full, adding one more job
  writes behind it, where \<open>Scheduler\<close> throws; both refuse an empty callback or interval.
\<close>

lemma job_table_bounds:
  assumes "currentEntries s = length (schedulerEntry s)" and "timedEntries t = length (timedEntry t)"
    and "k \<noteq> 0"
  shows "AddJobInterval T k (Some f) s = Inl (Undefined ''entry past m_schedulerEntry'')
    \<and> AddTimedJob now k (Some f) t = Inl (Runtime_error ''m_schedulerEntry => buffer overflow'')
    \<and> AddJobInterval T 0 cb s = Inr ((False, 0), s) \<and> AddTimedJob now 0 cb t = Inr ((False, 0), t)
    \<and> AddJobInterval T k None s = Inr ((False, 0), s) \<and> AddTimedJob now k None t = Inr ((False, 0), t)"
  using assms by (auto simp: AddJobInterval_def AddTimedJob_def split: option.split)

end
