(* ===== verification/Http_Server.thy ===== *)
theory Http_Server
  imports Session "HOL-Library.Char_ord" "HOL-Library.List_Lexorder"
begin

text \<open>
  \<open>HttpServer\<close> of \<open>src/include/net/http/httpServer.hpp\<close>, with a thread per connection or with
  asynchronous sessions.

  Requests and responses are the records of what the servers read and set of Beast's messages;
  \<open>prepare_payload\<close> is recorded as a flag. What Beast decides is a parameter: \<open>need_eof\<close>, the status for
  an integer, and the text of a sliced exception (\<open>catch (std::exception e)\<close> copies the base class).
  A handler is described by the calls of \<open>send\<close> it makes and the exception it ends with, if any; a
  \<open>std::function\<close> in a table may be empty. Log output is left out.
\<close>

section \<open>Messages\<close>

datatype verb = Verb_get | Verb_post | Verb_other

record http_request =
  rq_method :: verb
  rq_target :: string
  rq_version :: nat
  rq_keepAlive :: bool
  rq_fields :: "(string \<times> string) list"
  rq_body :: string

record http_response =
  rs_status :: nat
  rs_version :: nat
  rs_fields :: "(string \<times> string) list"
  rs_keepAlive :: bool
  rs_body :: string
  rs_prepared :: bool

definition status_ok :: nat where "status_ok = 200"
definition status_bad_request :: nat where "status_bad_request = 400"
definition status_not_found :: nat where "status_not_found = 404"
definition status_internal_server_error :: nat where "status_internal_server_error = 500"

definition tolower_char :: "char \<Rightarrow> char" where
  "tolower_char c = (let n = of_char c :: nat in if 65 \<le> n \<and> n \<le> 90 then char_of (n + 32) else c)"

definition lower :: "string \<Rightarrow> string" where
  "lower s = map tolower_char s"

text \<open>\<open>fields::set\<close> replaces a field, whose name is compared without regard to case.\<close>

definition setField :: "string \<Rightarrow> string \<Rightarrow> (string \<times> string) list \<Rightarrow> (string \<times> string) list" where
  "setField name v fs = filter (\<lambda>f. lower (fst f) \<noteq> lower name) fs @ [(name, v)]"

text \<open>A \<open>std::map\<close> from strings to strings, sorted by key; \<open>emplace\<close> keeps an entry that is there.\<close>

type_synonym header_map = "(string \<times> string) list"

definition emplace :: "string \<Rightarrow> 'v \<Rightarrow> (string \<times> 'v) list \<Rightarrow> bool \<times> (string \<times> 'v) list" where
  "emplace k v m = (if map_of m k \<noteq> None then (False, m) else (True, insort_key fst (k, v) m))"

definition newResponse :: "nat \<Rightarrow> nat \<Rightarrow> http_response" where
  "newResponse st v = \<lparr>rs_status = st, rs_version = v, rs_fields = [], rs_keepAlive = False,
     rs_body = [], rs_prepared = False\<rparr>"

section \<open>\<open>SendFunc\<close>\<close>

record send_func =
  sf_version :: nat
  sf_keepAlive :: bool

definition newSendFunc :: send_func where
  "newSendFunc = \<lparr>sf_version = 11, sf_keepAlive = False\<rparr>"

datatype send_call =
    SendInt nat
  | SendStatus nat
  | SendBody string
  | SendHeaders header_map string
  | SendMessage http_response

definition sendError :: "string \<Rightarrow> nat \<Rightarrow> send_func \<Rightarrow> http_response" where
  "sendError server errorCode sf =
     (newResponse errorCode (sf_version sf))
       \<lparr>rs_fields := setField ''Content-Type'' ''text/html'' (setField ''Server'' server []),
        rs_keepAlive := sf_keepAlive sf, rs_prepared := True\<rparr>"

text \<open>The five overloads of \<open>operator()\<close>: the response that is handed to \<open>send\<close>.\<close>

fun sendFunc :: "string \<Rightarrow> (nat \<Rightarrow> nat) \<Rightarrow> send_func \<Rightarrow> send_call \<Rightarrow> http_response" where
  "sendFunc server int_to_status sf (SendInt n) = sendError server (int_to_status n) sf"
| "sendFunc server int_to_status sf (SendStatus st) = sendError server st sf"
| "sendFunc server int_to_status sf (SendBody body) =
     (newResponse status_ok (sf_version sf))
       \<lparr>rs_fields := setField ''Content-Type'' ''application/json'' (setField ''Server'' server []),
        rs_keepAlive := sf_keepAlive sf, rs_body := body, rs_prepared := True\<rparr>"
| "sendFunc server int_to_status sf (SendHeaders headerMap body) =
     (newResponse status_ok (sf_version sf))
       \<lparr>rs_fields := fold (\<lambda>(name, v). setField name v) headerMap [],
        rs_keepAlive := sf_keepAlive sf, rs_body := body, rs_prepared := True\<rparr>"
| "sendFunc server int_to_status sf (SendMessage msg) = msg"

section \<open>Requests\<close>

type_synonym http_handler = "header_map \<Rightarrow> string \<Rightarrow> send_func \<Rightarrow> send_call list \<times> fault option"

text \<open>\<open>path_cat\<close>, for both platforms.\<close>

definition path_cat :: "bool \<Rightarrow> string \<Rightarrow> string \<Rightarrow> string" where
  "path_cat msvc base path =
     (if base = [] then path
      else
        let sep = (if msvc then CHR 0x5C else CHR ''/'');
            result = (if last base = sep then butlast base else base) @ path
        in if msvc then map (\<lambda>c. if c = CHR ''/'' then sep else c) result else result)"

fun containsDots :: "string \<Rightarrow> bool" where
  "containsDots (a # b # s) = (a = CHR ''.'' \<and> b = CHR ''.'' \<or> containsDots (b # s))"
| "containsDots _ = False"

definition illegalTarget :: "string \<Rightarrow> bool" where
  "illegalTarget target \<longleftrightarrow> target = [] \<or> hd target \<noteq> CHR ''/'' \<or> containsDots target"

text \<open>The three error responses; they differ in status, content type and body.\<close>

definition errorResponse :: "string \<Rightarrow> nat \<Rightarrow> string \<Rightarrow> string \<Rightarrow> http_request \<Rightarrow> http_response" where
  "errorResponse server st contentType body req =
     (newResponse st (rq_version req))
       \<lparr>rs_fields := setField ''Content-Type'' contentType (setField ''Server'' server []),
        rs_keepAlive := rq_keepAlive req, rs_body := body, rs_prepared := True\<rparr>"

definition bad_request :: "string \<Rightarrow> string \<Rightarrow> http_request \<Rightarrow> http_response" where
  "bad_request server why = errorResponse server status_bad_request ''text/html'' why"

definition not_found :: "string \<Rightarrow> string \<Rightarrow> http_request \<Rightarrow> http_response" where
  "not_found server target = errorResponse server status_not_found ''text/html''
     (''The resource '' @ [CHR 0x27] @ target @ [CHR 0x27] @ '' was not found.'')"

definition server_error :: "string \<Rightarrow> string \<Rightarrow> http_request \<Rightarrow> http_response" where
  "server_error server what = errorResponse server status_internal_server_error ''text/html''
     (''An error occurred: '' @ [CHR 0x27] @ what @ [CHR 0x27])"

text \<open>The headers a handler gets: names and values in lower case, the first of a name.\<close>

definition headerMapOf :: "http_request \<Rightarrow> header_map" where
  "headerMapOf req = fold (\<lambda>(name, v) m. snd (emplace (lower name) (lower v) m)) (rq_fields req) []"

definition requestBody :: "http_request \<Rightarrow> string" where
  "requestBody req = (if rq_body req = [] then ''{}'' else rq_body req)"

text \<open>
  What Beast and the platform contribute: the version string of the server, the status of an
  integer, what \<open>need_eof\<close> says of a response, and the text of a sliced exception.
\<close>

record beast =
  be_server :: string
  be_int_to_status :: "nat \<Rightarrow> nat"
  be_need_eof :: "http_response \<Rightarrow> bool"
  be_what :: string
  be_msvc :: bool

text \<open>
  \<open>handle_request\<close>: the responses that are handed to \<open>send\<close>, in order, the \<open>SendFunc\<close> afterwards, and
  the fault that leaves it, if any. Exceptions of the handler are caught.
\<close>

definition handle_request :: "beast \<Rightarrow> string \<Rightarrow> (string \<rightharpoonup> http_handler option) \<Rightarrow> http_request
    \<Rightarrow> send_func \<Rightarrow> http_response list \<times> send_func \<times> fault option" where
  "handle_request be doc_root handlers req sf =
     (let path = path_cat (be_msvc be) doc_root (rq_target req) in
      if illegalTarget (rq_target req) then
        ([bad_request (be_server be) ''Illegal request-target'' req], sf, None)
      else
        case handlers path of
          None \<Rightarrow> ([not_found (be_server be) (rq_target req) req], sf, None)
        | Some h \<Rightarrow>
            let sf1 = \<lparr>sf_version = rq_version req, sf_keepAlive = rq_keepAlive req\<rparr>;
                (calls, f) = (case h of
                    None \<Rightarrow> ([], Some Bad_function_call)
                  | Some g \<Rightarrow> g (headerMapOf req) (requestBody req) sf1);
                out = map (sendFunc (be_server be) (be_int_to_status be) sf1) calls
            in case f of
                 None \<Rightarrow> (out, sf1, None)
               | Some e \<Rightarrow>
                   if is_exception e then (out @ [server_error (be_server be) (be_what be) req], sf1, None)
                   else (out, sf1, Some e))"

definition registerURL :: "string \<Rightarrow> http_handler option \<Rightarrow> (string \<rightharpoonup> http_handler option)
    \<Rightarrow> bool \<times> (string \<rightharpoonup> http_handler option)" where
  "registerURL url h handlers =
     (if url \<noteq> [] \<and> handlers url = None then (True, handlers(url \<mapsto> h)) else (False, handlers))"

text \<open>
  The function that \<open>GetRegisterFunc\<close> returns has captured the URL by reference. The model of the function
  is the address of the string; it is called with the strings that are alive then.
\<close>

definition GetRegisterFunc :: "nat \<Rightarrow> (nat \<rightharpoonup> string) \<Rightarrow> http_handler option \<Rightarrow> (string \<rightharpoonup> http_handler option)
    \<Rightarrow> (string \<rightharpoonup> http_handler option) result" where
  "GetRegisterFunc urlRef strings h handlers =
     (case strings urlRef of
        None \<Rightarrow> Inl (Undefined ''dangling reference'')
      | Some url \<Rightarrow> Inr (snd (registerURL url h handlers)))"

text \<open>
  Called in the statement that made it, while the string is alive, it registers the URL; kept and called
  after the string is gone, or has changed, it does not.
\<close>

lemma GetRegisterFunc_now: "GetRegisterFunc r (strings(r \<mapsto> url)) h handlers = Inr (snd (registerURL url h handlers))"
  by (simp add: GetRegisterFunc_def)

lemma GetRegisterFunc_later: "GetRegisterFunc r (strings(r := None)) h handlers = Inl (Undefined ''dangling reference'')"
  by (simp add: GetRegisterFunc_def)

section \<open>Asynchronous sessions\<close>

datatype http_ec = Hec_ok | Hec_end_of_stream | Hec_other nat

text \<open>Operations in flight on the stream; a write knows whether the session is to be closed after it.\<close>

datatype http_op = ReadOp | WriteOp bool

record http_session =
  hs_send :: send_func
  hs_res :: "http_response option"
  hs_deadline :: "nat option"
  hs_ops :: "http_op list"
  hs_out :: "http_response list"
  hs_shutdown :: bool

definition newHttpSession :: http_session where
  "newHttpSession = \<lparr>hs_send = newSendFunc, hs_res = None, hs_deadline = None, hs_ops = [], hs_out = [],
     hs_shutdown = False\<rparr>"

definition do_read :: "http_session \<Rightarrow> http_session" where
  "do_read s = s\<lparr>hs_deadline := Some 30, hs_ops := hs_ops s @ [ReadOp]\<rparr>"

text \<open>\<open>run\<close> dispatches \<open>do_read\<close> on the strand of the new connection.\<close>

definition http_run :: "http_session \<Rightarrow> http_session" where
  "http_run s = do_read s"

definition do_close :: "http_session \<Rightarrow> http_session" where
  "do_close s = s\<lparr>hs_shutdown := True\<rparr>"

definition sendAsync :: "beast \<Rightarrow> http_response \<Rightarrow> http_session \<Rightarrow> http_session" where
  "sendAsync be msg s = s\<lparr>hs_res := Some msg, hs_ops := hs_ops s @ [WriteOp (be_need_eof be msg)],
     hs_out := hs_out s @ [msg]\<rparr>"

definition on_read :: "beast \<Rightarrow> string \<Rightarrow> (string \<rightharpoonup> http_handler option) \<Rightarrow> http_ec \<Rightarrow> http_request
    \<Rightarrow> http_session \<Rightarrow> http_session result" where
  "on_read be doc_root handlers ec req s =
     (if ec = Hec_end_of_stream then Inr (do_close s)
      else if ec \<noteq> Hec_ok then Inr s
      else
        let (out, sf, f) = handle_request be doc_root handlers req (hs_send s);
            s1 = fold (sendAsync be) out (s\<lparr>hs_send := sf\<rparr>)
        in case f of None \<Rightarrow> Inr s1 | Some e \<Rightarrow> Inl e)"

definition on_write :: "bool \<Rightarrow> http_ec \<Rightarrow> http_session \<Rightarrow> http_session" where
  "on_write close ec s =
     (if ec \<noteq> Hec_ok then s
      else if close then do_close s
      else do_read (s\<lparr>hs_res := None\<rparr>))"

inductive http_step :: "beast \<Rightarrow> string \<Rightarrow> (string \<rightharpoonup> http_handler option) \<Rightarrow> http_session
    \<Rightarrow> http_session \<Rightarrow> bool" for be doc_root handlers where
  read_done: "hs_ops s = xs @ ReadOp # ys \<Longrightarrow>
     on_read be doc_root handlers ec req (s\<lparr>hs_ops := xs @ ys\<rparr>) = Inr s' \<Longrightarrow>
     http_step be doc_root handlers s s'"
| write_done: "hs_ops s = xs @ WriteOp close # ys \<Longrightarrow>
     http_step be doc_root handlers s (on_write close ec (s\<lparr>hs_ops := xs @ ys\<rparr>))"

inductive http_reach :: "beast \<Rightarrow> string \<Rightarrow> (string \<rightharpoonup> http_handler option) \<Rightarrow> http_session \<Rightarrow> bool"
  for be doc_root handlers where
  start: "http_reach be doc_root handlers (http_run newHttpSession)"
| step: "http_reach be doc_root handlers s \<Longrightarrow> http_step be doc_root handlers s s' \<Longrightarrow>
     http_reach be doc_root handlers s'"

section \<open>Sessions that block\<close>

text \<open>
  The loop of the two \<open>do_session\<close> functions: read, handle, and stop at the end of the stream, at an
  error or when the response asks for it. The reads are given; \<open>wr\<close> is the outcome of each write. A
  response sets \<open>close\<close> and \<open>ec\<close>, which keep their values if none is sent.
\<close>

datatype serve_end = Blocked | Shut_down | Failed string | Raised fault

definition sendSync :: "beast \<Rightarrow> (nat \<Rightarrow> http_ec) \<Rightarrow> http_response
    \<Rightarrow> bool \<times> http_ec \<times> http_response list \<Rightarrow> bool \<times> http_ec \<times> http_response list" where
  "sendSync be wr msg = (\<lambda>(close, ec, out). (be_need_eof be msg, wr (length out), out @ [msg]))"

fun serveLoop :: "beast \<Rightarrow> (nat \<Rightarrow> http_ec) \<Rightarrow> (http_request \<Rightarrow> 's \<Rightarrow> http_response list \<times> 's \<times> fault option)
    \<Rightarrow> (http_ec \<times> http_request) list \<Rightarrow> 's \<Rightarrow> bool \<Rightarrow> http_response list \<Rightarrow> serve_end \<times> http_response list" where
  "serveLoop be wr handle [] sf close out = (Blocked, out)"
| "serveLoop be wr handle ((ec, req) # reads) sf close out =
     (if ec = Hec_end_of_stream then (Shut_down, out)
      else if ec \<noteq> Hec_ok then (Failed ''read'', out)
      else
        let (msgs, sf1, f) = handle req sf;
            (close1, ec1, out1) = fold (sendSync be wr) msgs (close, ec, out)
        in case f of
             Some e \<Rightarrow> (Raised e, out1)
           | None \<Rightarrow>
               if ec1 \<noteq> Hec_ok then (Failed ''write'', out1)
               else if close1 then (Shut_down, out1)
               else serveLoop be wr handle reads sf1 close1 out1)"

definition do_session :: "beast \<Rightarrow> (nat \<Rightarrow> http_ec) \<Rightarrow> string \<Rightarrow> (string \<rightharpoonup> http_handler option)
    \<Rightarrow> (http_ec \<times> http_request) list \<Rightarrow> serve_end \<times> http_response list" where
  "do_session be wr doc_root handlers reads =
     serveLoop be wr (handle_request be doc_root handlers) reads newSendFunc False []"

section \<open>Listening\<close>

record http_listener =
  li_listening :: bool
  li_accepts :: nat
  li_sessions :: "http_session list"

text \<open>The constructor stops at the first call that fails; \<open>run\<close> starts to accept in any case.\<close>

definition newListener :: "bool \<Rightarrow> bool \<Rightarrow> bool \<Rightarrow> bool \<Rightarrow> http_listener" where
  "newListener opens sets binds listens =
     \<lparr>li_listening = (opens \<and> sets \<and> binds \<and> listens), li_accepts = 0, li_sessions = []\<rparr>"

definition do_accept :: "http_listener \<Rightarrow> http_listener" where
  "do_accept l = l\<lparr>li_accepts := li_accepts l + 1\<rparr>"

definition listener_run :: "http_listener \<Rightarrow> http_listener" where
  "listener_run l = do_accept l"

definition on_accept :: "http_ec \<Rightarrow> http_listener \<Rightarrow> http_listener" where
  "on_accept ec l =
     do_accept (if ec \<noteq> Hec_ok then l else l\<lparr>li_sessions := li_sessions l @ [http_run newHttpSession]\<rparr>)"

text \<open>
  \<open>AcceptSync\<close>: a thread for each accepted connection until a call throws. \<open>binds\<close>: the acceptor could be
  made; the list tells how the accepts end.
\<close>

definition AcceptSync :: "bool \<Rightarrow> bool list \<Rightarrow> nat" where
  "AcceptSync binds accepts = (if binds then length (takeWhile (\<lambda>a. a) accepts) else 0)"

text \<open>
  \<open>AcceptAsync\<close> until the context has run out of work: \<open>reserve\<close> of a negative number throws, and the
  threads are not joined, so destroying the vector of them ends the program.
\<close>

definition AcceptAsync :: "int \<Rightarrow> http_listener \<Rightarrow> (nat \<times> http_listener) result" where
  "AcceptAsync threads l =
     (if threads < 1 then Inl (Other_exception ''length_error'')
      else if threads > 1 then Inl (Undefined ''std::terminate'')
      else Inr (1, listener_run l))"

definition startServer :: "u16 \<Rightarrow> nat \<Rightarrow> bool \<times> nat" where
  "startServer port startedThreads = (if port = 0 then (False, startedThreads) else (True, startedThreads + 1))"

section \<open>Handlers that answer once\<close>

text \<open>
  A handler that makes one call of \<open>send\<close> and returns, or throws before it made any; an empty function
  throws too.
\<close>

definition answersOnce :: "http_handler option \<Rightarrow> bool" where
  "answersOnce h \<longleftrightarrow> (\<forall>g. h = Some g \<longrightarrow> (\<forall>hm body sf.
     snd (g hm body sf) = None \<and> length (fst (g hm body sf)) = 1
     \<or> fst (g hm body sf) = [] \<and> (\<exists>e. snd (g hm body sf) = Some e \<and> is_exception e)))"

definition allAnswerOnce :: "(string \<rightharpoonup> http_handler option) \<Rightarrow> bool" where
  "allAnswerOnce handlers \<longleftrightarrow> (\<forall>url h. handlers url = Some h \<longrightarrow> answersOnce h)"

lemma answersOnce_call:
  assumes "answersOnce (Some g)"
  obtains c where "g hm body sf = ([c], None)" | e where "g hm body sf = ([], Some e)" "is_exception e"
  using assms [unfolded answersOnce_def, rule_format, OF refl, of hm body sf]
proof (elim disjE conjE exE)
  assume "snd (g hm body sf) = None" and "length (fst (g hm body sf)) = 1"
  then obtain c where "g hm body sf = ([c], None)"
    by (cases "g hm body sf") (auto simp: length_Suc_conv)
  then show thesis by (rule that(1))
next
  fix e
  assume "fst (g hm body sf) = []" and "snd (g hm body sf) = Some e" and e: "is_exception e"
  then have "g hm body sf = ([], Some e)" by (simp add: prod_eq_iff)
  then show thesis using e by (rule that(2))
qed

text \<open>The invariant of a session: one operation at a time, and none once it is shut down.\<close>

definition http_inv :: "http_session \<Rightarrow> bool" where
  "http_inv s \<longleftrightarrow> length (hs_ops s) \<le> 1 \<and> (hs_shutdown s \<longrightarrow> hs_ops s = [])"

text \<open>
  What a session relies on: the contract of the handlers that are registered. Under it, a request has
  one answer, and the life of a session follows.
\<close>

locale answering_handlers =
  fixes handlers :: "string \<rightharpoonup> http_handler option"
  assumes all_once: "allAnswerOnce handlers"
begin

lemma handle_request_once:
  "\<exists>r sf'. handle_request be doc_root handlers req sf = ([r], sf', None)"
proof (cases "illegalTarget (rq_target req)")
  case True
  then show ?thesis by (simp add: handle_request_def)
next
  case False
  let ?path = "path_cat (be_msvc be) doc_root (rq_target req)"
  let ?sf = "\<lparr>sf_version = rq_version req, sf_keepAlive = rq_keepAlive req\<rparr>"
  show ?thesis
  proof (cases "handlers ?path")
    case None
    then show ?thesis using False by (simp add: handle_request_def)
  next
    case (Some h)
    show ?thesis
    proof (cases h)
      case None
      then show ?thesis using False Some by (simp add: handle_request_def is_exception_def)
    next
      case (Some g)
      then have "answersOnce (Some g)"
        using all_once \<open>handlers ?path = Some h\<close> by (auto simp: allAnswerOnce_def)
      then show ?thesis
        by (rule answersOnce_call [of g "headerMapOf req" "requestBody req" ?sf])
           (use False Some \<open>handlers ?path = Some h\<close> in \<open>simp_all add: handle_request_def Let_def\<close>)
    qed
  qed
qed

lemma http_step_inv:
  assumes "http_step be doc_root handlers s s'" and "http_inv s"
  shows "http_inv s'"
  using assms(1)
proof cases
  case (read_done xs ys ec req)
  then have one: "xs = []" "ys = []" "\<not> hs_shutdown s" using assms(2) by (auto simp: http_inv_def)
  obtain r sf where "handle_request be doc_root handlers req (hs_send (s\<lparr>hs_ops := []\<rparr>)) = ([r], sf, None)"
    using handle_request_once by blast
  then show ?thesis
    using read_done(2) one
    by (auto simp: on_read_def do_close_def sendAsync_def http_inv_def split: if_splits)
next
  case (write_done xs close ys ec)
  then have "xs = []" "ys = []" "\<not> hs_shutdown s" using assms(2) by (auto simp: http_inv_def)
  then show ?thesis using write_done(1) by (auto simp: on_write_def do_close_def do_read_def http_inv_def)
qed

lemma http_reach_inv:
  assumes "http_reach be doc_root handlers s"
  shows "http_inv s"
  using assms
proof induction
  case start
  then show ?case by (simp add: http_run_def do_read_def newHttpSession_def http_inv_def)
next
  case (step s s')
  then show ?case using http_step_inv by blast
qed

end

section \<open>Blocking and asynchronous sessions agree\<close>

text \<open>An asynchronous session on the same reads and writes: each operation completes before the next.\<close>

fun asyncRun :: "beast \<Rightarrow> (nat \<Rightarrow> http_ec) \<Rightarrow> string \<Rightarrow> (string \<rightharpoonup> http_handler option)
    \<Rightarrow> (http_ec \<times> http_request) list \<Rightarrow> http_session \<Rightarrow> http_session result" where
  "asyncRun be wr doc_root handlers [] s = Inr s"
| "asyncRun be wr doc_root handlers ((ec, req) # reads) s =
     (if hs_ops s = [ReadOp] then
        bindR (on_read be doc_root handlers ec req (s\<lparr>hs_ops := []\<rparr>)) (\<lambda>s1.
          case hs_ops s1 of
            [WriteOp close] \<Rightarrow>
              asyncRun be wr doc_root handlers reads
                (on_write close (wr (length (hs_out s1) - 1)) (s1\<lparr>hs_ops := []\<rparr>))
          | _ \<Rightarrow> Inr s1)
      else Inr s)"

lemma asyncRun_idle: "hs_ops s = [] \<Longrightarrow> asyncRun be wr doc_root handlers reads s = Inr s"
  by (cases reads) auto

context answering_handlers
begin

lemma async_agrees:
  assumes "hs_ops s = [ReadOp]" and "\<not> hs_shutdown s"
    and "serveLoop be wr (handle_request be doc_root handlers) reads (hs_send s) c (hs_out s) = (e, out)"
  shows "\<exists>s'. asyncRun be wr doc_root handlers reads s = Inr s' \<and> hs_out s' = out
    \<and> (hs_shutdown s' \<longleftrightarrow> e = Shut_down) \<and> (hs_ops s' = [ReadOp] \<longleftrightarrow> e = Blocked)"
  using assms
proof (induction reads arbitrary: s c)
  case Nil
  then show ?case by auto
next
  case (Cons x reads)
  obtain ec req where x: "x = (ec, req)" by fastforce
  obtain r sf where h: "handle_request be doc_root handlers req (hs_send s) = ([r], sf, None)"
    using handle_request_once by blast
  let ?s1 = "sendAsync be r (s\<lparr>hs_ops := [], hs_send := sf\<rparr>)"
  let ?w = "wr (length (hs_out s))"
  let ?s2 = "on_write (be_need_eof be r) ?w (?s1\<lparr>hs_ops := []\<rparr>)"
  consider (eos) "ec = Hec_end_of_stream" | (bad) "ec \<noteq> Hec_end_of_stream" "ec \<noteq> Hec_ok" | (ok) "ec = Hec_ok"
    by blast
  then show ?case
  proof cases
    case eos
    then show ?thesis using Cons.prems x by (auto simp: on_read_def do_close_def)
  next
    case bad
    then show ?thesis using Cons.prems x by (auto simp: on_read_def)
  next
    case ok
    have run: "asyncRun be wr doc_root handlers (x # reads) s = asyncRun be wr doc_root handlers reads ?s2"
      using Cons.prems(1) x ok h by (simp add: on_read_def sendAsync_def)
    show ?thesis
    proof (cases "?w = Hec_ok \<and> \<not> be_need_eof be r")
      case True
      have "serveLoop be wr (handle_request be doc_root handlers) reads (hs_send ?s2) False (hs_out ?s2) = (e, out)"
        using Cons.prems(3) x ok h True by (simp add: sendSync_def on_write_def do_read_def sendAsync_def)
      then show ?thesis
        unfolding run using True Cons.prems(2)
        by (intro Cons.IH) (simp_all add: on_write_def do_read_def sendAsync_def)
    next
      case False
      then have "hs_ops ?s2 = []" by (auto simp: on_write_def do_close_def sendAsync_def)
      then have "asyncRun be wr doc_root handlers (x # reads) s = Inr ?s2" using run asyncRun_idle by simp
      then show ?thesis
        using False Cons.prems(2,3) x ok h
        by (auto simp: sendSync_def on_write_def do_close_def sendAsync_def split: if_splits)
    qed
  qed
qed

end

text \<open>The handler of \<open>/test\<close> in \<open>src/mlnserver/main.cpp\<close>, and the table that holds it.\<close>

definition testHandler :: http_handler where
  "testHandler headers body sf = ([SendBody ''{\"user\": \"testUser\"}''], None)"

definition testHandlers :: "string \<rightharpoonup> http_handler option" where
  "testHandlers = snd (registerURL ''/test'' (Some testHandler) Map.empty)"

lemma testHandlers_once: "allAnswerOnce testHandlers"
  by (auto simp: allAnswerOnce_def answersOnce_def testHandlers_def registerURL_def testHandler_def
      split: if_splits)

interpretation test_server: answering_handlers testHandlers
  by unfold_locales (rule testHandlers_once)

definition plainBeast :: beast where
  "plainBeast = \<lparr>be_server = ''Beast'', be_int_to_status = (\<lambda>n. n), be_need_eof = (\<lambda>r. \<not> rs_keepAlive r),
     be_what = ''std::exception'', be_msvc = False\<rparr>"

definition getRequest :: "string \<Rightarrow> bool \<Rightarrow> http_request" where
  "getRequest target keep = \<lparr>rq_method = Verb_get, rq_target = target, rq_version = 11, rq_keepAlive = keep,
     rq_fields = [(''Host'', ''A'')], rq_body = []\<rparr>"

lemma throws_after_sending:
  assumes "\<not> illegalTarget (rq_target req)"
    and "handlers (path_cat (be_msvc be) doc_root (rq_target req)) = Some (Some (\<lambda>hm body sf. ([c], Some Bad_function_call)))"
    and "hs_ops s = []"
  shows "\<exists>s' c1 c2. on_read be doc_root handlers Hec_ok req s = Inr s' \<and> hs_ops s' = [WriteOp c1, WriteOp c2]"
  using assms by (simp add: on_read_def handle_request_def Let_def is_exception_def sendAsync_def)

text \<open>What a response to a request has to be, for each way a handler can send it.\<close>

definition answersRequest :: "http_request \<Rightarrow> nat \<Rightarrow> http_response \<Rightarrow> bool" where
  "answersRequest req st r \<longleftrightarrow> rs_status r = st \<and> rs_version r = rq_version req \<and> rs_keepAlive r = rq_keepAlive req"

fun answersCall :: "beast \<Rightarrow> http_request \<Rightarrow> send_call \<Rightarrow> http_response \<Rightarrow> bool" where
  "answersCall be req (SendInt n) r \<longleftrightarrow> answersRequest req (be_int_to_status be n) r \<and> rs_body r = []"
| "answersCall be req (SendStatus st) r \<longleftrightarrow> answersRequest req st r \<and> rs_body r = []"
| "answersCall be req (SendBody body) r \<longleftrightarrow> answersRequest req 200 r \<and> rs_body r = body
     \<and> rs_fields r = [(''Server'', be_server be), (''Content-Type'', ''application/json'')]"
| "answersCall be req (SendHeaders headerMap body) r \<longleftrightarrow> answersRequest req 200 r \<and> rs_body r = body
     \<and> (distinct (map (lower \<circ> fst) headerMap) \<longrightarrow> rs_fields r = headerMap)"
| "answersCall be req (SendMessage msg) r \<longleftrightarrow> r = msg"

lemma setField_new: "lower name \<notin> set (map (lower \<circ> fst) fs) \<Longrightarrow> setField name v fs = fs @ [(name, v)]"
  by (force simp: setField_def filter_id_conv)

lemma fold_setField:
  "distinct (map (lower \<circ> fst) (fs @ hm)) \<Longrightarrow> fold (\<lambda>(name, v). setField name v) hm fs = fs @ hm"
proof (induction hm arbitrary: fs)
  case (Cons h hm)
  obtain name v where h: "h = (name, v)" by fastforce
  have "setField name v fs = fs @ [(name, v)]" using Cons.prems h by (intro setField_new) auto
  then show ?case using Cons.IH [of "fs @ [h]"] Cons.prems h by simp
qed simp

lemma lower_names [simp]: "lower ''Server'' \<noteq> lower ''Content-Type''"
  by (simp add: lower_def)

lemma sendFunc_answers:
  "answersCall be req c (sendFunc (be_server be) (be_int_to_status be) \<lparr>sf_version = rq_version req, sf_keepAlive = rq_keepAlive req\<rparr> c)"
  using fold_setField [of "[]"] by (cases c)
    (simp_all add: answersRequest_def sendError_def newResponse_def status_ok_def setField_def)

lemma containsDots_iff: "containsDots s \<longleftrightarrow> (\<exists>u v. s = u @ ''..'' @ v)"
proof (induction s rule: containsDots.induct)
  case (1 a b s)
  have "(\<exists>u v. a # b # s = u @ ''..'' @ v) \<longleftrightarrow> a = CHR ''.'' \<and> b = CHR ''.'' \<or> (\<exists>u v. b # s = u @ ''..'' @ v)"
    by (auto simp: Cons_eq_append_conv)
  then show ?case using 1 by simp
qed (auto simp: Cons_eq_append_conv)

lemma errors_answer:
  "answersRequest req 400 (bad_request server why req)" "answersRequest req 404 (not_found server target req)"
  "answersRequest req 500 (server_error server what req)"
  by (simp_all add: answersRequest_def bad_request_def not_found_def server_error_def errorResponse_def newResponse_def
      status_bad_request_def status_not_found_def status_internal_server_error_def)

text \<open>
  C34. Every request is answered exactly once, and with what the handler asked for. If every registered
  handler sends one response or throws before it sent any (an empty function counts as one that throws),
  \<open>handle_request\<close> hands one response to \<open>send\<close> and lets no exception out. A target that is empty, does not
  begin with a slash or has two dots in a row somewhere is answered with status 400 whatever the handlers
  are; a target that nobody registered with 404; one whose handler throws with 500. Otherwise the response
  is the one the handler sent: a number or a status gives a response with this status and no body, a text
  one with status 200, this text and the JSON content type, a text with header fields one with status 200,
  this text and these fields, and a whole message goes out as it is. Version and keep-alive are those of
  the request, except in a whole message.
\<close>

theorem request_answered_once:
  assumes "allAnswerOnce handlers"
  shows "\<exists>r sf'. handle_request be doc_root handlers req sf = ([r], sf', None)
    \<and> (if rq_target req = [] \<or> hd (rq_target req) \<noteq> CHR ''/'' \<or> (\<exists>u v. rq_target req = u @ ''..'' @ v)
       then answersRequest req 400 r
       else case handlers (path_cat (be_msvc be) doc_root (rq_target req)) of
           None \<Rightarrow> answersRequest req 404 r
         | Some None \<Rightarrow> answersRequest req 500 r
         | Some (Some g) \<Rightarrow>
             (case g (headerMapOf req) (requestBody req)
                 \<lparr>sf_version = rq_version req, sf_keepAlive = rq_keepAlive req\<rparr> of
                ([c], None) \<Rightarrow> answersCall be req c r
              | ([], Some e) \<Rightarrow> answersRequest req 500 r
              | _ \<Rightarrow> False))"
proof -
  let ?sf = "\<lparr>sf_version = rq_version req, sf_keepAlive = rq_keepAlive req\<rparr>"
  let ?h = "handlers (path_cat (be_msvc be) doc_root (rq_target req))"
  obtain r sf' where once: "handle_request be doc_root handlers req sf = ([r], sf', None)"
    using answering_handlers.handle_request_once [OF answering_handlers.intro [OF assms]] by blast
  have illegal: "illegalTarget (rq_target req) \<longleftrightarrow>
      rq_target req = [] \<or> hd (rq_target req) \<noteq> CHR ''/'' \<or> (\<exists>u v. rq_target req = u @ ''..'' @ v)"
    by (simp add: illegalTarget_def containsDots_iff)
  consider (bad) "illegalTarget (rq_target req)" | (none) "\<not> illegalTarget (rq_target req)" "?h = None"
    | (empty) "\<not> illegalTarget (rq_target req)" "?h = Some None"
    | (fn) g where "\<not> illegalTarget (rq_target req)" "?h = Some (Some g)" by (cases ?h) auto
  then show ?thesis
  proof cases
    case bad
    then show ?thesis using once errors_answer(1) unfolding illegal [symmetric] by (auto simp: handle_request_def Let_def)
  next
    case none
    then show ?thesis using once errors_answer(2) unfolding illegal [symmetric] by (auto simp: handle_request_def Let_def)
  next
    case empty
    then show ?thesis using once errors_answer(3) unfolding illegal [symmetric]
      by (auto simp: handle_request_def Let_def is_exception_def)
  next
    case (fn g)
    have "answersOnce (Some g)" using assms fn(2) unfolding allAnswerOnce_def by blast
    then consider c where "g (headerMapOf req) (requestBody req) ?sf = ([c], None)"
      | e where "g (headerMapOf req) (requestBody req) ?sf = ([], Some e)" "is_exception e"
      by (rule answersOnce_call)
    then show ?thesis
    proof cases
      case 1
      then show ?thesis using once fn sendFunc_answers [of be req] unfolding illegal [symmetric]
        by (auto simp: handle_request_def Let_def)
    next
      case 2
      then show ?thesis using once fn errors_answer(3) unfolding illegal [symmetric] by (auto simp: handle_request_def Let_def)
    qed
  qed
qed

theorem request_answered_once_witness:
  "(\<exists>r sf'. handle_request plainBeast [] testHandlers (getRequest ''/test'' True) newSendFunc = ([r], sf', None)
      \<and> rs_status r = 200 \<and> rs_body r = ''{\"user\": \"testUser\"}'' \<and> rs_version r = 11)
   \<and> (\<exists>r sf'. handle_request plainBeast [] testHandlers (getRequest ''/a/../test'' True) newSendFunc = ([r], sf', None)
      \<and> rs_status r = 400)"
proof
  have "\<not> (\<exists>u v. ''/test'' = u @ ''..'' @ v)" unfolding containsDots_iff [symmetric] by simp
  then show "\<exists>r sf'. handle_request plainBeast [] testHandlers (getRequest ''/test'' True) newSendFunc = ([r], sf', None)
      \<and> rs_status r = 200 \<and> rs_body r = ''{\"user\": \"testUser\"}'' \<and> rs_version r = 11"
    using request_answered_once [OF testHandlers_once, of plainBeast "[]" "getRequest ''/test'' True" newSendFunc]
    by (simp add: getRequest_def path_cat_def testHandlers_def registerURL_def testHandler_def answersRequest_def) blast
  have "\<exists>u v. ''/a/../test'' = u @ ''..'' @ v" unfolding containsDots_iff [symmetric] by simp
  then show "\<exists>r sf'. handle_request plainBeast [] testHandlers (getRequest ''/a/../test'' True) newSendFunc = ([r], sf', None)
      \<and> rs_status r = 400"
    using request_answered_once [OF testHandlers_once, of plainBeast "[]" "getRequest ''/a/../test'' True" newSendFunc]
    by (simp add: getRequest_def answersRequest_def) blast
qed

text \<open>
  C35. An asynchronous session has one operation in flight at a time: after any completions of its
  reads and writes, with any error codes and requests, if every handler answers once, there is at most
  one read or write on the stream, and none after the session sent its shutdown. So the request and
  the response that operations refer to are never replaced under them.
\<close>

theorem one_http_operation:
  assumes "allAnswerOnce handlers" and "http_reach be doc_root handlers s"
  shows "length (hs_ops s) \<le> 1 \<and> (hs_shutdown s \<longrightarrow> hs_ops s = [])"
  using answering_handlers.http_reach_inv [OF answering_handlers.intro [OF assms(1)] assms(2)] by (simp add: http_inv_def)

theorem one_http_operation_witness:
  "\<exists>s. http_reach plainBeast [] testHandlers s \<and> hs_shutdown s \<and> hs_ops s = []"
proof -
  let ?s = "do_close ((http_run newHttpSession)\<lparr>hs_ops := []\<rparr>)"
  have "http_step plainBeast [] testHandlers (http_run newHttpSession) ?s"
    by (rule http_step.read_done [of _ "[]" "[]" _ _ _ Hec_end_of_stream])
       (simp_all add: http_run_def do_read_def newHttpSession_def on_read_def)
  then have reach: "http_reach plainBeast [] testHandlers ?s" by (rule http_reach.step [OF http_reach.start])
  moreover have "hs_shutdown ?s" by (simp add: do_close_def)
  ultimately show ?thesis using one_http_operation [OF testHandlers_once reach] by blast
qed

text \<open>
  C36. A blocking and an asynchronous session serve a connection alike: on the same reads and the same
  outcomes of the writes, if every handler answers once, they send the same responses in the same
  order, both send the shutdown or neither does, and one waits for a request exactly if the other does.
\<close>

theorem sessions_agree:
  assumes "allAnswerOnce handlers"
    and "do_session be wr doc_root handlers reads = (e, out)"
  shows "\<exists>s'. asyncRun be wr doc_root handlers reads (http_run newHttpSession) = Inr s' \<and> hs_out s' = out
    \<and> (hs_shutdown s' \<longleftrightarrow> e = Shut_down) \<and> (hs_ops s' = [ReadOp] \<longleftrightarrow> e = Blocked)"
  using assms(2) unfolding do_session_def
  by (intro answering_handlers.async_agrees [OF answering_handlers.intro [OF assms(1)], where c = False])
     (simp_all add: http_run_def do_read_def newHttpSession_def)

theorem sessions_agree_witness:
  "\<exists>s'. asyncRun plainBeast (\<lambda>n. Hec_ok) [] testHandlers
       [(Hec_ok, getRequest ''/test'' True), (Hec_ok, getRequest ''/none'' False), (Hec_ok, getRequest ''/test'' True)]
       (http_run newHttpSession) = Inr s'
    \<and> map rs_status (hs_out s') = [200, 404] \<and> hs_shutdown s'"
proof -
  let ?reads = "[(Hec_ok, getRequest ''/test'' True), (Hec_ok, getRequest ''/none'' False), (Hec_ok, getRequest ''/test'' True)]"
  let ?run = "do_session plainBeast (\<lambda>n. Hec_ok) [] testHandlers ?reads"
  have run: "fst ?run = Shut_down" "map rs_status (snd ?run) = [200, 404]"
    by (simp_all add: do_session_def handle_request_def getRequest_def illegalTarget_def path_cat_def
        testHandlers_def registerURL_def testHandler_def not_found_def errorResponse_def newResponse_def
        sendSync_def plainBeast_def status_ok_def status_not_found_def)
  obtain s' where "asyncRun plainBeast (\<lambda>n. Hec_ok) [] testHandlers ?reads (http_run newHttpSession) = Inr s'"
      and "hs_out s' = snd ?run" and "hs_shutdown s' \<longleftrightarrow> fst ?run = Shut_down"
    using sessions_agree [OF testHandlers_once prod.collapse [symmetric]] by blast
  then show ?thesis using run by auto
qed

end
