(* ===== verification/Http_Coro.thy ===== *)
theory Http_Coro
  imports Http_Server
begin

text \<open>
  \<open>HttpServerCoro\<close> of \<open>src/include/net/http/httpServerCoro.hpp\<close>: an HTTP server with a coroutine per
  connection. Messages and the loop of a connection are those of \<open>Http_Server\<close>; a handler
  builds its responses itself and is described by the responses it sends and the exception it ends
  with, if any. Nothing catches that exception here. Log output is left out.
\<close>

section \<open>Sending\<close>

text \<open>The two ways to call \<open>send_lambda\<close>: the write suspends the coroutine or blocks the thread.\<close>

datatype coro_send = SendYield http_response | SendBlocking http_response

fun sentMessage :: "coro_send \<Rightarrow> http_response" where
  "sentMessage (SendYield msg) = msg"
| "sentMessage (SendBlocking msg) = msg"

fun send_lambda :: "beast \<Rightarrow> (nat \<Rightarrow> http_ec) \<Rightarrow> coro_send
    \<Rightarrow> bool \<times> http_ec \<times> http_response list \<Rightarrow> bool \<times> http_ec \<times> http_response list" where
  "send_lambda be wr (SendYield msg) (close, ec, out) =
     (be_need_eof be msg, wr (length out), out @ [msg])"
| "send_lambda be wr (SendBlocking msg) (close, ec, out) =
     (be_need_eof be msg, wr (length out), out @ [msg])"

section \<open>Requests\<close>

text \<open>\<open>path.substr(path.rfind("."))\<close>, or nothing.\<close>

definition extension :: "string \<Rightarrow> string" where
  "extension path =
     (if CHR ''.'' \<in> set path then CHR ''.'' # rev (takeWhile (\<lambda>c. c \<noteq> CHR ''.'') (rev path)) else [])"

definition iequals :: "string \<Rightarrow> string \<Rightarrow> bool" where
  "iequals a b \<longleftrightarrow> lower a = lower b"

definition mime_table :: "(string \<times> string) list" where
  "mime_table =
     [(''.htm'', ''text/html''), (''.html'', ''text/html''), (''.php'', ''text/html''),
      (''.css'', ''text/css''), (''.txt'', ''text/plain''), (''.js'', ''application/javascript''),
      (''.json'', ''application/json''), (''.xml'', ''application/xml''),
      (''.swf'', ''application/x-shockwave-flash''), (''.flv'', ''video/x-flv''),
      (''.png'', ''image/png''), (''.jpe'', ''image/jpeg''), (''.jpeg'', ''image/jpeg''),
      (''.jpg'', ''image/jpeg''), (''.gif'', ''image/gif''), (''.bmp'', ''image/bmp''),
      (''.ico'', ''image/vnd.microsoft.icon''), (''.tiff'', ''image/tiff''), (''.tif'', ''image/tiff''),
      (''.svg'', ''image/svg+xml''), (''.svgz'', ''image/svg+xml'')]"

definition mime_type :: "string \<Rightarrow> string" where
  "mime_type path =
     (case find (\<lambda>e. iequals (extension path) (fst e)) mime_table of
        Some e \<Rightarrow> snd e
      | None \<Rightarrow> ''application/text'')"

text \<open>\<open>fail\<close> writes to the log, except for a read on a connection that is not permitted (\<open>EPERM\<close>).\<close>

definition coroFail :: "nat \<Rightarrow> string \<Rightarrow> bool" where
  "coroFail ec what \<longleftrightarrow> \<not> (ec = 1 \<and> what = ''read'')"

text \<open>The file has its own copy of \<open>path_cat\<close>, which cuts and replaces in place.\<close>

definition coro_path_cat :: "bool \<Rightarrow> string \<Rightarrow> string \<Rightarrow> string" where
  "coro_path_cat msvc base path =
     (if base = [] then path
      else if msvc then
        let result = (if last base = CHR 0x5C then take (length base - 1) base else base) @ path
        in map (\<lambda>c. if c = CHR ''/'' then CHR 0x5C else c) result
      else (if last base = CHR ''/'' then take (length base - 1) base else base) @ path)"

lemma coro_path_cat_eq: "coro_path_cat = path_cat"
  by (intro ext) (simp add: coro_path_cat_def path_cat_def Let_def butlast_conv_take)

type_synonym coro_handler = "header_map \<Rightarrow> string \<Rightarrow> bool \<Rightarrow> nat \<Rightarrow> coro_send list \<times> fault option"

definition bad_request_coro :: "string \<Rightarrow> string \<Rightarrow> http_request \<Rightarrow> http_response" where
  "bad_request_coro server why = errorResponse server status_bad_request ''application/json'' why"

definition handle_request_coro :: "beast \<Rightarrow> string \<Rightarrow> (string \<rightharpoonup> coro_handler option) \<Rightarrow> http_request
    \<Rightarrow> coro_send list \<times> fault option" where
  "handle_request_coro be doc_root handlers req =
     (if rq_method req \<noteq> Verb_get \<and> rq_method req \<noteq> Verb_post then
        ([SendYield (bad_request_coro (be_server be) ''not using HTTP-method'' req)], None)
      else if illegalTarget (rq_target req) then
        ([SendYield (bad_request_coro (be_server be) ''Illegal request-target'' req)], None)
      else
        let path = coro_path_cat (be_msvc be) doc_root (rq_target req) in
        case handlers path of
          None \<Rightarrow> ([SendYield (not_found (be_server be) (rq_target req) req)], None)
        | Some h \<Rightarrow>
            let headerMap = snd (emplace ''__path__'' path (headerMapOf req)) in
            case h of
              None \<Rightarrow> ([], Some Bad_function_call)
            | Some g \<Rightarrow> g headerMap (requestBody req) (rq_keepAlive req) (rq_version req))"

section \<open>Connections\<close>

text \<open>
  \<open>do_session\<close>: the responses it sent, how the loop ended, and whether the socket is closed at the end.
  The loop is that of the blocking server, with \<open>send_lambda\<close>.
\<close>

fun serveCoro :: "beast \<Rightarrow> (nat \<Rightarrow> http_ec) \<Rightarrow> (http_request \<Rightarrow> coro_send list \<times> fault option)
    \<Rightarrow> (http_ec \<times> http_request) list \<Rightarrow> bool \<Rightarrow> http_response list \<Rightarrow> serve_end \<times> http_response list" where
  "serveCoro be wr handle [] close out = (Blocked, out)"
| "serveCoro be wr handle ((ec, req) # reads) close out =
     (if ec = Hec_end_of_stream then (Shut_down, out)
      else if ec \<noteq> Hec_ok then (Failed ''read'', out)
      else
        let (msgs, f) = handle req;
            (close1, ec1, out1) = fold (send_lambda be wr) msgs (close, ec, out)
        in case f of
             Some e \<Rightarrow> (Raised e, out1)
           | None \<Rightarrow>
               if ec1 \<noteq> Hec_ok then (Failed ''write'', out1)
               else if close1 then (Shut_down, out1)
               else serveCoro be wr handle reads close1 out1)"

definition do_session_coro :: "beast \<Rightarrow> (nat \<Rightarrow> http_ec) \<Rightarrow> string \<Rightarrow> (string \<rightharpoonup> coro_handler option)
    \<Rightarrow> (http_ec \<times> http_request) list \<Rightarrow> serve_end \<times> http_response list \<times> bool" where
  "do_session_coro be wr doc_root handlers reads =
     (let (e, out) = serveCoro be wr (handle_request_coro be doc_root handlers) reads False []
      in (e, out, e = Shut_down))"

section \<open>Listening\<close>

text \<open>
  \<open>do_listen\<close>: the first call that fails ends it; then it accepts until the context is stopped, and a
  failed accept is only reported. \<open>stopped n\<close>: the context is stopped before the accept number \<open>n\<close>. The
  result is the failure and the accepts that gave a session.
\<close>

fun acceptLoop :: "(nat \<Rightarrow> bool) \<Rightarrow> nat \<Rightarrow> http_ec list \<Rightarrow> nat list" where
  "acceptLoop stopped n [] = []"
| "acceptLoop stopped n (ec # accepts) =
     (if stopped n then []
      else if ec \<noteq> Hec_ok then acceptLoop stopped (n + 1) accepts
      else n # acceptLoop stopped (n + 1) accepts)"

definition do_listen :: "bool \<Rightarrow> bool \<Rightarrow> bool \<Rightarrow> bool \<Rightarrow> (nat \<Rightarrow> bool) \<Rightarrow> http_ec list \<Rightarrow> string option \<times> nat list" where
  "do_listen opens sets binds listens stopped accepts =
     (if \<not> opens then (Some ''open'', [])
      else if \<not> sets then (Some ''set_option'', [])
      else if \<not> binds then (Some ''bind'', [])
      else if \<not> listens then (Some ''listen'', [])
      else (None, acceptLoop stopped 0 accepts))"

text \<open>
  \<open>acceptAsync\<close>: the number of threads that run the context, all joined when it has no work left;
  \<open>reserve\<close> of a negative number throws.
\<close>

definition acceptAsync :: "int \<Rightarrow> nat result" where
  "acceptAsync threads =
     (if threads < 1 then Inl (Other_exception ''length_error'') else Inr (nat threads))"

definition startAsync :: "u16 \<Rightarrow> nat \<Rightarrow> bool \<times> nat" where
  "startAsync port startedThreads =
     (if port = 0 then (False, startedThreads) else (True, startedThreads + 1))"

definition registHandler :: "string \<Rightarrow> coro_handler option \<Rightarrow> (string \<rightharpoonup> coro_handler option)
    \<Rightarrow> bool \<times> (string \<rightharpoonup> coro_handler option)" where
  "registHandler url h handlers =
     (if url \<noteq> [] \<and> handlers url = None then (True, handlers(url \<mapsto> h)) else (False, handlers))"

section \<open>Facts\<close>

lemma lower_lower [simp]: "lower (lower s) = lower s"
proof -
  have "tolower_char (tolower_char c) = tolower_char c" for c
    by (auto simp: tolower_char_def Let_def)
  then show ?thesis by (simp add: lower_def)
qed

lemma tolower_dot: "tolower_char c = CHR ''.'' \<longleftrightarrow> c = CHR ''.''"
proof (cases "65 \<le> (of_char c :: nat) \<and> (of_char c :: nat) \<le> 90")
  case True
  then have "(of_char (tolower_char c) :: nat) = of_char c + 32"
    by (simp add: tolower_char_def Let_def)
  then have "(of_char (tolower_char c) :: nat) \<noteq> of_char (CHR ''.'')" using True by simp
  then show ?thesis using True by auto
qed (auto simp: tolower_char_def Let_def)

lemmas tolower_dot_self [simp] = tolower_dot [THEN iffD2, OF refl]

lemma extension_lower: "extension (lower p) = lower (extension p)"
proof -
  have "takeWhile (\<lambda>c. c \<noteq> CHR ''.'') (map tolower_char xs)
      = map tolower_char (takeWhile (\<lambda>c. c \<noteq> CHR ''.'') xs)" for xs
    by (induction xs) (auto simp: tolower_dot)
  moreover have "CHR ''.'' \<in> set (map tolower_char p) \<longleftrightarrow> CHR ''.'' \<in> set p"
    by (induction p) (auto simp: tolower_dot eq_commute [of "CHR ''.''"])
  ultimately show ?thesis
    by (simp add: extension_def lower_def rev_map tolower_dot)
qed

lemma extension_append:
  assumes "CHR ''.'' \<notin> set e"
  shows "extension (p @ CHR ''.'' # e) = CHR ''.'' # e"
proof -
  have "takeWhile (\<lambda>c. c \<noteq> CHR ''.'') (rev e @ CHR ''.'' # xs) = rev e" for xs
    using assms by (subst takeWhile_append2) auto
  then show ?thesis by (simp add: extension_def)
qed

lemma emplace_lookup:
  "map_of (snd (emplace k v m)) j =
     (if j = k \<and> map_of m k = None then Some v else map_of m j)"
  by (auto simp: emplace_def map_of_insort_new)

text \<open>The header map holds, for every name in lower case, the value of its first field in lower case.\<close>

lemma headerMap_lookup:
  "map_of (headerMapOf req) = map_of (map (\<lambda>(name, v). (lower name, lower v)) (rq_fields req))"
proof -
  have "map_of (fold (\<lambda>(name, v) m. snd (emplace (lower name) (lower v) m)) fs m) j
      = (case map_of m j of Some v \<Rightarrow> Some v
         | None \<Rightarrow> map_of (map (\<lambda>(name, v). (lower name, lower v)) fs) j)" for fs m j
    by (induction fs arbitrary: m) (auto simp: emplace_lookup split: option.splits)
  then show ?thesis by (simp add: headerMapOf_def fun_eq_iff)
qed

text \<open>On the same requests and responses, a coroutine and a blocking thread serve a connection alike.\<close>

lemma fold_send_lambda: "fold (send_lambda be wr) msgs x = fold (sendSync be wr) (map sentMessage msgs) x"
proof (induction msgs arbitrary: x)
  case (Cons m msgs)
  have "send_lambda be wr m x = sendSync be wr (sentMessage m) x"
    by (cases x; cases m) (simp_all add: sendSync_def)
  then show ?case using Cons by simp
qed simp

lemma coroutine_serves_like_blocking:
  "serveCoro be wr handle reads close out =
     serveLoop be wr (\<lambda>req s. (map sentMessage (fst (handle req)), s, snd (handle req))) reads () close out"
  by (induction be wr handle reads close out rule: serveCoro.induct)
     (auto simp: fold_send_lambda split: prod.splits option.splits)

text \<open>
  The media type of a path depends on its last extension only and not on the case of its letters;
  a path without a dot has the default type.
\<close>

lemma mime_type_by_extension:
  "mime_type (lower p) = mime_type p
   \<and> (CHR ''.'' \<notin> set e \<longrightarrow> mime_type (p @ CHR ''.'' # e) = mime_type (CHR ''.'' # e))
   \<and> (CHR ''.'' \<notin> set p \<longrightarrow> mime_type p = ''application/text'')"
proof (intro conjI impI)
  show "mime_type (lower p) = mime_type p"
    by (simp add: mime_type_def iequals_def extension_lower)
  show "mime_type (p @ CHR ''.'' # e) = mime_type (CHR ''.'' # e)" if "CHR ''.'' \<notin> set e"
    using extension_append [OF that, of p] extension_append [OF that, of "[]"] by (simp add: mime_type_def)
  show "mime_type p = ''application/text''" if "CHR ''.'' \<notin> set p"
    using that by (simp add: mime_type_def mime_table_def iequals_def extension_def lower_def)
qed

text \<open>
  C40. What the coroutine server makes of a request. A method other than GET and POST and an illegal
  target are answered with status 400, an unknown path with 404. Otherwise the handler is called with
  the body, or \<open>{}\<close> for an empty one, and a map that holds for every name the first value the client
  sent, both in lower case, and the path under \<open>__path__\<close> unless the client sent a field of this name;
  what the handler sends and throws is the outcome.
\<close>

theorem coro_request:
  "if rq_method req = Verb_other \<or> illegalTarget (rq_target req) then
      map (rs_status \<circ> sentMessage) (fst (handle_request_coro be doc_root handlers req)) = [status_bad_request]
    else case handlers (path_cat (be_msvc be) doc_root (rq_target req)) of
      None \<Rightarrow> map (rs_status \<circ> sentMessage) (fst (handle_request_coro be doc_root handlers req)) = [status_not_found]
    | Some None \<Rightarrow> handle_request_coro be doc_root handlers req = ([], Some Bad_function_call)
    | Some (Some g) \<Rightarrow> \<exists>hm.
        handle_request_coro be doc_root handlers req = g hm (requestBody req) (rq_keepAlive req) (rq_version req)
        \<and> (\<forall>k. map_of hm k =
            (case map_of (map (\<lambda>(name, v). (lower name, lower v)) (rq_fields req)) k of
               Some v \<Rightarrow> Some v
             | None \<Rightarrow> if k = ''__path__'' then Some (path_cat (be_msvc be) doc_root (rq_target req)) else None))"
proof -
  have m: "rq_method req \<noteq> Verb_get \<and> rq_method req \<noteq> Verb_post \<longleftrightarrow> rq_method req = Verb_other"
    by (cases "rq_method req") auto
  have status: "rs_status (errorResponse server st ct body req) = st" for server st ct body
    by (simp add: errorResponse_def newResponse_def)
  show ?thesis
    unfolding handle_request_coro_def m
    by (auto simp: coro_path_cat_eq Let_def bad_request_coro_def not_found_def status emplace_lookup headerMap_lookup
        split: option.splits)
qed

definition echoPath :: coro_handler where
  "echoPath headers body keepAlive version =
     ([SendYield ((newResponse status_ok version)\<lparr>rs_body := the (map_of headers ''__path__'')\<rparr>)], None)"

theorem coro_request_witness:
  "\<exists>hm. handle_request_coro plainBeast [] (snd (registHandler ''/a'' (Some echoPath) Map.empty))
       ((getRequest ''/a'' True)\<lparr>rq_fields := [(''__PATH__'', ''/Admin'')]\<rparr>) = echoPath hm ''{}'' True 11
     \<and> map_of hm ''__path__'' = Some ''/admin''"
proof -
  let ?handlers = "snd (registHandler ''/a'' (Some echoPath) Map.empty)"
  let ?req = "(getRequest ''/a'' True)\<lparr>rq_fields := [(''__PATH__'', ''/Admin'')]\<rparr>"
  have "lower ''__PATH__'' = ''__path__''" "lower ''/Admin'' = ''/admin''" by code_simp+
  then show ?thesis
    using coro_request [where handlers = ?handlers and be = plainBeast and doc_root = "[]" and req = ?req]
    by (auto simp: registHandler_def path_cat_def getRequest_def illegalTarget_def requestBody_def)
qed

end
