(* ===== verification/User_Session_Pair.thy ===== *)
theory User_Session_Pair
  imports Lockfree_Correct
begin

text \<open>
  The table from users to sessions, \<open>src/include/net/user/userSessionPair.hpp\<close>. It is written
  against the linked list; what it needs of the list is the locale \<open>session_table\<close>, a finite map
  from user keys to session keys, which the list implements.
\<close>

section \<open>The interface\<close>

text \<open>
  \<open>repr s m\<close>: the structure \<open>s\<close> represents the map \<open>m\<close>. \<open>fresh\<close> is what an address from the
  allocator satisfies, \<open>w\<close> the number of spurious failures of the atomic operations.
\<close>

locale session_table =
  fixes repr :: "'s \<Rightarrow> (u64 \<rightharpoonup> u64) \<Rightarrow> bool"
    and fresh :: "u64 \<Rightarrow> 's \<Rightarrow> bool"
    and ins :: "u64 \<Rightarrow> nat \<Rightarrow> UserSessionKey \<Rightarrow> 's \<Rightarrow> (bool \<times> 's) result option"
    and del :: "nat \<Rightarrow> UserSessionKey \<Rightarrow> 's \<Rightarrow> (bool \<times> 's) result option"
    and look :: "UserSessionKey \<Rightarrow> 's \<Rightarrow> (bool \<times> UserSessionKey \<times> 's) result option"
    and count :: "'s \<Rightarrow> u64"
  assumes ins_ok: "repr s m \<Longrightarrow> fresh a s \<Longrightarrow>
      \<exists>s'. ins a w d s = Some (Inr (m (userKey d) = None, s'))
         \<and> repr s' (if m (userKey d) = None then m(userKey d \<mapsto> sessionKey d) else m)"
    and del_ok: "repr s m \<Longrightarrow>
      \<exists>s'. del w d s = Some (Inr (m (userKey d) \<noteq> None, s')) \<and> repr s' (m(userKey d := None))"
    and look_ok: "repr s m \<Longrightarrow>
      \<exists>s'. look d s = Some (Inr (m (userKey d) \<noteq> None,
              case m (userKey d) of None \<Rightarrow> d | Some v \<Rightarrow> UserSessionKey (userKey d) v, s')) \<and> repr s' m"
    and count_ok: "repr s m \<Longrightarrow> count s = of_nat (card (dom m))"

section \<open>The list implements it\<close>

definition tableOf :: "(u64 \<times> UserSessionKey) list \<Rightarrow> u64 \<rightharpoonup> u64" where
  "tableOf xs = map_of (map (\<lambda>e. (userKey (snd e), sessionKey (snd e))) xs)"

definition list_repr :: "lf_list \<Rightarrow> (u64 \<rightharpoonup> u64) \<Rightarrow> bool" where
  "list_repr s m \<longleftrightarrow> (\<exists>xs. list_inv s xs \<and> m = tableOf xs)"

definition freshNode :: "u64 \<Rightarrow> lf_list \<Rightarrow> bool" where
  "freshNode a s \<longleftrightarrow> a \<notin> dom (heap s) \<and> a \<noteq> 0 \<and> even a"

lemma tableOf_simps [simp]:
  "tableOf [] = Map.empty"
  "tableOf (e # xs) = (tableOf xs)(userKey (snd e) \<mapsto> sessionKey (snd e))"
  by (simp_all add: tableOf_def)

lemma tableOf_append: "tableOf (xs @ ys) = tableOf ys ++ tableOf xs"
  by (simp add: tableOf_def)

lemma tableOf_dom: "dom (tableOf xs) = userKey ` snd ` set xs"
  by (simp add: tableOf_def dom_map_of_conv_image_fst image_image)

lemma tableOf_None: "tableOf xs k = None \<longleftrightarrow> (\<forall>x \<in> set xs. userKey (snd x) \<noteq> k)"
  by (induction xs) auto

lemma tableOf_card:
  assumes "sorted_wrt (<) (map snd xs)"
  shows "card (dom (tableOf xs)) = length xs"
  using assms
proof (induction xs)
  case (Cons e xs)
  then have "userKey (snd e) \<notin> dom (tableOf xs)"
    by (auto simp: tableOf_None less_UserSessionKey_def domIff)
  then show ?case using Cons by (simp add: tableOf_dom del: fun_upd_apply)
qed simp

lemma tableOf_found:
  assumes "sorted_wrt (<) (map snd xs)"
  shows "foundAt d xs = map_option (UserSessionKey (userKey d)) (tableOf xs (userKey d))"
  using assms
proof (induction xs)
  case Nil then show ?case by (simp add: foundAt_def)
next
  case (Cons e xs)
  have big: "userKey (snd e) < userKey (snd x)" if "x \<in> set xs" for x
    using Cons.prems that by (simp add: less_UserSessionKey_def)
  show ?case
  proof (cases "userKey (snd e) < userKey d")
    case True
    then have "userKey d \<noteq> userKey (snd e)" by auto
    then show ?thesis using True Cons by (simp add: foundAt_def less_UserSessionKey_def)
  next
    case False
    have "tableOf xs (userKey d) = None" if "userKey d < userKey (snd e)"
      using big that by (force simp: tableOf_None)
    moreover have "userKey (snd e) = userKey d \<Longrightarrow> snd e = UserSessionKey (userKey d) (sessionKey (snd e))"
      by (cases "snd e") simp
    ultimately show ?thesis using False by (auto simp: foundAt_def key_order)
  qed
qed

lemma tableOf_insert:
  assumes "sorted_wrt (<) (map snd xs)" and "foundAt d xs = None"
  shows "tableOf (before d xs @ (a, d) # atOrAfter d xs) = (tableOf xs)(userKey d \<mapsto> sessionKey d)"
  using assms
proof (induction xs)
  case (Cons e xs)
  then show ?case
    by (cases "snd e < d") (auto simp: foundAt_def key_order fun_eq_iff)
qed simp

lemma tableOf_delete:
  assumes "sorted_wrt (<) (map snd xs)" and "atOrAfter d xs = e # bs" and "Equals (snd e) d"
  shows "tableOf (before d xs @ bs) = (tableOf xs)(userKey d := None)"
  using assms
proof (induction xs)
  case (Cons x xs)
  show ?case
  proof (cases "snd x < d")
    case True
    then show ?thesis using Cons by (auto simp: less_UserSessionKey_def fun_eq_iff)
  next
    case False
    then have x: "x = e" "xs = bs" using Cons.prems(2) by auto
    have k: "userKey (snd e) = userKey d" using Cons.prems(3) by (auto simp: key_order)
    have "tableOf bs (userKey d) = None"
      using Cons.prems(1) x k by (auto simp: tableOf_None less_UserSessionKey_def)
    then show ?thesis using False x k by (auto simp: fun_eq_iff)
  qed
qed simp

lemmas tableOf_sorted = tableOf_card tableOf_found tableOf_insert tableOf_delete

interpretation lock_free: session_table list_repr freshNode Insert Delete FindRef lsize
proof (unfold_locales, goal_cases)
  case (1 s m a w d)
  then obtain xs where inv: "list_inv s xs" and m: "m = tableOf xs" by (auto simp: list_repr_def)
  have srt: "sorted_wrt (<) (map snd xs)" using inv by (simp add: list_inv_def)
  obtain s' where run: "Emplace a w d s = Some (Inr (foundAt d xs = None, s'))"
    and inv': "list_inv s' (if foundAt d xs = None then before d xs @ (a, d) # atOrAfter d xs else xs)"
    using Emplace_ok [OF inv] 1(2) unfolding freshNode_def by metis
  have "list_repr s' (if m (userKey d) = None then m(userKey d \<mapsto> sessionKey d) else m)"
    using inv' tableOf_sorted(2,3) [OF srt, of d] m unfolding list_repr_def
    by (cases "m (userKey d)") auto
  then show ?case using run tableOf_sorted(2) [OF srt, of d] m by (auto simp: Insert_def)
next
  case (2 s m w d)
  then obtain xs where inv: "list_inv s xs" and m: "m = tableOf xs" by (auto simp: list_repr_def)
  have srt: "sorted_wrt (<) (map snd xs)" using inv by (simp add: list_inv_def)
  show ?case
  proof (cases "foundAt d xs")
    case None
    then have "m (userKey d) = None" using tableOf_sorted(2) [OF srt, of d] m by simp
    moreover from this have "m(userKey d := None) = m" by (simp add: fun_upd_idem)
    moreover obtain s' where "Delete w d s = Some (Inr (False, s'))" "list_inv s' xs"
      by (rule Delete_absent_ok [OF inv None])
    ultimately show ?thesis using m by (auto simp: list_repr_def)
  next
    case (Some e)
    then obtain c e' bs where at: "atOrAfter d xs = (c, e') # bs" "Equals e' d"
      by (auto simp: foundAt_def split: list.splits if_splits)
    have "m (userKey d) \<noteq> None" using Some tableOf_sorted(2) [OF srt, of d] m by auto
    moreover obtain s' where "Delete w d s = Some (Inr (True, s'))" "list_inv s' (before d xs @ bs)"
      by (rule Delete_present_ok [OF inv at])
    ultimately show ?thesis
      using tableOf_sorted(4) [OF srt at(1)] at(2) m by (auto simp: list_repr_def)
  qed
next
  case (3 s m d)
  then obtain xs where inv: "list_inv s xs" and m: "m = tableOf xs" by (auto simp: list_repr_def)
  have srt: "sorted_wrt (<) (map snd xs)" using inv by (simp add: list_inv_def)
  obtain r where "FindRef d s = Some (Inr (foundAt d xs \<noteq> None,
        case foundAt d xs of None \<Rightarrow> d | Some e \<Rightarrow> e, s\<lparr>rcl := r\<rparr>))" "list_inv (s\<lparr>rcl := r\<rparr>) xs"
    by (rule FindRef_ok [OF inv])
  then show ?case
    using tableOf_sorted(2) [OF srt, of d] m by (auto simp: list_repr_def split: option.split)
next
  case (4 s m)
  then show ?case
    using tableOf_sorted(1) by (auto simp: list_repr_def lsize_def list_inv_def)
qed

section \<open>Laws of the table\<close>

context session_table
begin

text \<open>A user that was inserted is found; a second session for the user is refused.\<close>

lemma ins_look:
  assumes "repr s m" and "fresh a s" and "m k = None"
  obtains s' s'' where "ins a w (UserSessionKey k v) s = Some (Inr (True, s'))"
    and "look (UserSessionKey k x) s' = Some (Inr (True, UserSessionKey k v, s''))"
    and "repr s'' (m(k \<mapsto> v))"
proof -
  obtain s' where s': "ins a w (UserSessionKey k v) s = Some (Inr (True, s'))" "repr s' (m(k \<mapsto> v))"
    using ins_ok [OF assms(1,2), of w "UserSessionKey k v"] assms(3) by auto
  obtain s'' where "look (UserSessionKey k x) s' = Some (Inr (True, UserSessionKey k v, s''))"
      "repr s'' (m(k \<mapsto> v))"
    using look_ok [OF s'(2), of "UserSessionKey k x"] by auto
  then show thesis using that s'(1) by blast
qed

lemma ins_refused:
  assumes "repr s m" and "fresh a s" and "m k = Some v"
  obtains s' where "ins a w (UserSessionKey k v') s = Some (Inr (False, s'))" and "repr s' m"
  using ins_ok [OF assms(1,2), of w "UserSessionKey k v'"] assms(3) by auto

lemma del_look:
  assumes "repr s m"
  obtains s' s'' where "del w (UserSessionKey k v) s = Some (Inr (m k \<noteq> None, s'))"
    and "look (UserSessionKey k x) s' = Some (Inr (False, UserSessionKey k x, s''))"
    and "repr s'' (m(k := None))"
proof -
  obtain s' where s': "del w (UserSessionKey k v) s = Some (Inr (m k \<noteq> None, s'))" "repr s' (m(k := None))"
    using del_ok [OF assms, of w "UserSessionKey k v"] by auto
  obtain s'' where "look (UserSessionKey k x) s' = Some (Inr (False, UserSessionKey k x, s''))"
      "repr s'' (m(k := None))"
    using look_ok [OF s'(2), of "UserSessionKey k x"] by auto
  then show thesis using that s'(1) by blast
qed

end

section \<open>The class \<open>UserSessionPair\<close>\<close>

definition newUserSessionPair :: "u64 \<Rightarrow> reclaim_state \<Rightarrow> lf_list" where
  "newUserSessionPair a r = newLockFreeLinkedList a r"

definition insertUserSessionKeyPair :: "u64 \<Rightarrow> nat \<Rightarrow> u64 \<Rightarrow> u64 \<Rightarrow> lf_list
    \<Rightarrow> ((bool \<times> u64) \<times> lf_list) result option" where
  "insertUserSessionKeyPair a w uk sk p =
     map_option (\<lambda>r. bindR r (\<lambda>(b, p'). Inr (if b then (True, lsize p') else (False, lsize p'), p')))
       (Insert a w (UserSessionKey uk sk) p)"

definition deleteUserSessionKeyPair :: "nat \<Rightarrow> u64 \<Rightarrow> lf_list \<Rightarrow> lf_list result option" where
  "deleteUserSessionKeyPair w uk p =
     map_option (\<lambda>r. bindR r (\<lambda>(b, p'). Inr p')) (Delete w (UserSessionKey uk 0) p)"

text \<open>\<open>sk\<close> is a reference argument; the result holds its value after the call.\<close>

definition findSessionKey :: "u64 \<Rightarrow> u64 \<Rightarrow> lf_list \<Rightarrow> (bool \<times> u64 \<times> lf_list) result option" where
  "findSessionKey uk sk p =
     map_option (\<lambda>r. bindR r (\<lambda>(b, d, p'). Inr (b, if b then sessionKey d else sk, p')))
       (FindRef (UserSessionKey uk sk) p)"

lemma newUserSessionPair_repr:
  assumes "a \<noteq> 0" and "even a" and "rc_wf r" and "marked r = {}" and "reclaim_map r = []"
  shows "list_repr (newUserSessionPair a r) Map.empty"
proof -
  have "list_inv (newUserSessionPair a r) []"
    using assms by (simp add: list_inv_def newUserSessionPair_def newLockFreeLinkedList_def
        pendingPtrs_def)
  then show ?thesis by (auto simp: list_repr_def)
qed

lemma insertUserSessionKeyPair_ok:
  assumes "list_repr p m" and "freshNode a p"
  obtains p' where "insertUserSessionKeyPair a w k v p =
      Some (Inr ((m k = None, of_nat (card (insert k (dom m)))), p'))"
    and "list_repr p' (if m k = None then m(k \<mapsto> v) else m)"
proof -
  obtain p' where p': "Insert a w (UserSessionKey k v) p = Some (Inr (m k = None, p'))"
      "list_repr p' (if m k = None then m(k \<mapsto> v) else m)"
    using lock_free.ins_ok [OF assms, of w "UserSessionKey k v"] unfolding UserSessionKey.sel by blast
  have "dom (if m k = None then m(k \<mapsto> v) else m) = insert k (dom m)" by auto
  then have "lsize p' = of_nat (card (insert k (dom m)))"
    using lock_free.count_ok [OF p'(2)] by simp
  then show thesis using that p' by (simp add: insertUserSessionKeyPair_def)
qed

lemma deleteUserSessionKeyPair_ok:
  assumes "list_repr p m"
  obtains p' where "deleteUserSessionKeyPair w k p = Some (Inr p')" and "list_repr p' (m(k := None))"
  using lock_free.del_ok [OF assms, of w "UserSessionKey k 0"]
  by (auto simp: deleteUserSessionKeyPair_def)

lemma findSessionKey_ok:
  assumes "list_repr p m"
  obtains p' where "findSessionKey k x p =
      Some (Inr (m k \<noteq> None, case m k of None \<Rightarrow> x | Some v \<Rightarrow> v, p'))" and "list_repr p' m"
  using lock_free.look_ok [OF assms, of "UserSessionKey k x"]
  by (auto simp: findSessionKey_def split: option.splits)

section \<open>Sequences of operations\<close>

text \<open>
  The operations of \<open>UserSessionPair\<close> as data, with their answers; \<open>InsertOp\<close> carries the address that
  \<open>new Node\<close> returns, the operations on the list the number of spurious failures of its atomic
  instructions.
\<close>

datatype pairOp = InsertOp u64 nat u64 u64 | DeleteOp nat u64 | FindOp u64 u64

datatype pairAnswer = Inserted bool u64 | Deleted | Found bool u64

fun runPair :: "pairOp \<Rightarrow> lf_list \<Rightarrow> (pairAnswer \<times> lf_list) result option" where
  "runPair (InsertOp a w k v) p =
     map_option (\<lambda>r. bindR r (\<lambda>((b, n), p'). Inr (Inserted b n, p'))) (insertUserSessionKeyPair a w k v p)"
| "runPair (DeleteOp w k) p =
     map_option (\<lambda>r. bindR r (\<lambda>p'. Inr (Deleted, p'))) (deleteUserSessionKeyPair w k p)"
| "runPair (FindOp k x) p =
     map_option (\<lambda>r. bindR r (\<lambda>(b, v, p'). Inr (Found b v, p'))) (findSessionKey k x p)"

fun runPairs :: "pairOp list \<Rightarrow> lf_list \<Rightarrow> (pairAnswer list \<times> lf_list) result option" where
  "runPairs [] p = Some (Inr ([], p))"
| "runPairs (c # cs) p =
     (case runPair c p of
        None \<Rightarrow> None
      | Some (Inl f) \<Rightarrow> Some (Inl f)
      | Some (Inr (x, p')) \<Rightarrow>
          map_option (\<lambda>r. bindR r (\<lambda>(xs, p''). Inr (x # xs, p''))) (runPairs cs p'))"

text \<open>The same on a finite map from users to sessions, in which the first session of a user stays.\<close>

fun specPair :: "pairOp \<Rightarrow> (u64 \<rightharpoonup> u64) \<Rightarrow> pairAnswer \<times> (u64 \<rightharpoonup> u64)" where
  "specPair (InsertOp a w k v) m =
     (Inserted (m k = None) (of_nat (card (insert k (dom m)))), if m k = None then m(k \<mapsto> v) else m)"
| "specPair (DeleteOp w k) m = (Deleted, m(k := None))"
| "specPair (FindOp k x) m = (Found (m k \<noteq> None) (case m k of None \<Rightarrow> x | Some v \<Rightarrow> v), m)"

fun specPairs :: "pairOp list \<Rightarrow> (u64 \<rightharpoonup> u64) \<Rightarrow> pairAnswer list \<times> (u64 \<rightharpoonup> u64)" where
  "specPairs [] m = ([], m)"
| "specPairs (c # cs) m =
     (let (x, m') = specPair c m; (xs, m'') = specPairs cs m' in (x # xs, m''))"

text \<open>The contract of the allocator: \<open>new Node\<close> returns the address of an unused, aligned block.\<close>

fun allocates :: "pairOp \<Rightarrow> lf_list \<Rightarrow> bool" where
  "allocates (InsertOp a w k v) p = freshNode a p"
| "allocates _ p = True"

fun allocated :: "pairOp list \<Rightarrow> lf_list \<Rightarrow> bool" where
  "allocated [] p = True"
| "allocated (c # cs) p =
     (allocates c p \<and> (case runPair c p of Some (Inr (x, p')) \<Rightarrow> allocated cs p' | _ \<Rightarrow> True))"

lemma runPair_spec:
  assumes "list_repr p m" and "allocates c p"
  shows "\<exists>p'. runPair c p = Some (Inr (fst (specPair c m), p')) \<and> list_repr p' (snd (specPair c m))"
proof (cases c)
  case (InsertOp a w k v)
  then have "freshNode a p" using assms(2) by simp
  then obtain p' where "insertUserSessionKeyPair a w k v p =
      Some (Inr ((m k = None, of_nat (card (insert k (dom m)))), p'))"
    "list_repr p' (if m k = None then m(k \<mapsto> v) else m)"
    by (rule insertUserSessionKeyPair_ok [OF assms(1)])
  then show ?thesis using InsertOp by simp
next
  case (DeleteOp w k)
  obtain p' where "deleteUserSessionKeyPair w k p = Some (Inr p')" "list_repr p' (m(k := None))"
    by (rule deleteUserSessionKeyPair_ok [OF assms(1)])
  then show ?thesis using DeleteOp by simp
next
  case (FindOp k x)
  obtain p' where "findSessionKey k x p =
      Some (Inr (m k \<noteq> None, case m k of None \<Rightarrow> x | Some v \<Rightarrow> v, p'))" "list_repr p' m"
    by (rule findSessionKey_ok [OF assms(1)])
  then show ?thesis using FindOp by simp
qed

lemma runPairs_spec:
  "list_repr p m \<Longrightarrow> allocated cs p \<Longrightarrow>
   \<exists>p'. runPairs cs p = Some (Inr (fst (specPairs cs m), p')) \<and> list_repr p' (snd (specPairs cs m))"
proof (induction cs arbitrary: p m)
  case (Cons c cs)
  then obtain p1 where p1: "runPair c p = Some (Inr (fst (specPair c m), p1))"
    "list_repr p1 (snd (specPair c m))"
    using runPair_spec [of p m c] by auto
  moreover have "allocated cs p1" using Cons.prems(2) p1(1) by simp
  ultimately obtain p2 where "runPairs cs p1 = Some (Inr (fst (specPairs cs (snd (specPair c m))), p2))"
    "list_repr p2 (snd (specPairs cs (snd (specPair c m))))"
    using Cons.IH by blast
  then show ?case using p1(1) by (auto simp: Let_def split: prod.split)
qed simp

lemma allocated_inserts: "(\<And>c p. c \<in> set cs \<Longrightarrow> allocates c p) \<Longrightarrow> allocated cs p"
  by (induction cs arbitrary: p) (auto split: option.split sum.split)

text \<open>
  C13. The table of sessions by user implements a finite map: any sequence of inserts, deletes and
  lookups on the lock-free list, run by one thread from an empty table, returns the answers of the map
  (a second session for a user is refused, the reported size is the number of users), whatever
  spurious failures the atomic instructions have.
\<close>

theorem session_table_implements_map:
  assumes "a \<noteq> 0" and "even a"
    and "allocated cs (newUserSessionPair a (newReclaimer newHazardPointerList))"
  shows "\<exists>p. runPairs cs (newUserSessionPair a (newReclaimer newHazardPointerList)) =
      Some (Inr (fst (specPairs cs Map.empty), p)) \<and> list_repr p (snd (specPairs cs Map.empty))"
proof -
  have "list_repr (newUserSessionPair a (newReclaimer newHazardPointerList)) Map.empty"
    by (rule newUserSessionPair_repr [OF assms(1,2) newReclaimer_wf])
       (simp_all add: newReclaimer_def newHazardPointerList_def marked_def)
  then show ?thesis using assms(3) by (rule runPairs_spec)
qed

theorem session_table_implements_map_witness:
  "\<exists>p. runPairs [InsertOp 32 3 7 9, FindOp 7 0, DeleteOp 1 7, FindOp 7 5]
      (newUserSessionPair 16 (newReclaimer newHazardPointerList)) =
    Some (Inr ([Inserted True 1, Found True 9, Deleted, Found False 5], p))"
proof -
  let ?cs = "[InsertOp 32 3 7 9, FindOp 7 0, DeleteOp 1 7, FindOp 7 5]"
  let ?p = "newUserSessionPair 16 (newReclaimer newHazardPointerList)"
  have "freshNode 32 ?p" by (simp add: freshNode_def newUserSessionPair_def newLockFreeLinkedList_def)
  moreover have "allocated [FindOp 7 0, DeleteOp 1 7, FindOp 7 5] p" for p
    by (rule allocated_inserts) auto
  ultimately have "allocated ?cs ?p" by (auto simp del: runPair.simps split: option.split sum.split)
  then show ?thesis
    using session_table_implements_map [of 16 ?cs] by (auto simp del: runPairs.simps)
qed

end
