(* ===== verification/Session_Inv.thy ===== *)
theory Session_Inv
  imports Session
begin

text \<open>
  The life of a session as a step relation: completions of the operations in flight put their
  handler on the strand, the strand runs its handlers in order, and the application may use the
  session's interface at any time. The invariant of all reachable states, and what follows from it
  for reads, retries, the close notification and the keep-alive timer.
\<close>

section \<open>What the application may do\<close>

text \<open>
  The effect of using a session through the calls an application callback makes: sending,
  reserving a close, attaching a user.
\<close>

definition api_ext :: "'a session_scheme \<Rightarrow> 'a session_scheme \<Rightarrow> bool" where
  "api_ext s s' \<longleftrightarrow>
     sessionType s' = sessionType s \<and> identity s' = identity s
   \<and> socketStatus s' = socketStatus s \<and> keepAliveTime s' = keepAliveTime s
   \<and> readHandlerPending s' = readHandlerPending s \<and> postRetryCount s' = postRetryCount s
   \<and> recvStream s' = recvStream s \<and> sessionManip s' = sessionManip s
   \<and> socketOpen s' = socketOpen s
   \<and> readsInFlight s' = readsInFlight s \<and> keepAliveWaits s' = keepAliveWaits s
   \<and> (\<exists>ps. strand s' = strand s @ map (T_onCloseReserveTime Ec_operation_aborted) ps)
   \<and> (\<exists>ws. effects s' = effects s @ map (F_async_write (sessionType s)) ws)"

lemma api_ext_refl [simp, intro]: "api_ext s s"
  by (auto simp: api_ext_def intro: exI [of _ "[]"])

lemma api_ext_trans:
  assumes "api_ext s t" and "api_ext t u"
  shows "api_ext s u"
proof -
  from assms obtain ps qs vs ws where
    "strand t = strand s @ map (T_onCloseReserveTime Ec_operation_aborted) ps"
    "strand u = strand t @ map (T_onCloseReserveTime Ec_operation_aborted) qs"
    "effects t = effects s @ map (F_async_write (sessionType s)) vs"
    "effects u = effects t @ map (F_async_write (sessionType s)) ws"
    by (auto simp: api_ext_def)
  then have "strand u = strand s @ map (T_onCloseReserveTime Ec_operation_aborted) (ps @ qs)"
    "effects u = effects s @ map (F_async_write (sessionType s)) (vs @ ws)"
    by simp_all
  then show ?thesis using assms unfolding api_ext_def by metis
qed

lemma api_closeReserve [inv_intros]: "api_ext s (closeReserve ms p s)"
  by (auto simp: api_ext_def closeReserve_def cancelCloseReserve_def Let_def intro: exI [of _ "[]"])

lemma api_setUser [inv_intros]: "api_ext s (setUser u s)"
  by (auto simp: api_ext_def setUser_def intro: exI [of _ "[]"])

lemma api_asyncWrite [inv_intros]: "api_ext s (asyncWrite bs s)"
  unfolding api_ext_def asyncWrite_def emit_def
  by (auto intro: exI [of _ "[]"] exI [of _ "[bs]"])

lemma api_send [inv_intros]: "send st s = Inr s' \<Longrightarrow> api_ext s s'"
  by (auto simp: send_def bindR_eq_Inr api_asyncWrite)

lemma api_sendRaw [inv_intros]: "sendRaw bs s = Inr s' \<Longrightarrow> api_ext s s'"
  by (auto simp: sendRaw_def bindR_eq_Inr api_asyncWrite)

lemma api_sendByteStream [inv_intros]: "sendByteStream bs w s = Inr s' \<Longrightarrow> api_ext s s'"
  by (auto simp: sendByteStream_def bindR_eq_Inr dest: api_send)

text \<open>
  What a dispatcher may do: nothing when the session is not open; otherwise it consumes from the
  receive stream, counts one pending read down, and uses the interface.
\<close>

definition disp_ext :: "'a session_scheme \<Rightarrow> 'a session_scheme \<Rightarrow> bool" where
  "disp_ext s s' \<longleftrightarrow>
     (if socketStatus s = OPEN
      then api_ext (s\<lparr>recvStream := recvStream s', readHandlerPending := readHandlerPending s - 1\<rparr>) s'
      else s' = s)"

locale session_env =
  fixes er :: "('a session_scheme, 'p, 'w) event_receiver"
    and disp :: "'a session_scheme dispatcher"
  assumes onClose_api: "callFn (onCloseCb er) s = Inr s' \<Longrightarrow> api_ext s s'"
    and onExpired_api: "callFn (onExpiredSession er) s = Inr s' \<Longrightarrow> api_ext s s'"
    and disp_contract: "disp s = Some (Inr (b, s')) \<Longrightarrow> disp_ext s s'"

section \<open>Steps\<close>

inductive session_step :: "('a session_scheme, 'p, 'w) event_receiver \<Rightarrow> 'a session_scheme dispatcher
    \<Rightarrow> 'a session_scheme \<Rightarrow> 'a session_scheme \<Rightarrow> bool"
  for er disp where
  read_done: "readsInFlight s = Suc n \<Longrightarrow> (sessionType s = TCP \<longrightarrow> length bytes \<le> RECV_BUFFER_SIZE) \<Longrightarrow>
     session_step er disp s (post (T_handleRead ec bytes) (s\<lparr>readsInFlight := n\<rparr>))"
| write_done: "writesInFlight s = Suc n \<Longrightarrow>
     session_step er disp s (post (T_handleWrite ec m) (s\<lparr>writesInFlight := n\<rparr>))"
| keepAlive_fires: "keepAliveWaits s = Suc n \<Longrightarrow>
     session_step er disp s (post (T_onExpired Ec_ok) (s\<lparr>keepAliveWaits := n\<rparr>))"
| closeReserve_fires: "closeWaits s = p # ps \<Longrightarrow>
     session_step er disp s (post (T_onCloseReserveTime Ec_ok p) (s\<lparr>closeWaits := ps\<rparr>))"
| application: "api_ext s s' \<Longrightarrow> session_step er disp s s'"
| run: "strand s = t # ts \<Longrightarrow> runTask er disp t (s\<lparr>strand := ts\<rparr>) = Some (Inr s') \<Longrightarrow>
     session_step er disp s s'"

text \<open>
  A session that was created, whose socket was then opened, and which was started by the acceptor
  or the connector.
\<close>

inductive session_reach :: "('a session_scheme, 'p, 'w) event_receiver \<Rightarrow> 'a session_scheme dispatcher
    \<Rightarrow> 'a session_scheme \<Rightarrow> bool"
  for er disp where
  accepted: "session.truncate s0 = fst (create st manip keepAliveTimeMs connectionID i) \<Longrightarrow> api_ext (s0\<lparr>socketOpen := b\<rparr>) s \<Longrightarrow>
     session_reach er disp (startAccept s)"
| connected: "session.truncate s0 = fst (create st manip keepAliveTimeMs connectionID i) \<Longrightarrow> api_ext (s0\<lparr>socketOpen := b\<rparr>) s \<Longrightarrow>
     session_reach er disp (startConnect st' s)"
| step: "session_reach er disp s \<Longrightarrow> session_step er disp s s' \<Longrightarrow> session_reach er disp s'"

section \<open>Invariant\<close>

fun isHandleRead :: "task \<Rightarrow> bool" where
  "isHandleRead (T_handleRead ec bs) = True"
| "isHandleRead _ = False"

fun isOnExpired :: "task \<Rightarrow> bool" where
  "isOnExpired (T_onExpired ec) = True"
| "isOnExpired _ = False"

abbreviation countTask :: "(task \<Rightarrow> bool) \<Rightarrow> 'a session_scheme \<Rightarrow> nat" where
  "countTask P s \<equiv> length (filter P (strand s))"

definition readTokens :: "'a session_scheme \<Rightarrow> nat" where
  "readTokens s = readsInFlight s + countTask isHandleRead s"

definition closeNotices :: "'a session_scheme \<Rightarrow> nat" where
  "closeNotices s = length (filter ((=) F_onClose) (effects s))"

definition keepAlive_off :: "'a session_scheme \<Rightarrow> bool" where
  "keepAlive_off s \<longleftrightarrow> keepAliveTime s = 0 \<and> keepAliveWaits s = 0 \<and> countTask isOnExpired s = 0
     \<and> F_onExpiredSession \<notin> set (effects s)"

definition read_ok :: "'a session_scheme \<Rightarrow> bool" where
  "read_ok s \<longleftrightarrow> readTokens s \<le> 1
     \<and> (postRetryCount s \<le> HANDLE_READ_RETRY_MAX
        \<or> readTokens s = 0 \<and> postRetryCount s = HANDLE_READ_RETRY_MAX + 1)"

definition close_ok :: "'a session_scheme \<Rightarrow> bool" where
  "close_ok s \<longleftrightarrow> closeNotices s = (if socketStatus s = CLOSED then 1 else 0)
     \<and> countTask ((=) T_onClose) s = (if socketStatus s = PENDING_CLOSE then 1 else 0)"

definition pending_ok :: "'a session_scheme \<Rightarrow> bool" where
  "pending_ok s \<longleftrightarrow> (socketStatus s = OPEN \<longrightarrow>
     readHandlerPending s = of_nat (countTask ((=) T_dispatch) s))"

definition session_inv :: "'a session_scheme \<Rightarrow> bool" where
  "session_inv s \<longleftrightarrow> keepAlive_off s \<and> read_ok s \<and> close_ok s \<and> pending_ok s"

lemmas inv_parts = keepAlive_off_def read_ok_def close_ok_def pending_ok_def readTokens_def
  closeNotices_def

lemma filter_replicate_const [simp]:
  "filter P (replicate n x) = (if P x then replicate n x else [])"
  by (induction n) auto

lemma api_ext_counts:
  assumes "api_ext s s'"
  shows "countTask isHandleRead s' = countTask isHandleRead s"
    and "countTask isOnExpired s' = countTask isOnExpired s"
    and "countTask ((=) T_onClose) s' = countTask ((=) T_onClose) s"
    and "countTask ((=) T_dispatch) s' = countTask ((=) T_dispatch) s"
    and "closeNotices s' = closeNotices s"
    and "F_onExpiredSession \<in> set (effects s') \<longleftrightarrow> F_onExpiredSession \<in> set (effects s)"
  using assms by (auto simp: api_ext_def closeNotices_def filter_map comp_def)

lemma api_ext_inv:
  assumes "session_inv s" and "api_ext s s'"
  shows "session_inv s'"
  using assms(1) api_ext_counts [OF assms(2)] assms(2)
  unfolding session_inv_def inv_parts api_ext_def by simp

section \<open>Every step keeps the invariant\<close>

lemmas session_ops = post_def emit_def cancelKeepAlive_def cancelCloseReserve_def asyncRead_def
  asyncWrite_def renewExpireTime_def closeSocket_def setSocketStatus_def
  incReadHandlerPendingCount_def decReadHandlerPendingCount_def tryCloseByFailed_def Let_def

lemma filter_map_closeReserve [simp]:
  "filter isHandleRead (map (T_onCloseReserveTime ec) ps) = []"
  "filter isOnExpired (map (T_onCloseReserveTime ec) ps) = []"
  "filter ((=) T_onClose) (map (T_onCloseReserveTime ec) ps) = []"
  "filter ((=) T_dispatch) (map (T_onCloseReserveTime ec) ps) = []"
  by (simp_all add: filter_map comp_def)

lemma tryCloseByFailed_inv:
  "session_inv s \<Longrightarrow> session_inv (tryCloseByFailed w s)"
  by (auto simp: session_inv_def inv_parts session_ops)

text \<open>Handlers run after they were taken off the strand; what the state then looks like.\<close>

lemma handleRead_inv:
  assumes inv: "session_inv s" and st: "strand s = T_handleRead ec bs # ts"
    and run: "handleRead ec bs (s\<lparr>strand := ts\<rparr>) = Inr s'"
  shows "session_inv s'"
proof -
  let ?s = "s\<lparr>strand := ts\<rparr>"
  let ?r = "?s\<lparr>postRetryCount := postRetryCount s + 1\<rparr>"
  have one: "readsInFlight s = 0" "filter isHandleRead ts = []"
    and cnt: "postRetryCount s \<le> 5"
    using inv st by (auto simp: session_inv_def inv_parts HANDLE_READ_RETRY_MAX_def)
  have inv0: "session_inv ?s"
    using inv st cnt by (auto simp: session_inv_def inv_parts HANDLE_READ_RETRY_MAX_def)
  have bump: "postRetryCount s < 5 \<Longrightarrow> postRetryCount s + 1 \<le> 5"
    "\<not> postRetryCount s < 5 \<Longrightarrow> postRetryCount s + 1 = 6"
    using cnt by (auto intro: inc_le)
  consider (ok) st' where "ec = Ec_ok"
      "s' = renewExpireTime (asyncRead (sessionType s) (post T_dispatch
              (incReadHandlerPendingCount (?s\<lparr>recvStream := st'\<rparr>))))"
    | (retry) "postRetryCount s < 5" "s' = post (T_handleRead ec bs) ?r"
    | (limit) "\<not> postRetryCount s < 5" "s' = tryCloseByFailed Shutdown_receive ?r"
    | (close) "s' = tryCloseByFailed Shutdown_receive ?s"
    using run by (auto simp: handleRead_def bindR_eq_Inr Let_def HANDLE_READ_RETRY_MAX_def
        post_def incReadHandlerPendingCount_def split: if_splits)
  then show ?thesis
  proof cases
    case ok
    then show ?thesis using inv0 one cnt
      by (simp add: session_inv_def inv_parts session_ops HANDLE_READ_RETRY_MAX_def add.commute)
  next
    case retry
    then show ?thesis using inv0 one bump(1)
      by (simp add: session_inv_def inv_parts post_def HANDLE_READ_RETRY_MAX_def)
  next
    case limit
    then have "session_inv ?r" using inv0 one bump(2)
      by (simp add: session_inv_def inv_parts HANDLE_READ_RETRY_MAX_def)
    then show ?thesis using limit tryCloseByFailed_inv by simp
  next
    case close
    then show ?thesis using inv0 tryCloseByFailed_inv by simp
  qed
qed

lemma emit_post_inv: "session_inv s \<Longrightarrow> session_inv (emit (F_post f) s)"
  by (simp add: session_inv_def keepAlive_off_def read_ok_def close_ok_def pending_ok_def
      readTokens_def closeNotices_def emit_def)

lemma closeSocket_inv: "session_inv s \<Longrightarrow> session_inv (closeSocket s)"
  by (simp add: session_inv_def inv_parts closeSocket_def emit_def)

lemma start_inv:
  assumes "session.truncate s0 = fst (create st manip keepAliveTimeMs connectionID i)" and "api_ext (s0\<lparr>socketOpen := b\<rparr>) s"
  shows "session_inv (startAccept s)" and "session_inv (startConnect st' s)"
proof -
  have s0: "socketStatus s0 = CLOSED" "keepAliveTime s0 = 0" "readHandlerPending s0 = 0"
    "postRetryCount s0 = 0" "readsInFlight s0 = 0" "keepAliveWaits s0 = 0" "strand s0 = []"
    "effects s0 = []"
    using assms(1) by (simp_all add: create_def newSession_def session.truncate_def)
  then obtain ps ws where s: "strand s = map (T_onCloseReserveTime Ec_operation_aborted) ps"
    "effects s = map (F_async_write (sessionType s0)) ws" "keepAliveTime s = 0"
    "readHandlerPending s = 0" "postRetryCount s = 0" "readsInFlight s = 0" "keepAliveWaits s = 0"
    using assms(2) by (auto simp: api_ext_def)
  show "session_inv (startAccept s)"
    using s by (auto simp: startAccept_def session_inv_def inv_parts session_ops filter_map comp_def)
  show "session_inv (startConnect st' s)"
    using s by (auto simp: startConnect_def session_inv_def inv_parts session_ops filter_map comp_def)
qed

context session_env
begin

text \<open>
  \<open>onClose\<close> runs from its own handler, when a close is pending, or from the close-reserve timer,
  when the session is open; in both cases it leaves a closed session and exactly one notice.
\<close>

lemma onClose_inv:
  assumes inv: "session_inv s" and st: "strand s = t # ts"
    and t: "t = T_onClose \<or> socketStatus s = OPEN \<and> (\<exists>ec p. t = T_onCloseReserveTime ec p)"
    and run: "onClose er (s\<lparr>strand := ts\<rparr>) = Inr s'"
  shows "session_inv s'" and "socketStatus s' = CLOSED"
proof -
  let ?c = "emit F_onClose (cancelCloseReserve (cancelKeepAlive
              (setSocketStatus CLOSED (s\<lparr>strand := ts\<rparr>))))"
  have ne: "socketStatus s \<noteq> CLOSED"
    using inv st t by (auto simp: session_inv_def inv_parts split: if_splits)
  then obtain s3 where s3: "callFn (onCloseCb er) ?c = Inr s3" "s' = closeSocket s3"
    using run by (auto simp: onClose_def bindR_eq_Inr Let_def)
  have "session_inv ?c"
    using inv st t ne by (auto simp: session_inv_def inv_parts session_ops split: if_splits)
  then have "session_inv s3" using onClose_api [OF s3(1)] by (rule api_ext_inv)
  then show "session_inv s'" using s3(2) closeSocket_inv by simp
  have "socketStatus s3 = CLOSED"
    using onClose_api [OF s3(1)] by (simp add: api_ext_def session_ops)
  then show "socketStatus s' = CLOSED" using s3(2) by (simp add: closeSocket_def emit_def)
qed

lemma onCloseReserveTime_inv:
  assumes inv: "session_inv s" and st: "strand s = T_onCloseReserveTime ec p # ts"
    and run: "onCloseReserveTime er ec p (s\<lparr>strand := ts\<rparr>) = Inr s'"
  shows "session_inv s'"
proof (cases "socketStatus s = OPEN")
  case True
  then obtain s1 where s1: "onClose er (s\<lparr>strand := ts\<rparr>) = Inr s1"
    "s' = (case p of None \<Rightarrow> s1 | Some f \<Rightarrow> emit (F_post f) s1)"
    using run by (auto simp: onCloseReserveTime_def bindR_eq_Inr)
  have "session_inv s1" using onClose_inv(1) [OF inv st _ s1(1)] True by simp
  then show ?thesis using s1(2) emit_post_inv by (auto split: option.split)
next
  case False
  then show ?thesis
    using inv st run by (auto simp: onCloseReserveTime_def session_inv_def inv_parts)
qed

lemma dispatch_inv:
  assumes inv: "session_inv s" and st: "strand s = T_dispatch # ts"
    and run: "session_dispatch disp (s\<lparr>strand := ts\<rparr>) = Some (Inr s')"
  shows "session_inv s'"
proof -
  let ?s = "s\<lparr>strand := ts\<rparr>"
  from run obtain b where "disp ?s = Some (Inr (b, s'))"
    by (auto simp: session_dispatch_def split: option.splits sum.splits)
  then have ext: "disp_ext ?s s'" by (rule disp_contract)
  show ?thesis
  proof (cases "socketStatus s = OPEN")
    case True
    let ?d = "?s\<lparr>recvStream := recvStream s', readHandlerPending := readHandlerPending s - 1\<rparr>"
    have "session_inv ?d"
      using inv st True by (simp add: session_inv_def inv_parts)
    moreover have "api_ext ?d s'" using ext True by (simp add: disp_ext_def)
    ultimately show ?thesis by (rule api_ext_inv)
  next
    case False
    then have "s' = ?s" using ext by (simp add: disp_ext_def)
    then show ?thesis using inv st False by (simp add: session_inv_def inv_parts)
  qed
qed

lemma run_inv:
  assumes inv: "session_inv s" and st: "strand s = t # ts"
    and run: "runTask er disp t (s\<lparr>strand := ts\<rparr>) = Some (Inr s')"
  shows "session_inv s'"
proof (cases t)
  case (T_handleRead ec bs)
  then show ?thesis using handleRead_inv inv st run by auto
next
  case T_dispatch
  then show ?thesis using dispatch_inv inv st run by auto
next
  case (T_handleWrite ec n)
  have "session_inv (s\<lparr>strand := ts\<rparr>)"
    using inv st T_handleWrite by (simp add: session_inv_def inv_parts)
  moreover have "renewExpireTime (s\<lparr>strand := ts\<rparr>) = s\<lparr>strand := ts\<rparr>"
    using inv by (simp add: renewExpireTime_def session_inv_def keepAlive_off_def)
  ultimately show ?thesis
    using run T_handleWrite tryCloseByFailed_inv by (auto simp: handleWrite_def split: if_splits)
next
  case T_onClose
  then show ?thesis using onClose_inv(1) [OF inv st] run by simp
next
  case (T_onExpired ec)
  then show ?thesis using inv st by (simp add: session_inv_def inv_parts)
next
  case (T_onCloseReserveTime ec p)
  then show ?thesis using onCloseReserveTime_inv inv st run by auto
qed

lemma step_inv: "session_step er disp s s' \<Longrightarrow> session_inv s \<Longrightarrow> session_inv s'"
proof (induction rule: session_step.induct)
  case (read_done s n bytes ec)
  then show ?case by (auto simp: session_inv_def inv_parts post_def)
next
  case (write_done s n ec m)
  then show ?case by (simp add: session_inv_def inv_parts post_def)
next
  case (keepAlive_fires s n)
  then show ?case by (simp add: session_inv_def inv_parts)
next
  case (closeReserve_fires s p ps)
  then show ?case by (simp add: session_inv_def inv_parts post_def)
next
  case (application s s')
  then show ?case by (blast intro: api_ext_inv)
next
  case (run s t ts s')
  then show ?case by (blast intro: run_inv)
qed

lemma reach_inv: "session_reach er disp s \<Longrightarrow> session_inv s"
proof (induction rule: session_reach.induct)
  case (accepted s0 st manip i b s)
  then show ?case by (rule start_inv(1))
next
  case (connected s0 st manip i b s st')
  then show ?case by (rule start_inv(2))
next
  case (step s s')
  then show ?case by (blast intro: step_inv)
qed

end

section \<open>Progress towards the close\<close>

text \<open>The status of a session only moves from open over pending close to closed.\<close>

fun statusRank :: "socket_status \<Rightarrow> nat" where
  "statusRank OPEN = 0"
| "statusRank PENDING_CLOSE = 1"
| "statusRank CLOSED = 2"

lemma tryCloseByFailed_rank: "statusRank (socketStatus s) \<le> statusRank (socketStatus (tryCloseByFailed w s))"
  by (simp add: session_ops)

lemma renewExpireTime_status [simp]: "socketStatus (renewExpireTime s) = socketStatus s"
  by (simp add: renewExpireTime_def cancelKeepAlive_def Let_def)

context session_env
begin

lemma onClose_rank:
  assumes "onClose er s = Inr s'"
  shows "socketStatus s' = CLOSED"
proof (cases "socketStatus s = CLOSED")
  case True
  then show ?thesis using assms by (simp add: onClose_def)
next
  case False
  then obtain s3 where s3: "callFn (onCloseCb er) (emit F_onClose (cancelCloseReserve (cancelKeepAlive
      (setSocketStatus CLOSED s)))) = Inr s3" "s' = closeSocket s3"
    using assms by (auto simp: onClose_def bindR_eq_Inr Let_def)
  have "socketStatus s3 = CLOSED"
    using onClose_api [OF s3(1)] by (simp add: api_ext_def session_ops)
  then show ?thesis using s3(2) by (simp add: closeSocket_def emit_def)
qed

lemma runTask_rank:
  assumes "runTask er disp t s = Some (Inr s')"
  shows "statusRank (socketStatus s) \<le> statusRank (socketStatus s')"
proof (cases t)
  case (T_handleRead ec bs)
  then show ?thesis
    using assms tryCloseByFailed_rank [of s] tryCloseByFailed_rank [of "s\<lparr>postRetryCount := postRetryCount s + 1\<rparr>"]
    by (auto simp: handleRead_def bindR_eq_Inr Let_def post_def asyncRead_def emit_def
        incReadHandlerPendingCount_def split: if_splits)
next
  case T_dispatch
  then obtain b where "disp s = Some (Inr (b, s'))"
    using assms by (auto simp: session_dispatch_def split: option.splits sum.splits)
  then have "disp_ext s s'" by (rule disp_contract)
  then show ?thesis by (auto simp: disp_ext_def api_ext_def split: if_splits)
next
  case (T_handleWrite ec n)
  then show ?thesis using assms tryCloseByFailed_rank [of s] by (auto simp: handleWrite_def split: if_splits)
next
  case T_onClose
  then show ?thesis using assms onClose_rank [of s s'] by (cases "socketStatus s") auto
next
  case (T_onExpired ec)
  then have "s' = s \<or> api_ext (emit F_onExpiredSession s) s'"
    using assms onExpired_api by (auto simp: onExpired_def split: if_splits)
  then show ?thesis by (auto simp: api_ext_def emit_def)
next
  case (T_onCloseReserveTime ec p)
  show ?thesis
  proof (cases "socketStatus s = OPEN")
    case False
    then show ?thesis using assms T_onCloseReserveTime by (simp add: onCloseReserveTime_def)
  qed simp
qed

lemma step_rank:
  assumes "session_step er disp s s'"
  shows "statusRank (socketStatus s) \<le> statusRank (socketStatus s')"
  using assms
proof (cases rule: session_step.cases)
  case application
  then show ?thesis by (simp add: api_ext_def)
next
  case (run t ts)
  then show ?thesis using runTask_rank [of t "s\<lparr>strand := ts\<rparr>" s'] by simp
qed (simp_all add: post_def)

end

text \<open>Running the first handlers of the strand.\<close>

fun runStrand :: "('a session_scheme, 'p, 'w) event_receiver \<Rightarrow> 'a session_scheme dispatcher \<Rightarrow> nat
    \<Rightarrow> 'a session_scheme \<Rightarrow> 'a session_scheme result option" where
  "runStrand er disp 0 s = Some (Inr s)"
| "runStrand er disp (Suc n) s =
     (case strand s of
        [] \<Rightarrow> Some (Inr s)
      | t # ts \<Rightarrow>
          (case runTask er disp t (s\<lparr>strand := ts\<rparr>) of
             None \<Rightarrow> None
           | Some (Inl f) \<Rightarrow> Some (Inl f)
           | Some (Inr s') \<Rightarrow> runStrand er disp n s'))"

lemma runStrand_add:
  "runStrand er disp m s = Some (Inr t) \<Longrightarrow> runStrand er disp (m + n) s = runStrand er disp n t"
proof (induction m arbitrary: s)
  case (Suc m)
  show ?case
  proof (cases "strand s")
    case Nil
    then show ?thesis using Suc.prems by (cases n) simp_all
  next
    case (Cons x xs)
    then show ?thesis using Suc by (auto split: option.splits sum.splits)
  qed
qed simp

text \<open>
  While a close is pending, every handler in front of \<open>onClose\<close> returns, provided received data fit
  the stream, and leaves the user and the application's data alone.
\<close>

definition readFits :: "task list \<Rightarrow> byte_stream \<Rightarrow> bool" where
  "readFits ts st \<longleftrightarrow> (\<forall>bs. T_handleRead Ec_ok bs \<in> set ts \<longrightarrow> (\<exists>st'. bwrite bs st = Inr st'))"

definition sameOwner :: "'a session_scheme \<Rightarrow> 'a session_scheme \<Rightarrow> bool" where
  "sameOwner s s' \<longleftrightarrow> spUser s' = spUser s \<and> identity s' = identity s \<and> sessionType s' = sessionType s
     \<and> socketStatus s' = socketStatus s \<and> socketOpen s' = socketOpen s \<and> session.more s' = session.more s"

lemma sameOwner_trans: "sameOwner s t \<Longrightarrow> sameOwner t u \<Longrightarrow> sameOwner s u"
  by (simp add: sameOwner_def)

lemma pending_task:
  assumes p: "socketStatus s = PENDING_CLOSE" and st: "strand s = t # ts" and t: "t \<noteq> T_onClose"
    and disp: "\<And>s. socketStatus s \<noteq> OPEN \<Longrightarrow> \<exists>b. disp s = Some (Inr (b, s))" and fits: "readFits [t] (recvStream s)"
  shows "\<exists>s' q. runTask er disp t (s\<lparr>strand := ts\<rparr>) = Some (Inr s') \<and> strand s' = ts @ q
    \<and> sameOwner s s' \<and> (isHandleRead t \<or> recvStream s' = recvStream s)"
proof (cases t)
  case (T_handleRead ec bs)
  show ?thesis
  proof (cases "ec = Ec_ok")
    case True
    then obtain st' where "bwrite bs (recvStream s) = Inr st'"
      using fits st T_handleRead by (auto simp: readFits_def)
    then show ?thesis using True T_handleRead
      by (auto simp: handleRead_def session_ops sameOwner_def)
  next
    case False
    then show ?thesis using T_handleRead p
      by (auto simp: handleRead_def session_ops sameOwner_def)
  qed
next
  case T_dispatch
  obtain b where "disp (s\<lparr>strand := ts\<rparr>) = Some (Inr (b, s\<lparr>strand := ts\<rparr>))"
    using disp [of "s\<lparr>strand := ts\<rparr>"] p by auto
  then show ?thesis using T_dispatch by (auto simp: session_dispatch_def sameOwner_def)
next
  case (T_handleWrite ec n)
  then show ?thesis using p by (auto simp: handleWrite_def session_ops sameOwner_def)
next
  case T_onClose
  then show ?thesis using t by simp
next
  case (T_onExpired ec)
  then show ?thesis using p by (auto simp: onExpired_def sameOwner_def)
next
  case (T_onCloseReserveTime ec q)
  then show ?thesis using p by (auto simp: onCloseReserveTime_def sameOwner_def)
qed

lemma pending_run:
  assumes disp: "\<And>s. socketStatus s \<noteq> OPEN \<Longrightarrow> \<exists>b. disp s = Some (Inr (b, s))"
    and "socketStatus s = PENDING_CLOSE" and "strand s = pre @ T_onClose # rest" and "T_onClose \<notin> set pre"
    and "length (filter isHandleRead pre) \<le> 1" and "readFits pre (recvStream s)"
  shows "\<exists>s' q. runStrand er disp (length pre) s = Some (Inr s') \<and> strand s' = T_onClose # rest @ q
    \<and> sameOwner s s'"
  using assms(2-)
proof (induction pre arbitrary: s rest)
  case Nil
  then show ?case by (auto simp: sameOwner_def)
next
  case (Cons t pre)
  let ?ts = "pre @ T_onClose # rest"
  have fits: "readFits [t] (recvStream s)" "readFits pre (recvStream s)"
    using Cons.prems(5) by (auto simp: readFits_def)
  obtain s1 q where s1: "runTask er disp t (s\<lparr>strand := ?ts\<rparr>) = Some (Inr s1)" "strand s1 = pre @ T_onClose # rest @ q"
      "sameOwner s s1" "isHandleRead t \<or> recvStream s1 = recvStream s"
    using pending_task [OF Cons.prems(1) _ _ disp fits(1), of ?ts er] Cons.prems(2,3) by auto
  have fit1: "readFits pre (recvStream s1)"
  proof (cases "isHandleRead t")
    case True
    then have "filter isHandleRead pre = []" using Cons.prems(4) by simp
    then show ?thesis by (force simp: readFits_def filter_empty_conv)
  next
    case False
    then show ?thesis using s1(4) fits(2) by simp
  qed
  have pend: "socketStatus s1 = PENDING_CLOSE" using s1(3) Cons.prems(1) by (simp add: sameOwner_def)
  have one: "T_onClose \<notin> set pre" "length (filter isHandleRead pre) \<le> 1"
    using Cons.prems(3,4) by (auto split: if_splits)
  obtain s2 q2 where "runStrand er disp (length pre) s1 = Some (Inr s2)"
      "strand s2 = T_onClose # (rest @ q) @ q2" "sameOwner s1 s2"
    using Cons.IH [OF pend s1(2) one fit1] by blast
  then show ?case using s1(1) Cons.prems(2) sameOwner_trans [OF s1(3)] by auto
qed

lemma runStrand_reach:
  "session_reach er disp s \<Longrightarrow> runStrand er disp n s = Some (Inr s') \<Longrightarrow> session_reach er disp s'"
proof (induction n arbitrary: s)
  case (Suc n)
  show ?case
  proof (cases "strand s")
    case Nil
    then show ?thesis using Suc.prems by simp
  next
    case (Cons t ts)
    then obtain s1 where s1: "runTask er disp t (s\<lparr>strand := ts\<rparr>) = Some (Inr s1)"
      "runStrand er disp n s1 = Some (Inr s')"
      using Suc.prems(2) by (auto split: option.splits sum.splits)
    have "session_reach er disp s1"
      using Suc.prems(1) session_step.run [of s t ts er disp s1] Cons s1(1) by (blast intro: session_reach.step)
    then show ?thesis using s1(2) by (rule Suc.IH)
  qed
qed simp

end
