(* ===== verification/Protocol.thy ===== *)
theory Protocol
  imports Byte_Stream
begin

text \<open>
  The wire format of \<open>src/include/net/packetJson/protocol.h\<close> and the header functions of
  \<open>PacketJsonParserManip\<close> (\<open>packetParser.hpp\<close>). The structs are packed (\<open>#pragma pack(1)\<close>), so a
  struct is its fields' little-endian bytes one after the other; \<open>PT_JSON\<close> is a block of memory
  into which the code stores field by field.
\<close>

section \<open>Header\<close>

record HEADER =
  hsize :: int
  hcode :: u32

definition sizeof_HEADER :: nat where
  "sizeof_HEADER = 8"

definition encodeHEADER :: "HEADER \<Rightarrow> byte list" where
  "encodeHEADER h = le_bytes 4 (nat (hsize h mod 2 ^ 32)) @ le_bytes 4 (unat (hcode h))"

definition decodeHEADER :: "byte list \<Rightarrow> HEADER" where
  "decodeHEADER bs = \<lparr>hsize = to_int32 (int (le_val (take 4 bs))),
                      hcode = of_nat (le_val (take 4 (drop 4 bs)))\<rparr>"

definition PT_JSON_packet_value :: u32 where "PT_JSON_packet_value = 1"
definition PT_HEARTBEAT_packet_value :: u32 where "PT_HEARTBEAT_packet_value = 3"
definition PT_JSON_FOR_WEBSOCKET_packet_value :: u32 where "PT_JSON_FOR_WEBSOCKET_packet_value = 5"

definition getHeaderSize :: nat where
  "getHeaderSize = sizeof_HEADER"

definition manipSetHeaderSize :: "nat \<Rightarrow> byte list \<Rightarrow> byte list result" where
  "manipSetHeaderSize currentSize mem =
     (if length mem < sizeof_HEADER then Inl (Undefined ''header past the buffer'')
      else Inr (overwrite 0 (encodeHEADER \<lparr>hsize = to_int32 (int currentSize),
                                           hcode = PT_JSON_packet_value\<rparr>) mem))"

definition s_packetManip :: packet_manipulator where
  "s_packetManip = \<lparr>GetHeaderSize = getHeaderSize, WriteHeaderSize = manipSetHeaderSize\<rparr>"

section \<open>The JSON packet\<close>

definition MAX_BODY_SIZE :: nat where "MAX_BODY_SIZE = 8192"
definition MAX_URL_STRING :: nat where "MAX_URL_STRING = 32"
definition HEADER_SIZE :: nat where "HEADER_SIZE = 47"

text \<open>Field offsets of the packed struct, and its size.\<close>

definition off_code :: nat where "off_code = 4"
definition off_sequenceNo :: nat where "off_sequenceNo = 8"
definition off_isCompressed :: nat where "off_isCompressed = 12"
definition off_url :: nat where "off_url = 13"
definition off_bodySize :: nat where "off_bodySize = 45"
definition off_body :: nat where "off_body = 47"
definition sizeof_PT_JSON :: nat where "sizeof_PT_JSON = 8239"

lemmas layout_defs = sizeof_HEADER_def MAX_BODY_SIZE_def MAX_URL_STRING_def HEADER_SIZE_def
  off_code_def off_sequenceNo_def off_isCompressed_def off_url_def off_bodySize_def off_body_def
  sizeof_PT_JSON_def

text \<open>
  The constructor: what it does to a block of uninitialised memory. \<open>header.size\<close>, \<open>sequenceNo\<close> and
  \<open>body\<close> keep whatever the memory held.
\<close>

definition newPT_JSON :: "byte list \<Rightarrow> byte list" where
  "newPT_JSON mem =
     (let m1 = overwrite off_isCompressed [0] mem;
          m2 = overwrite off_bodySize (le_bytes 2 0) m1;
          m3 = overwrite off_code (le_bytes 4 (unat PT_JSON_packet_value)) m2
      in overwrite off_url (replicate MAX_URL_STRING 0) m3)"

definition pt_url :: "byte list \<Rightarrow> byte list" where
  "pt_url mem = take MAX_URL_STRING (drop off_url mem)"

definition pt_bodySize :: "byte list \<Rightarrow> nat" where
  "pt_bodySize mem = le_val (take 2 (drop off_bodySize mem))"

definition pt_body :: "byte list \<Rightarrow> byte list" where
  "pt_body mem = take MAX_BODY_SIZE (drop off_body mem)"

text \<open>
  Reading a fixed \<open>char\<close> array as a C string: the bytes before the first NUL. Without a NUL in
  the array the read leaves it.
\<close>

definition cstring :: "byte list \<Rightarrow> byte list result" where
  "cstring bs = (if 0 \<in> set bs then Inr (takeWhile (\<lambda>b. b \<noteq> 0) bs)
                 else Inl (Undefined ''string without terminator''))"

section \<open>Layout lemmas\<close>

lemma length_encodeHEADER [simp]: "length (encodeHEADER h) = sizeof_HEADER"
  by (simp add: encodeHEADER_def sizeof_HEADER_def)

lemma decode_encodeHEADER:
  assumes "- (2 ^ 31) \<le> hsize h" and "hsize h < 2 ^ 31"
  shows "decodeHEADER (encodeHEADER h @ rest) = h"
proof -
  have "nat (hsize h mod 2 ^ 32) < 256 ^ 4"
    by (simp add: nat_less_iff)
  then have s: "le_val (le_bytes 4 (nat (hsize h mod 2 ^ 32))) = nat (hsize h mod 2 ^ 32)"
    by (rule le_val_le_bytes)
  have c: "le_val (le_bytes 4 (unat (hcode h))) = unat (hcode h)"
    using unsigned_less [of "hcode h"] by (intro le_val_le_bytes) simp
  have "to_int32 (hsize h mod 2 ^ 32) = to_int32 (hsize h)"
    by (simp add: to_int32_def mod_simps)
  then have "to_int32 (hsize h mod 2 ^ 32) = hsize h"
    using assms to_int32_id by simp
  then show ?thesis
    using s c by (simp add: decodeHEADER_def encodeHEADER_def)
qed

lemma decodeHEADER_append:
  "sizeof_HEADER \<le> length bs \<Longrightarrow> decodeHEADER (bs @ cs) = decodeHEADER bs"
  by (simp add: decodeHEADER_def sizeof_HEADER_def)

lemma decodeHEADER_take:
  "sizeof_HEADER \<le> n \<Longrightarrow> decodeHEADER (take n bs) = decodeHEADER bs"
  by (simp add: decodeHEADER_def sizeof_HEADER_def drop_take min_def)

lemma decodeHEADER_range: "- (2 ^ 31) \<le> hsize (decodeHEADER bs) \<and> hsize (decodeHEADER bs) < 2 ^ 31"
  using to_int32_range by (simp add: decodeHEADER_def)

lemma cstring_padded:
  assumes "0 \<notin> set s" and "0 < n"
  shows "cstring (s @ replicate n 0) = Inr s"
  using assms by (auto simp: cstring_def takeWhile_append2 cong: takeWhile_cong)
     (metis (mono_tags) append_Nil2 takeWhile_append2 takeWhile_replicate)

end
