(* ===== verification/Packet_Procedure.thy ===== *)
theory Packet_Procedure
  imports Session_Inv Protocol
begin

text \<open>
  The class \<open>PacketProcedure\<close> of \<open>src/include/net/packetProcedure.hpp\<close>: the tables of packet
  handlers, the cipher table, and \<open>dispatch\<close>, the function a session posts on its strand after every
  read. The stream \<open>dispatch\<close> gets is the session's own receive stream, so the model works on the
  field \<open>recvStream\<close> of the session.
\<close>

section \<open>State\<close>

text \<open>
  A packet handler gets the session, the packet's size and the packet by reference; it returns its
  result, the packet as it leaves it, and the session.
\<close>

type_synonym 's packet_handler = "'s \<Rightarrow> nat \<Rightarrow> byte_stream \<Rightarrow> (bool \<times> byte_stream \<times> 's) result"

text \<open>An entry of a handler table is a \<open>std::function\<close>, which may be empty.\<close>

type_synonym 's packet_map = "u32 \<rightharpoonup> 's packet_handler option"

text \<open>A packet parser gets the session with its receive stream and the two handler tables.\<close>

type_synonym 's packet_parser = "'s \<Rightarrow> 's packet_map \<Rightarrow> 's packet_map \<Rightarrow> (bool \<times> 's) result option"

type_synonym 's cipher_init = "u16 \<Rightarrow> 's \<Rightarrow> u32 \<Rightarrow> byte_stream \<Rightarrow> bool result"
type_synonym 's cipher_decrypt = "u16 \<Rightarrow> 's \<Rightarrow> u32 \<Rightarrow> byte_stream \<Rightarrow> byte_stream \<Rightarrow> bool result"
type_synonym 's encrypt_parameters = "u16 \<times> 's cipher_init option \<times> 's cipher_decrypt option"
type_synonym 's header_body_handler = "'s \<Rightarrow> byte_stream \<Rightarrow> bool result"

record 's packet_procedure =
  instanceElements :: "'s packet_map"
  staticElements :: "'s packet_map"
  userCipherType :: u16
  cipherHandlers :: "'s encrypt_parameters list"
  msgHandlerHeaderBody :: "'s header_body_handler option"
  packetParsingFunction :: "'s packet_parser option"
  packetHeaderManip :: "packet_manipulator option"

definition UINT8_MAX :: nat where "UINT8_MAX = 255"

section \<open>Operations\<close>

definition newPacketProcedure :: "'s packet_parser option \<Rightarrow> packet_manipulator option
    \<Rightarrow> 's packet_procedure" where
  "newPacketProcedure packetParser manip =
     \<lparr>instanceElements = Map.empty, staticElements = Map.empty, userCipherType = 0,
      cipherHandlers = replicate UINT8_MAX (0, None, None), msgHandlerHeaderBody = None,
      packetParsingFunction = packetParser, packetHeaderManip = manip\<rparr>"

text \<open>\<open>unordered_map::insert\<close>: an entry that is there stays, and the result says so.\<close>

definition mapInsert :: "('k \<rightharpoonup> 'v) \<Rightarrow> 'k \<Rightarrow> 'v \<Rightarrow> bool \<times> ('k \<rightharpoonup> 'v)" where
  "mapInsert m k v = (case m k of None \<Rightarrow> (True, m(k \<mapsto> v)) | Some _ \<Rightarrow> (False, m))"

definition registPacket :: "u32 \<Rightarrow> 's packet_handler option \<Rightarrow> 's packet_procedure
    \<Rightarrow> bool \<times> 's packet_procedure" where
  "registPacket packetId fn pp =
     (let (ok, m) = mapInsert (staticElements pp) packetId fn in (ok, pp\<lparr>staticElements := m\<rparr>))"

definition registPacketInstance :: "u32 \<Rightarrow> 's packet_handler \<Rightarrow> 's packet_procedure
    \<Rightarrow> bool \<times> 's packet_procedure" where
  "registPacketInstance packetId fn pp =
     (let (ok, m) = mapInsert (instanceElements pp) packetId (Some fn)
      in (ok, pp\<lparr>instanceElements := m\<rparr>))"

definition setUserCipherType :: "u16 \<Rightarrow> 's packet_procedure \<Rightarrow> 's packet_procedure" where
  "setUserCipherType cipherType pp = pp\<lparr>userCipherType := cipherType\<rparr>"

text \<open>
  \<open>_cipherHandlers\<close> has \<open>UINT8_MAX\<close> entries and is indexed with a \<open>uint16_t\<close>; an index behind its
  end is undefined behaviour. Both overloads of \<open>setCipher\<close> store the same triple.
\<close>

definition setCipher :: "u16 \<Rightarrow> 's cipher_init option \<Rightarrow> 's cipher_decrypt option
    \<Rightarrow> 's packet_procedure \<Rightarrow> 's packet_procedure result" where
  "setCipher encType initFunc decFunc pp =
     (if unat encType < length (cipherHandlers pp) then
        Inr (setUserCipherType encType
              (pp\<lparr>cipherHandlers := (cipherHandlers pp)[unat encType := (encType, initFunc, decFunc)]\<rparr>))
      else Inl (Undefined ''cipher index out of range''))"

definition getCipherHandler :: "u16 \<Rightarrow> 's packet_procedure \<Rightarrow> 's encrypt_parameters result" where
  "getCipherHandler encType pp =
     (if unat encType < length (cipherHandlers pp) then Inr (cipherHandlers pp ! unat encType)
      else Inl (Undefined ''cipher index out of range''))"

definition setMsgHandler_HeaderBody :: "'s header_body_handler option \<Rightarrow> 's packet_procedure
    \<Rightarrow> 's packet_procedure" where
  "setMsgHandler_HeaderBody f pp = pp\<lparr>msgHandlerHeaderBody := f\<rparr>"

definition getManip :: "'s packet_procedure \<Rightarrow> packet_manipulator option" where
  "getManip pp = packetHeaderManip pp"

definition dispatch :: "'a session_scheme packet_procedure \<Rightarrow> 'a session_scheme dispatcher" where
  "dispatch pp s =
     (if socketStatus s \<noteq> OPEN then Some (Inr (False, s))
      else case packetParsingFunction pp of
             None \<Rightarrow> Some (Inr (False, decReadHandlerPendingCount s))
           | Some parser \<Rightarrow>
               (case parser s (instanceElements pp) (staticElements pp) of
                  None \<Rightarrow> None
                | Some (Inl f) \<Rightarrow> Some (Inl f)
                | Some (Inr (result, s')) \<Rightarrow> Some (Inr (result, decReadHandlerPendingCount s'))))"

section \<open>Tables and ciphers\<close>

lemma mapInsert_keeps: "m k = Some v \<Longrightarrow> mapInsert m k w = (False, m)"
  by (simp add: mapInsert_def)

lemma mapInsert_new: "m k = None \<Longrightarrow> mapInsert m k w = (True, m(k \<mapsto> w))"
  by (simp add: mapInsert_def)

definition cipher_wf :: "'s packet_procedure \<Rightarrow> bool" where
  "cipher_wf pp \<longleftrightarrow> length (cipherHandlers pp) = UINT8_MAX"

lemma cipher_roundtrip:
  assumes "cipher_wf pp"
  shows "setCipher e i d pp =
    (if unat e < UINT8_MAX
     then Inr (pp\<lparr>cipherHandlers := (cipherHandlers pp)[unat e := (e, i, d)], userCipherType := e\<rparr>)
     else Inl (Undefined ''cipher index out of range''))"
  using assms by (simp add: setCipher_def setUserCipherType_def cipher_wf_def)

section \<open>Dispatching as a session's dispatcher\<close>

text \<open>
  A parser that only consumes from the receive stream and otherwise uses the session's interface
  makes \<open>dispatch\<close> a dispatcher in the sense of the session's contract.
\<close>

definition parser_ext :: "'a session_scheme \<Rightarrow> 'a session_scheme \<Rightarrow> bool" where
  "parser_ext s s' \<longleftrightarrow> api_ext (s\<lparr>recvStream := recvStream s'\<rparr>) s'"

lemma parser_ext_refl [simp]: "parser_ext s s"
  by (simp add: parser_ext_def)

lemma parser_ext_trans:
  assumes "parser_ext s t" and "parser_ext t u"
  shows "parser_ext s u"
proof -
  let ?r = "recvStream u"
  have "api_ext (s\<lparr>recvStream := ?r\<rparr>) (t\<lparr>recvStream := ?r\<rparr>)"
    using assms(1) by (simp add: parser_ext_def api_ext_def)
  moreover have "api_ext (t\<lparr>recvStream := ?r\<rparr>) u"
    using assms(2) by (simp add: parser_ext_def)
  ultimately have "api_ext (s\<lparr>recvStream := ?r\<rparr>) u" by (rule api_ext_trans)
  then show ?thesis by (simp add: parser_ext_def)
qed

lemma parser_ext_stream: "parser_ext s (s\<lparr>recvStream := x\<rparr>)"
  by (simp add: parser_ext_def)

lemma api_parser_ext: "api_ext s s' \<Longrightarrow> parser_ext s s'"
  by (simp add: parser_ext_def api_ext_def)

lemma dispatch_ext:
  assumes parser: "\<And>s b s' parser. packetParsingFunction pp = Some parser \<Longrightarrow>
      parser s (instanceElements pp) (staticElements pp) = Some (Inr (b, s')) \<Longrightarrow> parser_ext s s'"
    and run: "dispatch pp s = Some (Inr (r, s'))"
  shows "disp_ext s s'"
proof (cases "socketStatus s = OPEN")
  case False
  then show ?thesis using run by (simp add: dispatch_def disp_ext_def)
next
  case True
  have dec: "disp_ext s (decReadHandlerPendingCount t)" if "parser_ext s t" for t
    using that True
    by (simp add: disp_ext_def parser_ext_def api_ext_def decReadHandlerPendingCount_def)
  then show ?thesis
    using run True parser
    by (auto simp: dispatch_def split: option.splits sum.splits)
qed

section \<open>Properties\<close>

text \<open>
  The cipher table has \<open>UINT8_MAX\<close> entries for \<open>uint16_t\<close> indices: a cipher that is set is the one
  that is found for its type, the ciphers of other types stay, and both setting and asking for a
  type of 255 or more are outside the array.
\<close>

lemma cipher_table:
  assumes "cipher_wf pp"
  shows "if unat e < UINT8_MAX
    then \<exists>pp'. setCipher e i d pp = Inr pp' \<and> cipher_wf pp' \<and> userCipherType pp' = e
      \<and> getCipherHandler e pp' = Inr (e, i, d)
      \<and> (\<forall>e'. e' \<noteq> e \<longrightarrow> getCipherHandler e' pp' = getCipherHandler e' pp)
    else setCipher e i d pp = Inl (Undefined ''cipher index out of range'')
      \<and> getCipherHandler e pp = Inl (Undefined ''cipher index out of range'')"
  using assms
  by (auto simp: cipher_roundtrip [OF assms] cipher_wf_def getCipherHandler_def UINT8_MAX_def
      nth_list_update word_unat_eq_iff)

end
