(* ===== verification/Packet_Parser.thy ===== *)
theory Packet_Parser
  imports Packet_Procedure
begin

text \<open>
  \<open>PacketJsonParser::parse\<close> of \<open>src/include/net/packetJson/packetParser.hpp\<close>: the loop that cuts the
  received byte stream of a TCP session into packets and hands each to its handler, and the single
  call it makes for a websocket session. Above it the framing specification: what packets a
  sequence of bytes consists of, independent of how the bytes arrived.
\<close>

section \<open>The parser\<close>

definition USHRT_MAX :: int where "USHRT_MAX = 65535"

definition callHandler :: "'s packet_handler option \<Rightarrow> 's packet_handler" where
  "callHandler f s n p = (case f of None \<Rightarrow> Inl Bad_function_call | Some g \<Rightarrow> g s n p)"

text \<open>
  One turn of the \<open>do ... while (true)\<close> loop: it returns from the function or goes around again. The
  result of a handler is ignored.
\<close>

datatype 's turn = Return "(bool \<times> 's) result" | Again 's

definition parseTurn :: "('a session_scheme, 'p, 'w) event_receiver
    \<Rightarrow> 'a session_scheme packet_map \<Rightarrow> 'a session_scheme \<Rightarrow> 'a session_scheme turn" where
  "parseTurn er staticFuncMap s =
     (case tryRead sizeof_HEADER (recvStream s) of
        Inl f \<Rightarrow> Return (Inl f)
      | Inr None \<Rightarrow> Return (Inr (True, s))
      | Inr (Some hb) \<Rightarrow>
          (let header = decodeHEADER hb in
           if hsize header < 0 \<or> hsize header > USHRT_MAX then Return (Inr (False, s))
           else if nat (hsize header) > bsize (recvStream s) then Return (Inr (True, s))
           else
             (case bwrite (take (nat (hsize header)) (data (recvStream s)))
                          (newByteStream DEFAULT_BUFFER_SIZE) of
                Inl f \<Rightarrow> Return (Inl f)
              | Inr packet \<Rightarrow>
                  (case advancePosRead (nat (hsize header)) (recvStream s) of
                     Inl f \<Rightarrow> Return (Inl f)
                   | Inr st \<Rightarrow>
                       (case staticFuncMap (hcode header) of
                          Some h \<Rightarrow>
                            (case callHandler h (s\<lparr>recvStream := st\<rparr>) (nat (hsize header)) packet of
                               Inl f \<Rightarrow> Return (Inl f)
                             | Inr (b, packet', s') \<Rightarrow> Again s')
                        | None \<Rightarrow>
                            (case callFn2 (noHandler er) (s\<lparr>recvStream := st\<rparr>) packet of
                               Inl f \<Rightarrow> Return (Inl f)
                             | Inr s' \<Rightarrow> Return (Inr (False, s'))))))))"

text \<open>The loop need not end, so its result is optional: \<open>None\<close> is a loop that runs forever.\<close>

partial_function (option) parseTcp :: "('a session_scheme, 'p, 'w) event_receiver
    \<Rightarrow> 'a session_scheme packet_map \<Rightarrow> 'a session_scheme \<Rightarrow> (bool \<times> 'a session_scheme) result option" where
  "parseTcp er staticFuncMap s =
     (case parseTurn er staticFuncMap s of
        Return r \<Rightarrow> Some r
      | Again s' \<Rightarrow> parseTcp er staticFuncMap s')"

text \<open>
  For a websocket session the table is indexed with \<open>operator[]\<close>, which inserts an empty function
  for a missing key, and the handler works on the receive stream itself.
\<close>

definition parseWebsocket :: "'a session_scheme packet_map \<Rightarrow> 'a session_scheme
    \<Rightarrow> (bool \<times> 'a session_scheme) result" where
  "parseWebsocket staticFuncMap s =
     bindR (callHandler (case staticFuncMap PT_JSON_FOR_WEBSOCKET_packet_value of None \<Rightarrow> None | Some h \<Rightarrow> h)
              s (bsize (recvStream s)) (recvStream s))
           (\<lambda>(b, st, s'). Inr (True, s'\<lparr>recvStream := st\<rparr>))"

definition parse :: "('a session_scheme, 'p, 'w) event_receiver \<Rightarrow> 'a session_scheme packet_parser" where
  "parse er s memberFuncMap staticFuncMap =
     (if sessionType s = TCP then parseTcp er staticFuncMap s
      else Some (parseWebsocket staticFuncMap s))"

section \<open>Framing\<close>

datatype next_frame = More | Bad | Frame u32 "byte list" "byte list"

definition nextFrame :: "byte list \<Rightarrow> next_frame" where
  "nextFrame xs =
     (if length xs < sizeof_HEADER then More
      else let n = hsize (decodeHEADER xs) in
        if n < 0 \<or> n > USHRT_MAX then Bad
        else if nat n > length xs then More
        else Frame (hcode (decodeHEADER xs)) (take (nat n) xs) (drop (nat n) xs))"

datatype framing_end = Waiting | Rejected | Stalled

function splitFrames :: "byte list \<Rightarrow> (u32 \<times> byte list) list \<times> framing_end \<times> byte list" where
  "splitFrames xs =
     (case nextFrame xs of
        More \<Rightarrow> ([], Waiting, xs)
      | Bad \<Rightarrow> ([], Rejected, xs)
      | Frame c p r \<Rightarrow>
          if p = [] then ([], Stalled, xs)
          else let (fs, e, r') = splitFrames r in ((c, p) # fs, e, r'))"
  by pat_completeness auto
termination
  by (relation "measure length")
     (auto simp: nextFrame_def Let_def split: if_splits)

declare splitFrames.simps [simp del]

lemma nextFrame_Frame:
  assumes "nextFrame xs = Frame c p r"
  shows "xs = p @ r" and "length p \<le> 65535" and "sizeof_HEADER \<le> length xs"
    and "length p = nat (hsize (decodeHEADER xs))" and "c = hcode (decodeHEADER xs)"
    and "0 \<le> hsize (decodeHEADER xs)"
  using assms by (auto simp: nextFrame_def Let_def USHRT_MAX_def split: if_splits)

lemma nextFrame_append:
  assumes "nextFrame xs = Frame c p r"
  shows "nextFrame (xs @ ys) = Frame c p (r @ ys)"
proof -
  note f = nextFrame_Frame [OF assms]
  have "decodeHEADER (xs @ ys) = decodeHEADER xs" using f(3) by (rule decodeHEADER_append)
  moreover have "hsize (decodeHEADER xs) \<le> USHRT_MAX"
    using f(2,4,6) by (simp add: USHRT_MAX_def)
  moreover have "nat (hsize (decodeHEADER xs)) \<le> length xs" using f(1,4) by simp
  ultimately show ?thesis using f by (simp add: nextFrame_def Let_def not_less)
qed

lemma nextFrame_Bad_append: "nextFrame xs = Bad \<Longrightarrow> nextFrame (xs @ ys) = Bad"
  by (auto simp: nextFrame_def Let_def decodeHEADER_append split: if_splits)

text \<open>
  Framing does not depend on where the byte stream is cut: what a prefix yields is what the whole
  yields first, and the rest is framed together with what follows.
\<close>

lemma splitFrames_append:
  assumes "splitFrames xs = (fs, Waiting, r)" and "splitFrames (r @ ys) = (gs, e, r')"
  shows "splitFrames (xs @ ys) = (fs @ gs, e, r')"
  using assms
proof (induction xs arbitrary: fs rule: splitFrames.induct)
  case (1 xs)
  show ?case
  proof (cases "nextFrame xs")
    case More
    then show ?thesis using "1.prems" by (simp add: splitFrames.simps [of xs])
  next
    case Bad
    then show ?thesis using "1.prems" by (simp add: splitFrames.simps [of xs])
  next
    case (Frame c p q)
    then have p: "p \<noteq> []" using "1.prems"(1) by (auto simp: splitFrames.simps [of xs])
    then obtain fs' where fs: "fs = (c, p) # fs'" and q: "splitFrames q = (fs', Waiting, r)"
      using "1.prems"(1) Frame by (auto simp: splitFrames.simps [of xs] split: prod.splits)
    have "splitFrames (q @ ys) = (fs' @ gs, e, r')"
      using "1.IH" [OF Frame p q "1.prems"(2)] .
    then show ?thesis
      using p nextFrame_append [OF Frame] fs by (simp add: splitFrames.simps [of "xs @ ys"])
  qed
qed

lemma splitFrames_stop_append:
  assumes "splitFrames xs = (fs, e, r)" and "e \<noteq> Waiting"
  shows "splitFrames (xs @ ys) = (fs, e, r @ ys)"
  using assms
proof (induction xs arbitrary: fs rule: splitFrames.induct)
  case (1 xs)
  show ?case
  proof (cases "nextFrame xs")
    case More
    then show ?thesis using "1.prems" by (simp add: splitFrames.simps [of xs])
  next
    case Bad
    then have "fs = []" "e = Rejected" "r = xs"
      using "1.prems" by (auto simp: splitFrames.simps [of xs])
    then show ?thesis using nextFrame_Bad_append [OF Bad] by (simp add: splitFrames.simps [of "xs @ ys"])
  next
    case (Frame c p q)
    note app = nextFrame_append [OF Frame, of ys]
    show ?thesis
    proof (cases "p = []")
      case True
      then have "fs = []" "e = Stalled" "r = xs"
        using "1.prems" Frame by (auto simp: splitFrames.simps [of xs])
      then show ?thesis using app True by (simp add: splitFrames.simps [of "xs @ ys"])
    next
      case False
      then obtain fs' where "fs = (c, p) # fs'" and q: "splitFrames q = (fs', e, r)"
        using "1.prems"(1) Frame by (auto simp: splitFrames.simps [of xs] split: prod.splits)
      then show ?thesis
        using "1.IH" [OF Frame False q "1.prems"(2)] app False
        by (simp add: splitFrames.simps [of "xs @ ys"])
    qed
  qed
qed

lemma splitFrames_prefix:
  assumes "splitFrames (xs @ ys) = (fs, Waiting, r)"
  obtains fs1 r1 fs2 where "splitFrames xs = (fs1, Waiting, r1)"
    and "splitFrames (r1 @ ys) = (fs2, Waiting, r)" and "fs = fs1 @ fs2"
proof -
  obtain fs1 e r1 where x: "splitFrames xs = (fs1, e, r1)" by (cases "splitFrames xs") auto
  have e: "e = Waiting"
    using splitFrames_stop_append [OF x, of ys] assms by (cases "e = Waiting") auto
  obtain fs2 e2 r2 where y: "splitFrames (r1 @ ys) = (fs2, e2, r2)"
    by (cases "splitFrames (r1 @ ys)") auto
  from splitFrames_append [OF x [unfolded e] y] assms
  show thesis using that x e y by auto
qed

lemma splitFrames_Waiting_More: "splitFrames xs = (fs, Waiting, r) \<Longrightarrow> nextFrame r = More"
proof (induction xs arbitrary: fs rule: splitFrames.induct)
  case (1 xs)
  show ?case
  proof (cases "nextFrame xs")
    case (Frame c p q)
    then have "p \<noteq> []" using "1.prems" by (auto simp: splitFrames.simps [of xs])
    then show ?thesis using "1.IH" [OF Frame] "1.prems" Frame
      by (auto simp: splitFrames.simps [of xs] split: prod.splits)
  qed (use "1.prems" in \<open>auto simp: splitFrames.simps [of xs]\<close>)
qed

text \<open>The frames, put together again, are the bytes that were framed.\<close>

lemma splitFrames_concat:
  "splitFrames xs = (fs, e, r) \<Longrightarrow> concat (map snd fs) @ r = xs"
proof (induction xs arbitrary: fs rule: splitFrames.induct)
  case (1 xs)
  show ?case
  proof (cases "nextFrame xs")
    case (Frame c p q)
    show ?thesis
    proof (cases "p = []")
      case False
      then obtain fs' where "fs = (c, p) # fs'" and "splitFrames q = (fs', e, r)"
        using "1.prems" Frame by (auto simp: splitFrames.simps [of xs] split: prod.splits)
      then show ?thesis
        using "1.IH" [OF Frame False] nextFrame_Frame(1) [OF Frame] by simp
    qed (use "1.prems" Frame in \<open>auto simp: splitFrames.simps [of xs]\<close>)
  qed (use "1.prems" in \<open>auto simp: splitFrames.simps [of xs]\<close>)
qed

section \<open>The parser implements the framing\<close>

text \<open>Handing a list of packets to their handlers, as the specification of the loop.\<close>

definition newPacket :: "byte list \<Rightarrow> byte_stream result" where
  "newPacket p = bwrite p (newByteStream DEFAULT_BUFFER_SIZE)"

fun deliver :: "'s packet_map \<Rightarrow> (u32 \<times> byte list) list \<Rightarrow> 's \<Rightarrow> 's result" where
  "deliver m [] s = Inr s"
| "deliver m ((c, p) # fs) s =
     bindR (newPacket p) (\<lambda>packet.
       bindR (callHandler (case m c of None \<Rightarrow> None | Some h \<Rightarrow> h) s (length p) packet)
         (\<lambda>(b, q, s'). deliver m fs s'))"

lemma newPacket_ok:
  assumes "length p \<le> 65535"
  obtains bs where "newPacket p = Inr bs" and "bs_wf bs" and "contents bs = p"
proof -
  have wf: "bs_wf (newByteStream DEFAULT_BUFFER_SIZE)"
    by (simp add: DEFAULT_BUFFER_SIZE_def newByteStream_wf)
  show thesis
    by (rule bwrite_ok [OF wf, of p]) (use assms that in \<open>auto simp: newPacket_def canWrite_def\<close>)
qed

text \<open>A stream from which bytes were taken: same storage, the write position moved back at most.\<close>

definition consumed :: "byte_stream \<Rightarrow> byte_stream \<Rightarrow> bool" where
  "consumed b st \<longleftrightarrow> bs_wf st \<and> buffer st = buffer b \<and> posWrite st \<le> posWrite b"

lemma consumed_trans: "consumed a b \<Longrightarrow> consumed b c \<Longrightarrow> consumed a c"
  by (auto simp: consumed_def)

text \<open>
  What the parser needs of the application's handlers: a handler neither looks at nor changes the
  session's receive stream, and apart from that uses the session's interface.
\<close>

locale packet_handlers =
  fixes m :: "'a session_scheme packet_map"
  assumes stream_indep: "m c = Some h \<Longrightarrow>
      callHandler h (s\<lparr>recvStream := x\<rparr>) n p =
        bindR (callHandler h s n p) (\<lambda>(b, q, s'). Inr (b, q, s'\<lparr>recvStream := x\<rparr>))"
    and handler_api: "m c = Some h \<Longrightarrow> callHandler h s n p = Inr (b, q, s') \<Longrightarrow> api_ext s s'"
begin

lemma deliver_stream:
  "fst ` set fs \<subseteq> dom m \<Longrightarrow>
   deliver m fs (s\<lparr>recvStream := x\<rparr>) = bindR (deliver m fs s) (\<lambda>t. Inr (t\<lparr>recvStream := x\<rparr>))"
proof (induction fs arbitrary: s)
  case (Cons f fs)
  obtain c p where f: "f = (c, p)" by force
  then obtain h where h: "m c = Some h" using Cons.prems by auto
  have sub: "fst ` set fs \<subseteq> dom m" using Cons.prems by auto
  show ?case
  proof (cases "newPacket p")
    case (Inr packet)
    show ?thesis
    proof (cases "callHandler h s (length p) packet")
      case (Inr r)
      then show ?thesis
        using \<open>newPacket p = Inr packet\<close> f h Cons.IH [OF sub]
        by (auto simp: stream_indep [OF h, where s = s and x = x] split: prod.splits)
    qed (use Inr f h in \<open>simp add: stream_indep [OF h, where s = s and x = x]\<close>)
  qed (use f in simp)
qed simp

text \<open>One turn of the loop.\<close>

lemma parseTcp_stop:
  assumes "bs_wf (recvStream s)" and "nextFrame (contents (recvStream s)) = More"
  shows "parseTcp er m s = Some (Inr (True, s))"
  using assms
  by (subst parseTcp.simps)
     (auto simp: parseTurn_def tryRead_eq nextFrame_def Let_def decodeHEADER_take split: if_splits)

lemma parseTcp_reject:
  assumes "bs_wf (recvStream s)" and "nextFrame (contents (recvStream s)) = Bad"
  shows "parseTcp er m s = Some (Inr (False, s))"
  using assms
  by (subst parseTcp.simps)
     (auto simp: parseTurn_def tryRead_eq nextFrame_def Let_def decodeHEADER_take split: if_splits)

lemma parseTurn_packet:
  assumes wf: "bs_wf (recvStream s)" and fr: "nextFrame (contents (recvStream s)) = Frame c p r"
  obtains st packet where "consumed (recvStream s) st" and "contents st = r"
    and "newPacket p = Inr packet"
    and "parseTurn er m s =
      (case m c of
         Some h \<Rightarrow>
           (case callHandler h (s\<lparr>recvStream := st\<rparr>) (length p) packet of
              Inl f \<Rightarrow> Return (Inl f)
            | Inr (b, packet', s') \<Rightarrow> Again s')
       | None \<Rightarrow>
           (case callFn2 (noHandler er) (s\<lparr>recvStream := st\<rparr>) packet of
              Inl f \<Rightarrow> Return (Inl f)
            | Inr s' \<Rightarrow> Return (Inr (False, s'))))"
proof -
  let ?b = "recvStream s"
  note f = nextFrame_Frame [OF fr]
  have n: "length p \<le> length (contents ?b)" using f(1) by simp
  obtain st where st: "advancePosRead (length p) ?b = Inr st" "bs_wf st"
      "contents st = drop (length p) (contents ?b)" "consumed ?b st"
    using advancePosRead_ok [OF wf n] unfolding consumed_def by metis
  obtain packet where pk: "newPacket p = Inr packet" using newPacket_ok [OF f(2)] by metis
  have p: "take (length p) (data ?b) = p"
    using take_data [of "length p" ?b] n length_contents [OF wf] f(1) by simp
  have hd: "hsize (decodeHEADER (take sizeof_HEADER (contents ?b))) = int (length p)"
    "hcode (decodeHEADER (take sizeof_HEADER (contents ?b))) = c"
    using f(4-6) by (simp_all add: decodeHEADER_take)
  have "length p \<le> bsize ?b" using n wf by simp
  then show thesis
    using f(2,3) hd st(1) pk
    by (intro that [OF st(4) _ pk])
       (simp_all add: st(3) f(1) parseTurn_def tryRead_eq [OF wf] Let_def USHRT_MAX_def p
          newPacket_def split: option.split)
qed

lemma parseTurn_frame:
  assumes wf: "bs_wf (recvStream s)" and fr: "nextFrame (contents (recvStream s)) = Frame c p r"
    and h: "m c = Some h"
  obtains st packet where "consumed (recvStream s) st" and "contents st = r"
    and "newPacket p = Inr packet"
    and "parseTurn er m s =
      (case callHandler h (s\<lparr>recvStream := st\<rparr>) (length p) packet of
         Inl f \<Rightarrow> Return (Inl f)
       | Inr (b, packet', s') \<Rightarrow> Again s')"
  by (rule parseTurn_packet [OF wf fr, of er]) (use h that in auto)

lemma parseTcp_unknown:
  assumes wf: "bs_wf (recvStream s)" and fr: "nextFrame (contents (recvStream s)) = Frame c p r"
    and h: "m c = None"
  obtains st packet where "consumed (recvStream s) st" and "contents st = r"
    and "newPacket p = Inr packet"
    and "parseTcp er m s =
      Some (bindR (callFn2 (noHandler er) (s\<lparr>recvStream := st\<rparr>) packet) (\<lambda>s'. Inr (False, s')))"
proof -
  obtain st packet where st: "consumed (recvStream s) st" "contents st = r" "newPacket p = Inr packet"
    and turn: "parseTurn er m s =
      (case callFn2 (noHandler er) (s\<lparr>recvStream := st\<rparr>) packet of
         Inl f \<Rightarrow> Return (Inl f) | Inr s' \<Rightarrow> Return (Inr (False, s')))"
    by (rule parseTurn_packet [OF wf fr, of er]) (use h in auto)
  show thesis
    by (rule that [OF st], subst parseTcp.simps) (simp add: turn bindR_def split: sum.split)
qed

text \<open>
  The whole loop: on a stream whose bytes frame into \<open>fs\<close>, all with a registered handler, it hands
  exactly these packets to their handlers, in order, and leaves the unframed rest in the stream.
\<close>

lemma parseTcp_split:
  assumes "bs_wf (recvStream s)" and "splitFrames (contents (recvStream s)) = (fs, e, r)"
    and "e \<noteq> Stalled" and "fst ` set fs \<subseteq> dom m"
  shows "case deliver m fs s of
      Inl f \<Rightarrow> parseTcp er m s = Some (Inl f)
    | Inr t \<Rightarrow> \<exists>st. consumed (recvStream s) st \<and> contents st = r
               \<and> parseTcp er m s = Some (Inr (e = Waiting, t\<lparr>recvStream := st\<rparr>))"
  using assms
proof (induction "contents (recvStream s)" arbitrary: s fs rule: splitFrames.induct)
  case (1 s)
  let ?xs = "contents (recvStream s)"
  show ?case
  proof (cases "nextFrame ?xs")
    case More
    then have "fs = []" "e = Waiting" "r = ?xs"
      using "1.prems"(2) by (auto simp: splitFrames.simps [of ?xs])
    then show ?thesis
      using parseTcp_stop [OF "1.prems"(1) More] "1.prems"(1)
      by (auto simp: consumed_def intro!: exI [of _ "recvStream s"])
  next
    case Bad
    then have "fs = []" "e = Rejected" "r = ?xs"
      using "1.prems"(2) by (auto simp: splitFrames.simps [of ?xs])
    then show ?thesis
      using parseTcp_reject [OF "1.prems"(1) Bad] "1.prems"(1)
      by (auto simp: consumed_def intro!: exI [of _ "recvStream s"])
  next
    case (Frame c p q)
    have pne: "p \<noteq> []" using "1.prems"(2,3) Frame by (auto simp: splitFrames.simps [of ?xs])
    then obtain fs' where fs: "fs = (c, p) # fs'" and sq: "splitFrames q = (fs', e, r)"
      using "1.prems"(2) Frame by (auto simp: splitFrames.simps [of ?xs] split: prod.splits)
    then obtain h where h: "m c = Some h" using "1.prems"(4) by auto
    have sub: "fst ` set fs' \<subseteq> dom m" using "1.prems"(4) fs by auto
    obtain st packet where st: "consumed (recvStream s) st" "contents st = q"
      and pk: "newPacket p = Inr packet"
      and step: "parseTurn er m s =
        (case callHandler h (s\<lparr>recvStream := st\<rparr>) (length p) packet of
           Inl f \<Rightarrow> Return (Inl f) | Inr (b, packet', s') \<Rightarrow> Again s')"
      using parseTurn_frame [OF "1.prems"(1) Frame h] by metis
    show ?thesis
    proof (cases "callHandler h s (length p) packet")
      case (Inl f)
      then show ?thesis
        using step pk fs h
        by (simp add: parseTcp.simps [of er m s] stream_indep [OF h, where s = s and x = st])
    next
      case (Inr res)
      then obtain b pk' s2 where r2: "callHandler h s (length p) packet = Inr (b, pk', s2)"
        by (cases res) auto
      then have go: "parseTcp er m s = parseTcp er m (s2\<lparr>recvStream := st\<rparr>)"
        using step
        by (simp add: parseTcp.simps [of er m s] stream_indep [OF h, where s = s and x = st])
      have wf: "bs_wf (recvStream (s2\<lparr>recvStream := st\<rparr>))"
        using st(1) by (simp add: consumed_def)
      have IH: "case deliver m fs' (s2\<lparr>recvStream := st\<rparr>) of
          Inl f \<Rightarrow> parseTcp er m (s2\<lparr>recvStream := st\<rparr>) = Some (Inl f)
        | Inr t \<Rightarrow> \<exists>st'. consumed st st' \<and> contents st' = r
            \<and> parseTcp er m (s2\<lparr>recvStream := st\<rparr>) = Some (Inr (e = Waiting, t\<lparr>recvStream := st'\<rparr>))"
        using "1.hyps" [of c p "s2\<lparr>recvStream := st\<rparr>" fs'] Frame pne wf st(2) sq "1.prems"(3) sub
        by (simp cong: sum.case_cong)
      show ?thesis
        using IH go fs h pk r2 consumed_trans [OF st(1)]
        by (auto simp: deliver_stream [OF sub] split: sum.splits) metis+
    qed
  qed
qed

end

section \<open>The parser as a session's dispatcher\<close>

locale parser_env = packet_handlers m
  for m :: "'a session_scheme packet_map" +
  fixes er :: "('a session_scheme, 'p, 'w) event_receiver"
  assumes noHandler_api: "callFn2 (noHandler er) s p = Inr s' \<Longrightarrow> api_ext s s'"
    and onClose_ext: "callFn (onCloseCb er) s = Inr s' \<Longrightarrow> api_ext s s'"
    and onExpired_ext: "callFn (onExpiredSession er) s = Inr s' \<Longrightarrow> api_ext s s'"
begin

lemma parseTurn_ext:
  "parseTurn er m s = Return (Inr (b, s')) \<Longrightarrow> parser_ext s s'"
  "parseTurn er m s = Again s' \<Longrightarrow> parser_ext s s'"
proof -
  have step: "parser_ext s s'" if "api_ext (s\<lparr>recvStream := st\<rparr>) s'" for st s'
    using parser_ext_trans [OF parser_ext_stream api_parser_ext [OF that]] .
  show "parseTurn er m s = Return (Inr (b, s')) \<Longrightarrow> parser_ext s s'"
    using step [OF noHandler_api]
    by (auto simp: parseTurn_def Let_def split: sum.splits option.splits if_splits prod.splits)
  show "parseTurn er m s = Again s' \<Longrightarrow> parser_ext s s'"
    using step [OF handler_api]
    by (auto simp: parseTurn_def Let_def split: sum.splits option.splits if_splits prod.splits)
qed

lemma parseTcp_ext:
  assumes "parseTcp er m s = Some (Inr (b, s'))"
  shows "parser_ext s s'"
proof -
  let ?P = "\<lambda>e n s (r :: (bool \<times> 'a session_scheme) result).
    e = er \<longrightarrow> n = m \<longrightarrow> (\<forall>b s'. r = Inr (b, s') \<longrightarrow> parser_ext s s')"
  have "?P er m s (Inr (b, s'))"
  proof (rule parseTcp.raw_induct [where P = ?P, OF _ assms], goal_cases)
    case (1 f e n s r)
    then show ?case
      by (auto split: turn.splits dest!: parseTurn_ext intro: parser_ext_trans)
  qed
  then show ?thesis by simp
qed

lemma parseWebsocket_ext:
  assumes "parseWebsocket m s = Inr (b, s')"
  shows "parser_ext s s'"
proof -
  obtain h where h: "m PT_JSON_FOR_WEBSOCKET_packet_value = Some h"
    using assms by (auto simp: parseWebsocket_def callHandler_def split: option.splits)
  then obtain b' st t where "callHandler h s (bsize (recvStream s)) (recvStream s) = Inr (b', st, t)"
    and s': "s' = t\<lparr>recvStream := st\<rparr>"
    using assms by (auto simp: parseWebsocket_def bindR_eq_Inr)
  then have "api_ext s t" using handler_api [OF h] by blast
  then show ?thesis by (auto simp: s' parser_ext_def api_ext_def)
qed

lemma parse_ext: "parse er s m' m = Some (Inr (b, s')) \<Longrightarrow> parser_ext s s'"
  by (auto simp: parse_def parseTcp_ext parseWebsocket_ext split: if_splits)

lemma dispatch_session_env:
  assumes "packetParsingFunction pp = Some (parse er)" and "staticElements pp = m"
  shows "session_env er (dispatch pp)"
proof (unfold_locales, goal_cases)
  case (1 s s') then show ?case by (rule onClose_ext)
next
  case (2 s s') then show ?case by (rule onExpired_ext)
next
  case (3 s b s')
  then show ?case by (rule dispatch_ext [rotated]) (use assms parse_ext in auto)
qed

end

section \<open>Frames of size zero\<close>

text \<open>
  A header that announces size 0 is accepted by the guards of the loop and consumes nothing: the
  same header is read again in the next turn. If its code has a handler that keeps returning, the
  loop never ends.
\<close>

context packet_handlers
begin

lemma parseTcp_stalls:
  assumes wf: "bs_wf (recvStream s)" and z: "nextFrame (contents (recvStream s)) = Frame c [] r"
    and h: "m c = Some h" and total: "\<And>s p. \<exists>x. callHandler h s 0 p = Inr x"
  shows "parseTcp er m s = None"
proof (rule ccontr)
  assume "parseTcp er m s \<noteq> None"
  then obtain res where res: "parseTcp er m s = Some res" by blast
  let ?stuck = "\<lambda>s. bs_wf (recvStream s) \<and> nextFrame (contents (recvStream s)) = Frame c [] r"
  let ?P = "\<lambda>e n s res. n = m \<longrightarrow> \<not> ?stuck s"
  have "?P er m s res"
  proof (rule parseTcp.raw_induct [where P = ?P, OF _ res], goal_cases)
    case (1 f e n s res)
    show ?case
    proof (intro impI notI)
      assume n: "n = m" and stuck: "?stuck s"
      obtain st packet where st: "consumed (recvStream s) st" "contents st = r"
        and turn: "parseTurn e m s =
          (case callHandler h (s\<lparr>recvStream := st\<rparr>) 0 packet of
             Inl f \<Rightarrow> Return (Inl f) | Inr (b, packet', s') \<Rightarrow> Again s')"
        using parseTurn_frame [OF conjunct1 [OF stuck] conjunct2 [OF stuck] h, of e]
        unfolding list.size by blast
      obtain b q s' where s': "callHandler h (s\<lparr>recvStream := st\<rparr>) 0 packet = Inr (b, q, s')"
        using total by (metis prod_cases3)
      have "recvStream s' = st" using handler_api [OF h s'] by (simp add: api_ext_def)
      moreover have "contents (recvStream s) = r" using nextFrame_Frame(1) stuck by fastforce
      ultimately have "?stuck s'" using stuck st by (simp add: consumed_def)
      moreover have "f e m s' = Some res" using "1"(2) turn s' n by simp
      ultimately show False using "1"(1) by blast
    qed
  qed
  then show False using wf z by simp
qed

section \<open>Receiving in pieces\<close>

text \<open>
  The path of received bytes: \<open>Session::handleRead\<close> writes them to the receive stream, the posted
  dispatch parses the stream.
\<close>

end

definition feed :: "('a session_scheme, 'p, 'w) event_receiver \<Rightarrow> 'a session_scheme packet_map
    \<Rightarrow> byte list \<Rightarrow> 'a session_scheme \<Rightarrow> (bool \<times> 'a session_scheme) result option" where
  "feed er m bytes s =
     (case bwrite bytes (recvStream s) of
        Inl f \<Rightarrow> Some (Inl f)
      | Inr st \<Rightarrow> parseTcp er m (s\<lparr>recvStream := st\<rparr>))"

fun feedAll :: "('a session_scheme, 'p, 'w) event_receiver \<Rightarrow> 'a session_scheme packet_map
    \<Rightarrow> byte list list \<Rightarrow> 'a session_scheme \<Rightarrow> 'a session_scheme result option" where
  "feedAll er m [] s = Some (Inr s)"
| "feedAll er m (c # cs) s =
     (case feed er m c s of
        None \<Rightarrow> None
      | Some (Inl f) \<Rightarrow> Some (Inl f)
      | Some (Inr (b, s')) \<Rightarrow> feedAll er m cs s')"

lemma deliver_append: "deliver m (fs @ gs) s = bindR (deliver m fs s) (deliver m gs)"
proof (induction fs arbitrary: s)
  case (Cons f fs)
  then show ?case by (cases f) (auto simp: bindR_def split: sum.splits prod.splits)
qed simp

context packet_handlers
begin

text \<open>
  As long as the bytes fit the receive buffer, the packets that are delivered and the bytes left
  over depend on the received bytes only, not on how they were split into reads.
\<close>

lemma feedAll_chunks:
  assumes "bs_wf (recvStream s)"
    and "posWrite (recvStream s) + int (length (concat cs)) \<le> int (length (buffer (recvStream s)))"
    and "nextFrame (contents (recvStream s)) = More"
    and "splitFrames (contents (recvStream s) @ concat cs) = (fs, Waiting, r)"
    and "fst ` set fs \<subseteq> dom m" and "deliver m fs s = Inr t"
  shows "\<exists>st. feedAll er m cs s = Some (Inr (t\<lparr>recvStream := st\<rparr>)) \<and> contents st = r \<and> bs_wf st"
  using assms
proof (induction cs arbitrary: s fs t)
  case Nil
  then have "fs = []" "r = contents (recvStream s)"
    by (auto simp: splitFrames.simps [of "contents (recvStream s)"])
  then show ?case using Nil.prems by (auto intro!: exI [of _ "recvStream s"])
next
  case (Cons c cs)
  let ?b = "recvStream s"
  have small: "int (length (buffer ?b)) < 2 ^ 31" using Cons.prems(1) by (auto simp: bs_wf_def)
  have room: "canWrite ?b (length c)" "posWrite ?b + int (length c) < 2 ^ 31"
    using Cons.prems(2) small by (auto simp: canWrite_def)
  have "bsize ?b + length c \<le> length (buffer ?b)"
    using Cons.prems(1,2) by (auto simp: bsize_wf bs_wf_def)
  then obtain b1 where b1: "bwrite c ?b = Inr b1" "bs_wf b1" "contents b1 = contents ?b @ c"
      "posWrite b1 = posWrite ?b + int (length c)" "length (buffer b1) = length (buffer ?b)"
    using bwrite_ok [OF Cons.prems(1) room(2,1)] by (metis max.absorb1)
  obtain fs1 r1 fs2 where sp: "splitFrames (contents ?b @ c) = (fs1, Waiting, r1)"
      "splitFrames (r1 @ concat cs) = (fs2, Waiting, r)" and fs: "fs = fs1 @ fs2"
    using splitFrames_prefix [of "contents ?b @ c" "concat cs" fs r] Cons.prems(4) by auto
  have sub: "fst ` set fs1 \<subseteq> dom m" "fst ` set fs2 \<subseteq> dom m" using Cons.prems(5) fs by auto
  obtain u where u: "deliver m fs1 s = Inr u" "deliver m fs2 u = Inr t"
    using Cons.prems(6) fs by (auto simp: deliver_append bindR_eq_Inr)
  have "deliver m fs1 (s\<lparr>recvStream := b1\<rparr>) = Inr (u\<lparr>recvStream := b1\<rparr>)"
    using deliver_stream [OF sub(1), where s = s and x = b1] u(1) by simp
  then obtain st where st: "consumed b1 st" "contents st = r1"
      and p: "parseTcp er m (s\<lparr>recvStream := b1\<rparr>) = Some (Inr (True, u\<lparr>recvStream := st\<rparr>))"
    using parseTcp_split [of "s\<lparr>recvStream := b1\<rparr>" fs1 Waiting r1 er] b1(2,3) sp(1) sub(1) by auto
  have "\<exists>st'. feedAll er m cs (u\<lparr>recvStream := st\<rparr>) =
        Some (Inr ((t\<lparr>recvStream := st\<rparr>)\<lparr>recvStream := st'\<rparr>)) \<and> contents st' = r \<and> bs_wf st'"
  proof (rule Cons.IH)
    show "bs_wf (recvStream (u\<lparr>recvStream := st\<rparr>))" using st(1) by (simp add: consumed_def)
    show "posWrite (recvStream (u\<lparr>recvStream := st\<rparr>)) + int (length (concat cs))
        \<le> int (length (buffer (recvStream (u\<lparr>recvStream := st\<rparr>))))"
      using st(1) b1(4,5) Cons.prems(2) by (simp add: consumed_def)
    show "nextFrame (contents (recvStream (u\<lparr>recvStream := st\<rparr>))) = More"
      using splitFrames_Waiting_More [OF sp(1)] st(2) by simp
    show "splitFrames (contents (recvStream (u\<lparr>recvStream := st\<rparr>)) @ concat cs) = (fs2, Waiting, r)"
      using sp(2) st(2) by simp
    show "deliver m fs2 (u\<lparr>recvStream := st\<rparr>) = Inr (t\<lparr>recvStream := st\<rparr>)"
      using deliver_stream [OF sub(2), where s = u and x = st] u(2) by simp
  qed (rule sub(2))
  then show ?case using b1(1) p by (simp add: feed_def)
qed

end

context packet_handlers
begin

text \<open>Behind a header out of range, received bytes pile up in the stream and nothing else happens.\<close>

lemma feedAll_rejected:
  assumes "bs_wf (recvStream s)" and "nextFrame (contents (recvStream s)) = Bad"
    and "posWrite (recvStream s) + int (length (concat cs)) \<le> int (length (buffer (recvStream s)))"
  shows "\<exists>st. feedAll er m cs s = Some (Inr (s\<lparr>recvStream := st\<rparr>))
    \<and> contents st = contents (recvStream s) @ concat cs"
  using assms
proof (induction cs arbitrary: s)
  case Nil
  then show ?case by (auto intro!: exI [of _ "recvStream s"])
next
  case (Cons c cs)
  let ?b = "recvStream s"
  have room: "posWrite ?b + int (length c) < 2 ^ 31" "canWrite ?b (length c)"
    "bsize ?b + length c \<le> length (buffer ?b)"
    using Cons.prems(1,3) by (auto simp: canWrite_def bs_wf_def bsize_wf)
  then obtain b1 where b1: "bwrite c ?b = Inr b1" "bs_wf b1" "contents b1 = contents ?b @ c"
      "posWrite b1 = posWrite ?b + int (length c)" "length (buffer b1) = length (buffer ?b)"
    using bwrite_ok [OF Cons.prems(1) room(1,2)] by (metis max.absorb1)
  have bad: "nextFrame (contents b1) = Bad" using Cons.prems(2) b1(3) nextFrame_Bad_append by simp
  have "\<exists>st. feedAll er m cs (s\<lparr>recvStream := b1\<rparr>) = Some (Inr ((s\<lparr>recvStream := b1\<rparr>)\<lparr>recvStream := st\<rparr>))
      \<and> contents st = contents (recvStream (s\<lparr>recvStream := b1\<rparr>)) @ concat cs"
    using b1 bad Cons.prems(3) by (intro Cons.IH) simp_all
  then show ?case
    using b1(1,3) parseTcp_reject [of "s\<lparr>recvStream := b1\<rparr>" er] b1(2) bad by (simp add: feed_def)
qed

end

end
