(* ===== verification/Json_Handler.thy ===== *)
theory Json_Handler
  imports Packet_Parser
begin

text \<open>
  \<open>PacketJsonHandler\<close> of \<open>src/include/net/packetJson/handler.hpp\<close>, the JSON body parsers it is used
  with (\<open>jsonParserBoostjson.hpp\<close>, \<open>jsonParserCpprest.hpp\<close>) and \<open>UserBase\<close> of
  \<open>src/include/net/user/userBase.hpp\<close>. JSON values and the JSON library are parameters: \<open>'j\<close> is the
  type of values.
\<close>

section \<open>The handler object\<close>

text \<open>
  A URL handler may change the session before it throws, so it returns the session in any case,
  with the exception if there was one.
\<close>

type_synonym ('s, 'j) url_handler = "user \<Rightarrow> byte list \<Rightarrow> 'j \<Rightarrow> 's \<Rightarrow> fault option \<times> 's"

type_synonym 'j json_parser = "byte list \<Rightarrow> bool \<Rightarrow> (bool \<times> 'j \<times> byte list) result"

record ('s, 'j) json_handler =
  URLs :: "byte list \<rightharpoonup> ('s, 'j) url_handler"
  jsonParsingCallback :: "'j json_parser option"

definition newJsonHandler :: "('s, 'j) json_handler" where
  "newJsonHandler = \<lparr>URLs = Map.empty, jsonParsingCallback = None\<rparr>"

definition setJsonBodyParser :: "'j json_parser option \<Rightarrow> ('s, 'j) json_handler
    \<Rightarrow> ('s, 'j) json_handler" where
  "setJsonBodyParser cb jh = jh\<lparr>jsonParsingCallback := cb\<rparr>"

definition registJsonPacketHandler :: "byte list \<Rightarrow> ('s, 'j) url_handler \<Rightarrow> ('s, 'j) json_handler
    \<Rightarrow> ('s, 'j) json_handler" where
  "registJsonPacketHandler url handler jh = jh\<lparr>URLs := (URLs jh)(url \<mapsto> handler)\<rparr>"

text \<open>
  \<open>PacketJsonHandler::dispatch\<close>. Exceptions of the URL handler are caught and close the session;
  undefined behaviour is not.
\<close>

definition jsonDispatch :: "('a session_scheme, 'j) json_handler \<Rightarrow> 'a session_scheme \<Rightarrow> byte list
    \<Rightarrow> 'j \<Rightarrow> 'a session_scheme result" where
  "jsonDispatch jh s url jv =
     (case URLs jh url of
        None \<Rightarrow> Inr (closeReserve 0 None s)
      | Some handler \<Rightarrow>
          (case spUser s of
             None \<Rightarrow> Inr (closeReserve 0 None s)
           | Some user \<Rightarrow>
               (case handler user url jv s of
                  (None, s') \<Rightarrow> Inr s'
                | (Some f, s') \<Rightarrow>
                    if is_exception f then Inr (closeReserve 0 None s') else Inl f)))"

text \<open>The body of a packet, read under \<open>try\<close>: an exception is turned into \<open>None\<close>.\<close>

definition tryBread :: "nat \<Rightarrow> byte_stream \<Rightarrow> (byte list \<times> byte_stream) option result" where
  "tryBread n bs =
     (case bread n bs of
        Inl f \<Rightarrow> if is_exception f then Inr None else Inl f
      | Inr x \<Rightarrow> Inr (Some x))"

definition readJsonPacket :: "('a session_scheme, 'j) json_handler \<Rightarrow> 'a session_scheme packet_handler" where
  "readJsonPacket jh s sz stream =
     (if HEADER_SIZE > sz then Inr (False, stream, closeReserve 0 None s)
      else
        bindR (bread HEADER_SIZE stream) (\<lambda>(req, stream1).
          if MAX_BODY_SIZE < pt_bodySize req \<or> 0 \<ge> pt_bodySize req then
            Inr (False, stream1, closeReserve 0 None s)
          else
            bindR (tryBread (pt_bodySize req) stream1) (\<lambda>res.
              case res of
                None \<Rightarrow> Inr (False, stream1, closeReserve 0 None s)
              | Some (body, stream2) \<Rightarrow>
                  bindR (callFn2 (jsonParsingCallback jh) body False) (\<lambda>(result, jv, u).
                    if \<not> result then Inr (False, stream2, closeReserve 0 None s)
                    else bindR (cstring (pt_url req)) (\<lambda>urlString.
                           bindR (jsonDispatch jh s urlString jv) (\<lambda>s'. Inr (True, stream2, s')))))))"

definition readJsonWebsocketPacket :: "('a session_scheme, 'j) json_handler
    \<Rightarrow> 'a session_scheme packet_handler" where
  "readJsonWebsocketPacket jh s sz stream =
     bindR (callFn2 (jsonParsingCallback jh) (contents stream) True) (\<lambda>(result, jv, urlString).
       if \<not> result then Inr (False, stream, closeReserve 0 None s)
       else bindR (jsonDispatch jh s urlString jv) (\<lambda>s'. Inr (True, stream, s')))"

text \<open>
  \<open>init\<close> registers both readers. The registered functions hold a pointer to the handler object, so
  \<open>jh\<close> is the object as it is when packets arrive.
\<close>

definition init :: "('a session_scheme, 'j) json_handler \<Rightarrow> 'a session_scheme packet_procedure
    \<Rightarrow> 'a session_scheme packet_procedure" where
  "init jh pp =
     (let (b1, pp1) = registPacket PT_JSON_packet_value (Some (readJsonPacket jh)) pp;
          (b2, pp2) = registPacket PT_JSON_FOR_WEBSOCKET_packet_value (Some (readJsonWebsocketPacket jh)) pp1
      in pp2)"

section \<open>JSON body parsers\<close>

text \<open>
  \<open>mln::net::boostjson::parse\<close> and \<open>mln::net::cpprest::parse\<close>: the library's text parser, its member
  access and its string conversion are parameters; any exception of theirs becomes a failure.
\<close>

definition catchJson :: "'j \<Rightarrow> (bool \<times> 'j \<times> byte list) result \<Rightarrow> (bool \<times> 'j \<times> byte list) result" where
  "catchJson nullv r = (case r of
      Inl f \<Rightarrow> if is_exception f then Inr (False, nullv, []) else Inl f | Inr x \<Rightarrow> Inr x)"

definition boostjson_parse :: "'j \<Rightarrow> (byte list \<Rightarrow> 'j result) \<Rightarrow> (byte list \<Rightarrow> 'j \<Rightarrow> 'j result)
    \<Rightarrow> ('j \<Rightarrow> byte list result) \<Rightarrow> 'j json_parser" where
  "boostjson_parse nullv parseText member toString body getUrlString =
     catchJson nullv
       (if \<not> getUrlString then bindR (parseText body) (\<lambda>jv. Inr (True, jv, []))
        else bindR (parseText body) (\<lambda>jsonObj.
               bindR (bindR (member (str ''url'') jsonObj) toString) (\<lambda>urlString.
                 bindR (member (str ''body'') jsonObj) (\<lambda>jv. Inr (True, jv, urlString)))))"

definition cpprest_parse :: "'j \<Rightarrow> (byte list \<Rightarrow> 'j result) \<Rightarrow> (byte list \<Rightarrow> 'j \<Rightarrow> 'j result)
    \<Rightarrow> ('j \<Rightarrow> byte list result) \<Rightarrow> 'j json_parser" where
  "cpprest_parse nullv parseText member toString body getUrlString =
     catchJson nullv
       (if \<not> getUrlString then bindR (parseText body) (\<lambda>jv. Inr (True, jv, []))
        else bindR (parseText body) (\<lambda>bodyString.
               bindR (member (str ''body'') bodyString) (\<lambda>jv.
                 bindR (bindR (member (str ''url'') bodyString) toString) (\<lambda>urlString.
                   Inr (True, jv, urlString)))))"

section \<open>Users\<close>

definition newUserBase :: "'a session_scheme \<Rightarrow> user" where
  "newUserBase s = \<lparr>userId = 0, userSessionType = sessionType s, userSession = identity s\<rparr>"

text \<open>
  A user holds a weak pointer to its session; \<open>lock\<close> yields the session or nothing. The operations
  take the locked session. The static \<open>_encType\<close> is \<open>GREETING\<close>.
\<close>

definition EncType_GREETING :: u16 where "EncType_GREETING = 0"

definition initEncKey :: "u16 \<Rightarrow> bool \<Rightarrow> 'a session_scheme option
    \<Rightarrow> (bool \<times> 'a session_scheme option) result" where
  "initEncKey encType writeHeader lock =
     (if encType = EncType_GREETING then
        (case lock of
           Some s \<Rightarrow> bindR (sendByteStream (str ''hello'') writeHeader s) (\<lambda>s'. Inr (True, Some s'))
         | None \<Rightarrow> Inr (True, None))
      else Inr (True, lock))"

definition userSend :: "u16 \<Rightarrow> byte list \<Rightarrow> bool \<Rightarrow> 'a session_scheme option
    \<Rightarrow> (int \<times> 'a session_scheme option) result" where
  "userSend encType dat writeHeader lock =
     (if encType = EncType_GREETING then
        (case lock of
           Some s \<Rightarrow> bindR (sendByteStream dat writeHeader s) (\<lambda>s'. Inr (int (length dat), Some s'))
         | None \<Rightarrow> Inr (0, None))
      else Inr (0, lock))"

definition userCloseReserve :: "nat \<Rightarrow> 'a session_scheme option \<Rightarrow> 'a session_scheme option" where
  "userCloseReserve timeAfterMs lock = map_option (closeReserve timeAfterMs None) lock"

text \<open>\<open>sendJsonPacket\<close> fills a \<open>PT_JSON\<close> on the stack, whose memory holds \<open>mem\<close> before.\<close>

definition sendJsonPacket :: "byte list \<Rightarrow> u16 \<Rightarrow> byte list \<Rightarrow> byte list \<Rightarrow> 'a session_scheme option
    \<Rightarrow> (int \<times> 'a session_scheme option) result" where
  "sendJsonPacket mem encType url body lock =
     (let p0 = newPT_JSON mem in
      if length url > MAX_URL_STRING then Inl (Undefined ''url past packet.url'')
      else
        let p1 = overwrite off_url url p0;
            p2 = overwrite off_bodySize (le_bytes 2 (length body mod 65536)) p1;
            p3 = overwrite off_sequenceNo (le_bytes 4 (2 ^ 32 - 1)) p2;
            p4 = overwrite off_isCompressed [0] p3
        in if length body > MAX_BODY_SIZE then Inl (Undefined ''body past packet.body'')
           else
             let p5 = overwrite off_body body p4
             in userSend encType (take (HEADER_SIZE + pt_bodySize p5) p5) False lock)"

definition sendJsonWebsocketPacket :: "byte list \<Rightarrow> 'a session_scheme option
    \<Rightarrow> (int \<times> 'a session_scheme option) result" where
  "sendJsonWebsocketPacket payload lock =
     (case lock of
        Some s \<Rightarrow> bindR (sendRaw payload s) (\<lambda>s'. Inr (int (length payload), Some s'))
      | None \<Rightarrow> Inr (0, None))"

section \<open>What goes over the wire\<close>

definition wirePacket :: "byte list \<Rightarrow> byte list \<Rightarrow> byte list" where
  "wirePacket url body =
     encodeHEADER \<lparr>hsize = int (HEADER_SIZE + length body), hcode = PT_JSON_packet_value\<rparr>
     @ le_bytes 4 (2 ^ 32 - 1) @ [0] @ url @ replicate (MAX_URL_STRING - length url) 0
     @ le_bytes 2 (length body) @ body"

lemma length_wirePacket:
  "length url \<le> MAX_URL_STRING \<Longrightarrow> length (wirePacket url body) = HEADER_SIZE + length body"
  by (simp add: wirePacket_def layout_defs)

text \<open>The fields of the packet, read back from the sent bytes.\<close>

lemma wirePacket_fields:
  assumes "length url \<le> MAX_URL_STRING" and "length body \<le> MAX_BODY_SIZE"
  shows "decodeHEADER (wirePacket url body) =
      \<lparr>hsize = int (HEADER_SIZE + length body), hcode = PT_JSON_packet_value\<rparr>"
    and "pt_url (take HEADER_SIZE (wirePacket url body)) = url @ replicate (MAX_URL_STRING - length url) 0"
    and "pt_bodySize (take HEADER_SIZE (wirePacket url body)) = length body"
    and "drop HEADER_SIZE (wirePacket url body) = body"
proof -
  show "decodeHEADER (wirePacket url body) =
      \<lparr>hsize = int (HEADER_SIZE + length body), hcode = PT_JSON_packet_value\<rparr>"
    unfolding wirePacket_def using assms by (subst decode_encodeHEADER) (simp_all add: layout_defs)
  show "pt_url (take HEADER_SIZE (wirePacket url body)) = url @ replicate (MAX_URL_STRING - length url) 0"
    using assms(1) by (simp add: wirePacket_def pt_url_def layout_defs drop_take)
  have "le_val (le_bytes 2 (length body)) = length body"
    using assms(2) by (intro le_val_le_bytes) (simp add: MAX_BODY_SIZE_def)
  then show "pt_bodySize (take HEADER_SIZE (wirePacket url body)) = length body"
    using assms(1) by (simp add: wirePacket_def pt_bodySize_def layout_defs drop_take)
  show "drop HEADER_SIZE (wirePacket url body) = body"
    using assms(1) by (simp add: wirePacket_def layout_defs)
qed

text \<open>The seven fields of a block of the struct's size.\<close>

lemma PT_JSON_blocks:
  assumes "length mem = sizeof_PT_JSON"
  obtains m0 m1 m2 m3 m4 m5 m6 where "mem = m0 @ m1 @ m2 @ m3 @ m4 @ m5 @ m6"
    and "length m0 = 4" and "length m1 = 4" and "length m2 = 4" and "length m3 = 1"
    and "length m4 = 32" and "length m5 = 2" and "length m6 = 8192"
proof
  let ?d = "\<lambda>n. drop n mem"
  have e: "take k (?d i) @ ?d (i + k) = ?d i" for i k
    by (metis append_take_drop_id drop_drop add.commute)
  show "mem = take 4 mem @ take 4 (?d 4) @ take 4 (?d 8) @ take 1 (?d 12) @ take 32 (?d 13)
      @ take 2 (?d 45) @ ?d 47"
    using e [of 2 45] e [of 32 13] e [of 1 12] e [of 4 8] e [of 4 4] by simp
qed (use assms in \<open>simp_all add: sizeof_PT_JSON_def\<close>)

lemma newPT_JSON_blocks:
  assumes "length m0 = 4" "length m1 = 4" "length m2 = 4" "length m3 = 1" "length m4 = 32"
    "length m5 = 2"
  shows "newPT_JSON (m0 @ m1 @ m2 @ m3 @ m4 @ m5 @ m6) =
    m0 @ le_bytes 4 1 @ m2 @ [0] @ replicate 32 0 @ le_bytes 2 0 @ m6"
proof -
  have 1: "overwrite 12 [0] (m0 @ m1 @ m2 @ m3 @ m4 @ m5 @ m6) = m0 @ m1 @ m2 @ [0] @ m4 @ m5 @ m6"
    using overwrite_at [of 12 "m0 @ m1 @ m2" m3 "[0]"] assms by simp
  have 2: "overwrite 45 (le_bytes 2 0) (m0 @ m1 @ m2 @ [0] @ m4 @ m5 @ m6) =
      m0 @ m1 @ m2 @ [0] @ m4 @ le_bytes 2 0 @ m6"
    using overwrite_at [of 45 "m0 @ m1 @ m2 @ [0] @ m4" m5 "le_bytes 2 0"] assms by simp
  have 3: "overwrite 4 (le_bytes 4 1) (m0 @ m1 @ m2 @ [0] @ m4 @ le_bytes 2 0 @ m6) =
      m0 @ le_bytes 4 1 @ m2 @ [0] @ m4 @ le_bytes 2 0 @ m6"
    using overwrite_at [of 4 m0 m1 "le_bytes 4 1"] assms by simp
  have 4: "overwrite 13 (replicate 32 0) (m0 @ le_bytes 4 1 @ m2 @ [0] @ m4 @ le_bytes 2 0 @ m6) =
      m0 @ le_bytes 4 1 @ m2 @ [0] @ replicate 32 0 @ le_bytes 2 0 @ m6"
    using overwrite_at [of 13 "m0 @ le_bytes 4 1 @ m2 @ [0]" m4 "replicate 32 0"] assms by simp
  show ?thesis
    using 1 2 3 4 by (simp only: newPT_JSON_def Let_def layout_defs PT_JSON_packet_value_def
        unat_1 len_num1 One_nat_def)
qed

lemma setHeaderSize_json:
  assumes wf: "bs_wf st" and m: "packetManipulator st = Some s_packetManip"
    and n: "sizeof_HEADER \<le> length (contents st)"
  shows "\<exists>st'. setHeaderSize st = Inr st' \<and> contents st' =
    encodeHEADER \<lparr>hsize = int (length (contents st)), hcode = PT_JSON_packet_value\<rparr>
      @ drop sizeof_HEADER (contents st)"
proof -
  let ?h = "encodeHEADER \<lparr>hsize = to_int32 (int (bsize st)), hcode = PT_JSON_packet_value\<rparr>"
  let ?st = "st\<lparr>buffer := take (nat (posRead st)) (buffer st) @ overwrite 0 ?h (data st)\<rparr>"
  note b = bs_wf_bounds [OF wf]
  have sz: "length (contents st) = bsize st" using wf by simp
  have i: "to_int32 (int (bsize st)) = int (bsize st)"
    using bsize_bound [OF wf] by (intro to_int32_id) auto
  have "bsize st \<le> length (data st)"
    using sz by (simp add: contents_def)
  then have len: "sizeof_HEADER \<le> length (data st)" using n sz by simp
  have "setHeaderSize st = Inr ?st"
    using len by (simp add: setHeaderSize_def m s_packetManip_def manipSetHeaderSize_def)
  moreover have "data ?st = overwrite 0 ?h (data st)"
    using b by (simp add: data_def)
  then have "contents ?st = take (bsize st) (overwrite 0 ?h (data st))"
    by (simp add: contents_def bsize_def)
  then have "contents ?st = ?h @ drop sizeof_HEADER (contents st)"
    using n sz len by (simp add: overwrite_def contents_def take_drop)
  ultimately show ?thesis using i sz by auto
qed

lemma sendByteStream_json:
  assumes m: "sessionManip s = Some s_packetManip" and n: "sizeof_HEADER \<le> length raw"
    and small: "length raw < 2 ^ 31"
  shows "sendByteStream raw False s =
    Inr (asyncWrite (encodeHEADER \<lparr>hsize = int (length raw), hcode = PT_JSON_packet_value\<rparr>
                       @ drop sizeof_HEADER raw) s)"
proof -
  let ?b = "(newByteStream DEFAULT_BUFFER_SIZE)\<lparr>packetManipulator := sessionManip s\<rparr>"
  have wf: "bs_wf ?b"
    using newByteStream_wf [of DEFAULT_BUFFER_SIZE] by (simp add: bs_wf_def DEFAULT_BUFFER_SIZE_def)
  have c: "contents ?b = []"
    by (simp add: contents_def data_def bsize_def to_size_t_def)
  obtain st where st: "bwrite raw ?b = Inr st" "bs_wf st" "contents st = raw"
      "packetManipulator st = Some s_packetManip"
    by (rule bwrite_ok [OF wf, of raw]) (use c m small in \<open>auto simp: canWrite_def\<close>)
  obtain st' where "setHeaderSize st = Inr st'" "contents st' =
      encodeHEADER \<lparr>hsize = int (length raw), hcode = PT_JSON_packet_value\<rparr> @ drop sizeof_HEADER raw"
    using setHeaderSize_json [OF st(2,4)] st(3) n by auto
  then show ?thesis
    using st(1) by (simp add: sendByteStream_def newByteStreamManip_def send_def)
qed

lemma sendJsonPacket_sends:
  assumes mem: "length mem = sizeof_PT_JSON" and m: "sessionManip s = Some s_packetManip"
    and u: "length url \<le> MAX_URL_STRING" and b: "length body \<le> MAX_BODY_SIZE"
  shows "sendJsonPacket mem EncType_GREETING url body (Some s) =
    Inr (int (HEADER_SIZE + length body), Some (asyncWrite (wirePacket url body) s))"
proof -
  obtain m0 m1 m2 m3 m4 m5 m6 where bl: "mem = m0 @ m1 @ m2 @ m3 @ m4 @ m5 @ m6"
    and l: "length m0 = 4" "length m1 = 4" "length m2 = 4" "length m3 = 1" "length m4 = 32"
      "length m5 = 2" "length m6 = 8192"
    using PT_JSON_blocks [OF mem] by metis
  let ?pad = "replicate (32 - length url) (0 :: byte)"
  let ?seq = "le_bytes 4 (2 ^ 32 - 1)"
  let ?n = "le_bytes 2 (length body)"
  let ?pre = "m0 @ le_bytes 4 1 @ ?seq @ [0] @ url @ ?pad @ ?n"
  have u32: "length url \<le> 32" and b8: "length body \<le> 8192" using u b by (simp_all add: layout_defs)
  have rep: "replicate 32 0 = replicate (length url) 0 @ ?pad"
    using u32 by (simp flip: replicate_add)
  have 1: "overwrite 13 url (m0 @ le_bytes 4 1 @ m2 @ [0] @ replicate 32 0 @ le_bytes 2 0 @ m6) =
      m0 @ le_bytes 4 1 @ m2 @ [0] @ url @ ?pad @ le_bytes 2 0 @ m6"
    using overwrite_at [of 13 "m0 @ le_bytes 4 1 @ m2 @ [0]" "replicate (length url) 0" url] l
    by (simp add: rep)
  have 2: "overwrite 45 ?n (m0 @ le_bytes 4 1 @ m2 @ [0] @ url @ ?pad @ le_bytes 2 0 @ m6) =
      m0 @ le_bytes 4 1 @ m2 @ [0] @ url @ ?pad @ ?n @ m6"
    using overwrite_at [of 45 "m0 @ le_bytes 4 1 @ m2 @ [0] @ url @ ?pad" "le_bytes 2 0" ?n] l u32
    by simp
  have 3: "overwrite 8 ?seq (m0 @ le_bytes 4 1 @ m2 @ [0] @ url @ ?pad @ ?n @ m6) = ?pre @ m6"
    using overwrite_at [of 8 "m0 @ le_bytes 4 1" m2 ?seq] l by simp
  have 4: "overwrite 12 [0] (?pre @ m6) = ?pre @ m6"
    using overwrite_at [of 12 "m0 @ le_bytes 4 1 @ ?seq" "[0]" "[0]"] l by simp
  have 5: "overwrite 47 body (?pre @ m6) = ?pre @ body @ drop (length body) m6"
    using overwrite_at [of 47 ?pre "take (length body) m6" body "?pre @ m6" "drop (length body) m6"]
      l u32 b8 by simp
  have n16: "length body mod 65536 = length body" using b8 by simp
  have lv: "le_val ?n = length body" using b8 by (intro le_val_le_bytes) simp
  have sz: "pt_bodySize (?pre @ body @ drop (length body) m6) = length body"
    using l u32 lv by (simp add: pt_bodySize_def layout_defs)
  have len: "length (?pre @ body) = 47 + length body" using l u32 by simp
  have "take (length (?pre @ body)) ((?pre @ body) @ drop (length body) m6) = ?pre @ body"
    by (simp only: take_append) simp
  then have tk: "take (47 + length body) (?pre @ body @ drop (length body) m6) = ?pre @ body"
    unfolding len by (simp only: append_assoc)
  have wire: "encodeHEADER \<lparr>hsize = int (length (?pre @ body)), hcode = PT_JSON_packet_value\<rparr>
      @ drop sizeof_HEADER (?pre @ body) = wirePacket url body"
    unfolding len using l by (simp add: wirePacket_def layout_defs)
  have "sendJsonPacket mem EncType_GREETING url body (Some s) =
      userSend EncType_GREETING (?pre @ body) False (Some s)"
    unfolding sendJsonPacket_def Let_def bl newPT_JSON_blocks [OF l(1-6)] n16
    using u b 1 2 3 4 5 sz tk by (simp add: layout_defs del: append_assoc)
  also have "\<dots> = Inr (int (47 + length body), Some (asyncWrite (wirePacket url body) s))"
    using sendByteStream_json [OF m, of "?pre @ body"] len b8 wire
    by (simp add: userSend_def sizeof_HEADER_def del: append_assoc)
  finally show ?thesis by (simp add: HEADER_SIZE_def)
qed

section \<open>Receiving\<close>

text \<open>The packet that was sent reaches the URL handler with the URL and the parsed body.\<close>

lemma readJsonPacket_wire:
  assumes wf: "bs_wf packet" and c: "contents packet = wirePacket url body"
    and url: "length url < MAX_URL_STRING" "0 \<notin> set url"
    and body: "body \<noteq> []" "length body \<le> MAX_BODY_SIZE"
    and cb: "jsonParsingCallback jh = Some f" "f body False = Inr (True, jv, u)"
  shows "\<exists>packet'. readJsonPacket jh s (HEADER_SIZE + length body) packet =
    bindR (jsonDispatch jh s url jv) (\<lambda>s'. Inr (True, packet', s'))"
proof -
  have le: "length url \<le> MAX_URL_STRING" using url(1) by simp
  note fields = wirePacket_fields [OF le body(2)] and len = length_wirePacket [OF le, of body]
  let ?req = "take HEADER_SIZE (wirePacket url body)"
  obtain p1 where p1: "bread HEADER_SIZE packet = Inr (?req, p1)" "bs_wf p1"
      "contents p1 = body"
    using stream_fifo.get_ok [OF wf, of HEADER_SIZE] c len fields(4) by auto
  obtain p2 where p2: "bread (length body) p1 = Inr (body, p2)"
    using stream_fifo.get_ok [OF p1(2), of "length body"] p1(3) by auto
  have "cstring (pt_url ?req) = Inr url"
    using cstring_padded [OF url(2)] url(1) fields(2) by simp
  then have "readJsonPacket jh s (HEADER_SIZE + length body) packet =
      bindR (jsonDispatch jh s url jv) (\<lambda>s'. Inr (True, p2, s'))"
    using p1(1) p2 body cb fields(3)
    by (simp add: readJsonPacket_def tryBread_def)
  then show ?thesis by blast
qed

text \<open>The wire form of a packet is one frame of the packet parser.\<close>

lemma wirePacket_frame:
  assumes "length url \<le> MAX_URL_STRING" and "length body \<le> MAX_BODY_SIZE"
  shows "nextFrame (wirePacket url body @ rest) =
    Frame PT_JSON_packet_value (wirePacket url body) rest"
proof -
  note len = length_wirePacket [OF assms(1), of body]
  have "decodeHEADER (wirePacket url body @ rest) =
      \<lparr>hsize = int (HEADER_SIZE + length body), hcode = PT_JSON_packet_value\<rparr>"
    using wirePacket_fields(1) [OF assms] decodeHEADER_append [of "wirePacket url body" rest] len
    by (simp add: layout_defs)
  moreover have "int (HEADER_SIZE + length body) \<le> USHRT_MAX"
    using assms(2) by (simp add: layout_defs USHRT_MAX_def)
  moreover have "sizeof_HEADER \<le> HEADER_SIZE" by (simp add: layout_defs)
  ultimately show ?thesis
    using len by (simp add: nextFrame_def Let_def)
qed

section \<open>The JSON handler as a table of packet handlers\<close>

lemma closeReserve_stream [simp]:
  "closeReserve ms p (s\<lparr>recvStream := x\<rparr>) = (closeReserve ms p s)\<lparr>recvStream := x\<rparr>"
  by (simp add: closeReserve_def cancelCloseReserve_def)

text \<open>
  What the JSON layer needs of the application's URL handlers: they use the session's interface
  only, and neither look at nor change its receive stream.
\<close>

locale url_handlers =
  fixes jh :: "('a session_scheme, 'j) json_handler"
  assumes url_stream: "URLs jh url = Some h \<Longrightarrow> h u url' jv (s\<lparr>recvStream := x\<rparr>) =
      (fst (h u url' jv s), (snd (h u url' jv s))\<lparr>recvStream := x\<rparr>)"
    and url_api: "URLs jh url = Some h \<Longrightarrow> api_ext s (snd (h u url' jv s))"
begin

lemma jsonDispatch_stream:
  "jsonDispatch jh (s\<lparr>recvStream := x\<rparr>) url jv =
   bindR (jsonDispatch jh s url jv) (\<lambda>s'. Inr (s'\<lparr>recvStream := x\<rparr>))"
  by (auto simp: jsonDispatch_def url_stream [where s = s and x = x]
      split: option.split prod.split)

lemma jsonDispatch_api: "jsonDispatch jh s url jv = Inr s' \<Longrightarrow> api_ext s s'"
proof (cases "URLs jh url")
  case (Some h)
  assume run: "jsonDispatch jh s url jv = Inr s'"
  show ?thesis
  proof (cases "spUser s")
    case (Some u)
    obtain f t where h: "h u url jv s = (f, t)" by force
    then have "api_ext s t" using url_api [OF \<open>URLs jh url = Some h\<close>, of s u url jv] by simp
    moreover have "s' = t \<or> s' = closeReserve 0 None t"
      using run Some h \<open>URLs jh url = Some h\<close>
      by (auto simp: jsonDispatch_def split: option.splits if_splits)
    ultimately show ?thesis using api_closeReserve api_ext_trans by blast
  qed (use run Some api_closeReserve in \<open>auto simp: jsonDispatch_def\<close>)
qed (auto simp: jsonDispatch_def intro: api_closeReserve)

lemma readJsonPacket_stream:
  "readJsonPacket jh (s\<lparr>recvStream := x\<rparr>) n p =
   bindR (readJsonPacket jh s n p) (\<lambda>(b, q, s'). Inr (b, q, s'\<lparr>recvStream := x\<rparr>))"
  by (auto simp: readJsonPacket_def jsonDispatch_stream bindR_def split: sum.split option.split)

lemma readJsonPacket_api: "readJsonPacket jh s n p = Inr (b, q, s') \<Longrightarrow> api_ext s s'"
  by (auto simp: readJsonPacket_def bindR_eq_Inr intro: api_closeReserve dest: jsonDispatch_api
      split: if_splits option.splits)

lemma readJsonWebsocketPacket_stream:
  "readJsonWebsocketPacket jh (s\<lparr>recvStream := x\<rparr>) n p =
   bindR (readJsonWebsocketPacket jh s n p) (\<lambda>(b, q, s'). Inr (b, q, s'\<lparr>recvStream := x\<rparr>))"
  by (auto simp: readJsonWebsocketPacket_def jsonDispatch_stream bindR_def split: sum.split)

lemma readJsonWebsocketPacket_api:
  "readJsonWebsocketPacket jh s n p = Inr (b, q, s') \<Longrightarrow> api_ext s s'"
  by (auto simp: readJsonWebsocketPacket_def bindR_eq_Inr intro: api_closeReserve
      dest: jsonDispatch_api split: if_splits)

end

text \<open>The table that \<open>init\<close> sets up in a new packet procedure.\<close>

lemma init_table:
  "staticElements (init jh (newPacketProcedure parser manip)) =
     [PT_JSON_packet_value \<mapsto> Some (readJsonPacket jh),
      PT_JSON_FOR_WEBSOCKET_packet_value \<mapsto> Some (readJsonWebsocketPacket jh)]"
  by (simp add: init_def registPacket_def mapInsert_def newPacketProcedure_def
      PT_JSON_packet_value_def PT_JSON_FOR_WEBSOCKET_packet_value_def)

context url_handlers
begin

lemma init_handlers:
  "packet_handlers (staticElements (init jh (newPacketProcedure parser manip)))"
proof (unfold_locales, goal_cases)
  case (1 c h s x n p)
  then show ?case
    by (auto simp: init_table callHandler_def readJsonPacket_stream readJsonWebsocketPacket_stream
        split: if_splits)
next
  case (2 c h s n p b q s')
  then show ?case
    by (auto simp: init_table callHandler_def dest: readJsonPacket_api readJsonWebsocketPacket_api
        split: if_splits)
qed

end

text \<open>
  A packet that arrives in any number of reads on an empty stream is dispatched once, with its URL and
  its parsed body, and taken from the stream.
\<close>

lemma wirePacket_delivered:
  assumes "length url < MAX_URL_STRING" and "0 \<notin> set url" and "body \<noteq> []" and "length body \<le> MAX_BODY_SIZE"
    and "jsonParsingCallback jh = Some f" and "f body False = Inr (True, jv, v)"
    and "jsonDispatch jh s url jv = Inr t"
  shows "deliver (staticElements (init jh (newPacketProcedure parser manip)))
      [(PT_JSON_packet_value, wirePacket url body)] s = Inr t"
proof -
  have len: "length (wirePacket url body) = HEADER_SIZE + length body"
    using assms(1) by (intro length_wirePacket) simp
  then obtain packet where p: "newPacket (wirePacket url body) = Inr packet"
      "bs_wf packet" "contents packet = wirePacket url body"
    using newPacket_ok [of "wirePacket url body"] assms(4) by (auto simp: layout_defs)
  obtain packet' where "readJsonPacket jh s (HEADER_SIZE + length body) packet =
      bindR (jsonDispatch jh s url jv) (\<lambda>s'. Inr (True, packet', s'))"
    using readJsonPacket_wire [OF p(2,3) assms(1-6)] by blast
  then show ?thesis
    using p(1) len assms(7)
    by (simp add: init_table callHandler_def PT_JSON_packet_value_def PT_JSON_FOR_WEBSOCKET_packet_value_def)
qed

context url_handlers
begin

lemma wirePacket_received:
  assumes "recvStream s = newByteStream DEFAULT_BUFFER_SIZE"
    and "length url < MAX_URL_STRING" and "0 \<notin> set url" and "body \<noteq> []" and "length body \<le> MAX_BODY_SIZE"
    and "HEADER_SIZE + length body \<le> DEFAULT_BUFFER_SIZE"
    and "jsonParsingCallback jh = Some f" and "f body False = Inr (True, jv, v)"
    and "jsonDispatch jh s url jv = Inr t" and "concat cs = wirePacket url body"
  shows "\<exists>st. feedAll er (staticElements (init jh (newPacketProcedure parser manip))) cs s =
      Some (Inr (t\<lparr>recvStream := st\<rparr>)) \<and> contents st = [] \<and> bs_wf st"
proof (rule packet_handlers.feedAll_chunks [OF init_handlers])
  let ?p = "wirePacket url body"
  have url: "length url \<le> MAX_URL_STRING" using assms(2) by simp
  have len: "length ?p = HEADER_SIZE + length body" by (rule length_wirePacket [OF url])
  have fr: "nextFrame (?p @ []) = Frame PT_JSON_packet_value ?p []"
    by (rule wirePacket_frame [OF url assms(5)])
  have ne: "?p \<noteq> []" using len assms(4) by auto
  show "splitFrames (contents (recvStream s) @ concat cs) = ([(PT_JSON_packet_value, ?p)], Waiting, [])"
    using fr ne assms(10)
    by (simp add: assms(1) splitFrames.simps [of ?p] splitFrames.simps [of "[]"] nextFrame_def [of "[]"]
        sizeof_HEADER_def)
  show "deliver (staticElements (init jh (newPacketProcedure parser manip))) [(PT_JSON_packet_value, ?p)] s = Inr t"
    by (rule wirePacket_delivered) (rule assms)+
  show "posWrite (recvStream s) + int (length (concat cs)) \<le> int (length (buffer (recvStream s)))"
    using assms(6,10) len by (simp add: assms(1))
  show "bs_wf (recvStream s)" by (simp add: assms(1) newByteStream_wf DEFAULT_BUFFER_SIZE_def)
  show "nextFrame (contents (recvStream s)) = More" by (simp add: assms(1) nextFrame_def sizeof_HEADER_def)
qed (simp add: init_table)

end

text \<open>The reader of websocket messages takes nothing from the stream.\<close>

lemma websocket_keeps_stream:
  assumes "parseWebsocket (staticElements (init jh (newPacketProcedure parser manip))) s = Inr (b, s')"
  shows "recvStream s' = recvStream s"
  using assms
  by (auto simp: parseWebsocket_def init_table callHandler_def readJsonWebsocketPacket_def bindR_eq_Inr
      split: if_splits)

end
