(* ===== verification/User_Manager.thy ===== *)
theory User_Manager
  imports User_Session_Pair Json_Handler
begin

text \<open>
  \<open>UserManagerBase\<close> of \<open>src/include/net/user/userManagerBase.hpp\<close>: the table of the sessions that
  have a user, by session identity, and the table from users to sessions.

  The sessions themselves are objects outside the manager; an operation that changes one takes it
  and returns it. A shared pointer to a session is its identity, or nothing. The \<open>std::map\<close> is a
  list sorted by key, the order in which it is iterated. The reader-writer lock only orders the
  operations and is left out.
\<close>

section \<open>State\<close>

type_synonym sptr = "u64 option"

record user_manager =
  userSessionPair :: lf_list
  users :: "(u64 \<times> sptr) list"

definition newUserManager :: "lf_list \<Rightarrow> user_manager" where
  "newUserManager p = \<lparr>userSessionPair = p, users = []\<rparr>"

definition um_wf :: "user_manager \<Rightarrow> bool" where
  "um_wf um \<longleftrightarrow> sorted_wrt (<) (map fst (users um))"

section \<open>Operations\<close>

definition createUser :: "u16 \<Rightarrow> 'a session_scheme \<Rightarrow> nat \<Rightarrow> byte_stream \<Rightarrow> bool" where
  "createUser encType s sz stream = True"

definition decryptPacket :: "u16 \<Rightarrow> 'a session_scheme \<Rightarrow> nat \<Rightarrow> byte_stream \<Rightarrow> byte_stream \<Rightarrow> bool" where
  "decryptPacket encType s packetSize packet decryptedPacket = True"

definition allocUserBase :: "'a session_scheme \<Rightarrow> user" where
  "allocUserBase s = newUserBase s"

text \<open>The new user is attached to the session even when the insertion fails.\<close>

definition addUserBase :: "'a session_scheme \<Rightarrow> user_manager
    \<Rightarrow> user option \<times> 'a session_scheme \<times> user_manager" where
  "addUserBase s um =
     (let u = allocUserBase s;
          s1 = setUser (Some u) s
      in if map_of (users um) (identity s) \<noteq> None then (None, s1, um)
         else (Some u, s1, um\<lparr>users := insort_key fst (identity s, Some (identity s)) (users um)\<rparr>))"

definition addUser :: "'a session_scheme \<Rightarrow> user_manager
    \<Rightarrow> user option \<times> 'a session_scheme \<times> user_manager" where
  "addUser s um = addUserBase s um"

definition deleteUserBase :: "'a session_scheme \<Rightarrow> user_manager \<Rightarrow> 'a session_scheme \<times> user_manager" where
  "deleteUserBase s um =
     (case spUser s of
        None \<Rightarrow> (s, um)
      | Some u \<Rightarrow>
          if map_of (users um) (identity s) \<noteq> None then
            (setUser None s, um\<lparr>users := filter (\<lambda>e. fst e \<noteq> identity s) (users um)\<rparr>)
          else (setUser None s, um))"

definition deleteUser :: "'a session_scheme \<Rightarrow> user_manager \<Rightarrow> 'a session_scheme \<times> user_manager" where
  "deleteUser s um = deleteUserBase s um"

definition getUser :: "u64 \<Rightarrow> user_manager \<Rightarrow> sptr option" where
  "getUser ident um = map_of (users um) ident"

text \<open>
  A callback is a \<open>std::function\<close>: it may be empty, and what it calls gets the pointer, may change the state
  \<open>'w\<close> of the application and may throw.
\<close>

type_synonym 'w func_target = "(u64 \<Rightarrow> 'w \<Rightarrow> 'w result) option"

definition functionTarget :: "'w func_target \<Rightarrow> u64 \<Rightarrow> user_manager \<Rightarrow> 'w \<Rightarrow> (int \<times> 'w) result" where
  "functionTarget callback key um w =
     (case map_of (users um) key of
        Some (Some q) \<Rightarrow> bindR (callFn2 callback q w) (\<lambda>w'. Inr (0, w'))
      | Some None \<Rightarrow> Inr (0, w)
      | None \<Rightarrow> Inr (-1, w))"

text \<open>The loop that collects the sessions to call and the keys that have none.\<close>

fun collectTargets :: "(u64 \<times> sptr) list \<Rightarrow> u64 list \<Rightarrow> u64 list \<times> u64 list" where
  "collectTargets us [] = ([], [])"
| "collectTargets us (key # keys) =
     (let (found, failed) = collectTargets us keys
      in case map_of us key of
           Some (Some p) \<Rightarrow> (p # found, failed)
         | _ \<Rightarrow> (found, key # failed))"

definition functionTargets :: "'w func_target \<Rightarrow> u64 list \<Rightarrow> user_manager \<Rightarrow> 'w \<Rightarrow> (u64 list \<times> 'w) result" where
  "functionTargets callback keys um w =
     (let (found, failed) = collectTargets (users um) keys
      in bindR (seqR (callFn2 callback) found w) (\<lambda>w'. Inr (failed, w')))"

definition functionForeach :: "'w func_target \<Rightarrow> user_manager \<Rightarrow> 'w \<Rightarrow> 'w result" where
  "functionForeach callback um w =
     seqR (\<lambda>(k, p) w. case p of Some q \<Rightarrow> callFn2 callback q w | None \<Rightarrow> Inr w) (users um) w"

definition getUserCount :: "user_manager \<Rightarrow> nat" where
  "getUserCount um = length (users um)"

text \<open>
  \<open>closedUser\<close> dereferences the session's user. It removes the user from the table of user keys
  only; the session stays in \<open>users\<close>.
\<close>

definition closedUser :: "nat \<Rightarrow> 'a session_scheme \<Rightarrow> user_manager \<Rightarrow> user_manager result option" where
  "closedUser w s um =
     (case spUser s of
        None \<Rightarrow> Some (Inl (Undefined ''null user''))
      | Some u \<Rightarrow>
          map_option (\<lambda>r. bindR r (\<lambda>p. Inr (um\<lparr>userSessionPair := p\<rparr>)))
            (deleteUserSessionKeyPair w (of_nat (userId u)) (userSessionPair um)))"

definition um_insertUserSessionKeyPair :: "u64 \<Rightarrow> nat \<Rightarrow> u64 \<Rightarrow> u64 \<Rightarrow> user_manager
    \<Rightarrow> ((bool \<times> u64) \<times> user_manager) result option" where
  "um_insertUserSessionKeyPair a w uk sk um =
     map_option (\<lambda>r. bindR r (\<lambda>(x, p). Inr (x, um\<lparr>userSessionPair := p\<rparr>)))
       (insertUserSessionKeyPair a w uk sk (userSessionPair um))"

definition um_deleteUserSessionKeyPair :: "nat \<Rightarrow> u64 \<Rightarrow> user_manager \<Rightarrow> user_manager result option" where
  "um_deleteUserSessionKeyPair w uk um =
     map_option (\<lambda>r. bindR r (\<lambda>p. Inr (um\<lparr>userSessionPair := p\<rparr>)))
       (deleteUserSessionKeyPair w uk (userSessionPair um))"

section \<open>The table of users\<close>

lemma um_distinct: "um_wf um \<Longrightarrow> distinct (map fst (users um))"
  by (simp add: um_wf_def strict_sorted_iff)

lemma length_filter_key:
  "distinct (map fst xs) \<Longrightarrow>
   length (filter (\<lambda>e. fst e \<noteq> k) xs) + (if map_of xs k = None then 0 else 1) = length xs"
proof (induction xs)
  case (Cons e xs)
  have "fst e = k \<Longrightarrow> filter (\<lambda>e. fst e \<noteq> k) xs = xs \<and> map_of xs k = None"
    using Cons.prems by (auto simp: map_of_eq_None_iff filter_id_conv rev_image_eqI)
  then show ?case using Cons by (cases "fst e = k") auto
qed simp

lemma addUserBase_ok:
  assumes wf: "um_wf um" and r: "addUserBase s um = (u, s', um')"
  shows "um_wf um'" and "spUser s' = Some (newUserBase s)" and "userSessionPair um' = userSessionPair um"
    and "getUser k um' =
      (if k = identity s \<and> u \<noteq> None then Some (Some (identity s)) else getUser k um)"
    and "u = None \<longleftrightarrow> getUser (identity s) um \<noteq> None"
    and "getUserCount um' = getUserCount um + (if u = None then 0 else 1)"
proof -
  let ?new = "insort_key fst (identity s, Some (identity s)) (users um)"
  have srt: "sorted (map fst ?new)"
    using wf by (intro sorted_insort_key [THEN iffD2]) (simp add: um_wf_def strict_sorted_iff)
  have "um_wf um' \<and> getUser k um' =
      (if k = identity s \<and> u \<noteq> None then Some (Some (identity s)) else getUser k um)
    \<and> (u = None \<longleftrightarrow> getUser (identity s) um \<noteq> None)
    \<and> getUserCount um' = getUserCount um + (if u = None then 0 else 1)"
  proof (cases "map_of (users um) (identity s)")
    case None
    then have new: "identity s \<notin> fst ` set (users um)" by (simp add: map_of_eq_None_iff)
    have um': "um' = um\<lparr>users := ?new\<rparr>" "u \<noteq> None"
      using r None by (auto simp: addUserBase_def Let_def)
    have "distinct (map fst ?new)"
      using new um_distinct [OF wf] by (simp add: distinct_insort_key)
    then have "um_wf um'" using srt um' by (simp add: um_wf_def strict_sorted_iff)
    then show ?thesis
      using None um' map_of_insort_new [OF None] by (simp add: getUser_def getUserCount_def)
  next
    case (Some x)
    then show ?thesis using r wf by (auto simp: addUserBase_def Let_def getUser_def)
  qed
  then show "um_wf um'" "getUser k um' =
      (if k = identity s \<and> u \<noteq> None then Some (Some (identity s)) else getUser k um)"
    "u = None \<longleftrightarrow> getUser (identity s) um \<noteq> None"
    "getUserCount um' = getUserCount um + (if u = None then 0 else 1)" by auto
  show "spUser s' = Some (newUserBase s)" "userSessionPair um' = userSessionPair um"
    using r by (auto simp: addUserBase_def Let_def allocUserBase_def setUser_def split: if_splits)
qed

lemma deleteUserBase_ok:
  assumes wf: "um_wf um" and u: "spUser s \<noteq> None" and r: "deleteUserBase s um = (s', um')"
  shows "um_wf um'" and "spUser s' = None"
    and "getUser k um' = (if k = identity s then None else getUser k um)"
    and "getUserCount um' + (if getUser (identity s) um = None then 0 else 1) = getUserCount um"
proof -
  let ?f = "filter (\<lambda>e. fst e \<noteq> identity s) (users um)"
  show "spUser s' = None"
    using u r by (auto simp: deleteUserBase_def setUser_def split: option.splits if_splits)
  have um': "um' = (if map_of (users um) (identity s) \<noteq> None then um\<lparr>users := ?f\<rparr> else um)"
    using u r by (auto simp: deleteUserBase_def split: option.splits if_splits)
  show "um_wf um'" using wf um' by (simp add: um_wf_def sorted_wrt_map sorted_wrt_filter)
  show "getUser k um' = (if k = identity s then None else getUser k um)"
    using um' by (auto simp: getUser_def map_of_filter_key)
  show "getUserCount um' + (if getUser (identity s) um = None then 0 else 1) = getUserCount um"
    using um' length_filter_key [OF um_distinct [OF wf], of "identity s"]
    by (auto simp: getUser_def getUserCount_def split: if_splits)
qed

lemma collectTargets_eq:
  "collectTargets us keys =
     (map (\<lambda>k. the (the (map_of us k))) (filter (\<lambda>k. \<exists>p. map_of us k = Some (Some p)) keys),
      filter (\<lambda>k. \<nexists>p. map_of us k = Some (Some p)) keys)"
proof (induction keys)
  case (Cons k keys)
  consider (none) "map_of us k = None" | (null) "map_of us k = Some None"
    | (ok) p where "map_of us k = Some (Some p)"
    by (cases "map_of us k") auto
  then show ?case by cases (use Cons in \<open>simp_all add: Let_def\<close>)
qed simp

text \<open>Closing a user leaves every session in the table.\<close>

lemma closedUser_ok:
  assumes "list_repr (userSessionPair um) m" and "spUser s = Some u"
  obtains um' where "closedUser w s um = Some (Inr um')" and "users um' = users um"
    and "list_repr (userSessionPair um') (m(of_nat (userId u) := None))"
proof -
  obtain p where "deleteUserSessionKeyPair w (of_nat (userId u)) (userSessionPair um) = Some (Inr p)"
      "list_repr p (m(of_nat (userId u) := None))"
    by (rule deleteUserSessionKeyPair_ok [OF assms(1)])
  then show thesis using that assms(2) by (simp add: closedUser_def)
qed

section \<open>Properties\<close>

text \<open>
  Adding and deleting a user are inverse: a session that is not yet listed is listed under its
  identity afterwards and has a user; deleting it again restores every entry and the count, and
  takes the user from the session.
\<close>

lemma user_added_and_deleted:
  assumes "um_wf um" and "getUser (identity s) um = None" and "addUser s um = (u, s1, um1)"
    and "deleteUser s1 um1 = (s2, um2)"
  shows "u = Some (newUserBase s) \<and> spUser s1 = u \<and> getUser (identity s) um1 = Some (Some (identity s))
    \<and> getUserCount um1 = getUserCount um + 1
    \<and> spUser s2 = None \<and> (\<forall>k. getUser k um2 = getUser k um) \<and> getUserCount um2 = getUserCount um"
proof -
  have add: "addUserBase s um = (u, s1, um1)" using assms(3) by (simp add: addUser_def)
  note a = addUserBase_ok [OF assms(1) add]
  have u: "u = Some (newUserBase s)" "identity s1 = identity s"
    using add assms(2) by (auto simp: addUserBase_def getUser_def allocUserBase_def setUser_def Let_def)
  have s1: "spUser s1 \<noteq> None" using a(2) by simp
  note d = deleteUserBase_ok [OF a(1) s1 assms(4) [unfolded deleteUser_def]]
  show ?thesis using a d u assms(2) by simp
qed

subsection \<open>The manager and the sessions\<close>

text \<open>
  The sessions by identity, and the calls of the manager in any order and number: adding and deleting the
  user of a session, and the three operations on the table of user keys.
\<close>

inductive um_run :: "(u64 \<Rightarrow> 'a session_scheme) \<Rightarrow> user_manager \<Rightarrow> (u64 \<Rightarrow> 'a session_scheme) \<Rightarrow> user_manager \<Rightarrow> bool"
  for ss0 um0 where
  um_begin: "um_run ss0 um0 ss0 um0"
| um_add: "um_run ss0 um0 ss um \<Longrightarrow> addUser (ss i) um = (u, s', um') \<Longrightarrow> um_run ss0 um0 (ss(i := s')) um'"
| um_delete: "um_run ss0 um0 ss um \<Longrightarrow> deleteUser (ss i) um = (s', um') \<Longrightarrow> um_run ss0 um0 (ss(i := s')) um'"
| um_closed: "um_run ss0 um0 ss um \<Longrightarrow> closedUser w (ss i) um = Some (Inr um') \<Longrightarrow> um_run ss0 um0 ss um'"
| um_insert_pair: "um_run ss0 um0 ss um \<Longrightarrow> um_insertUserSessionKeyPair a w uk sk um = Some (Inr (x, um')) \<Longrightarrow> um_run ss0 um0 ss um'"
| um_delete_pair: "um_run ss0 um0 ss um \<Longrightarrow> um_deleteUserSessionKeyPair w uk um = Some (Inr um') \<Longrightarrow> um_run ss0 um0 ss um'"

text \<open>The table lists the sessions that have a user, each under its identity.\<close>

definition listed :: "(u64 \<Rightarrow> 'a session_scheme) \<Rightarrow> user_manager \<Rightarrow> bool" where
  "listed ss um \<longleftrightarrow> um_wf um \<and> (\<forall>k. identity (ss k) = k)
     \<and> (\<forall>k. getUser k um = (if spUser (ss k) = None then None else Some (Some k)))"

lemma pair_ops_users:
  "closedUser w s um = Some (Inr um') \<Longrightarrow> users um' = users um"
  "um_insertUserSessionKeyPair a w uk sk um = Some (Inr (x, um')) \<Longrightarrow> users um' = users um"
  "um_deleteUserSessionKeyPair w uk um = Some (Inr um') \<Longrightarrow> users um' = users um"
  by (auto simp: closedUser_def um_insertUserSessionKeyPair_def um_deleteUserSessionKeyPair_def bindR_eq_Inr split: option.splits)

lemma listed_users: "listed ss um \<Longrightarrow> users um' = users um \<Longrightarrow> listed ss um'"
  by (simp add: listed_def um_wf_def getUser_def)

lemma listed_add:
  assumes l: "listed ss um" and r: "addUser (ss i) um = (u, s', um')"
  shows "listed (ss(i := s')) um'"
proof -
  have add: "addUserBase (ss i) um = (u, s', um')" using r by (simp add: addUser_def)
  have "identity s' = identity (ss i)"
    using add by (auto simp: addUserBase_def setUser_def Let_def split: if_splits)
  then show ?thesis using l addUserBase_ok [OF _ add] by (auto simp: listed_def)
qed

lemma listed_delete:
  assumes l: "listed ss um" and r: "deleteUser (ss i) um = (s', um')"
  shows "listed (ss(i := s')) um'"
proof (cases "spUser (ss i)")
  case None
  then show ?thesis using l r by (auto simp: deleteUser_def deleteUserBase_def fun_upd_idem)
next
  case (Some u)
  have del: "deleteUserBase (ss i) um = (s', um')" using r by (simp add: deleteUser_def)
  have "identity s' = identity (ss i)"
    using del by (auto simp: deleteUserBase_def setUser_def split: option.splits if_splits)
  then show ?thesis using l deleteUserBase_ok [OF _ _ del] Some by (auto simp: listed_def)
qed

lemma listed_run: "um_run ss0 um0 ss um \<Longrightarrow> listed ss0 um0 \<Longrightarrow> listed ss um"
  by (induction rule: um_run.induct) (auto intro: listed_add listed_delete listed_users dest: pair_ops_users)

text \<open>The entries of the table and the calls, when the table lists the sessions with a user.\<close>

lemma listed_entries:
  assumes "listed ss um"
  shows "users um = map (\<lambda>k. (k, Some k)) (sorted_list_of_set {k. spUser (ss k) \<noteq> None})"
proof -
  have wf: "um_wf um" and get: "\<And>k. getUser k um = (if spUser (ss k) = None then None else Some (Some k))"
    using assms by (simp_all add: listed_def)
  have entry: "e = (fst e, Some (fst e))" if "e \<in> set (users um)" for e
    using that get [of "fst e"] map_of_is_SomeI [OF um_distinct [OF wf], of "fst e" "snd e"]
    by (auto simp: getUser_def prod_eq_iff split: if_splits)
  have "set (map fst (users um)) = {k. spUser (ss k) \<noteq> None}"
    using get dom_map_of_conv_image_fst [of "users um"] by (auto simp: getUser_def dom_def split: if_splits)
  then have keys: "map fst (users um) = sorted_list_of_set {k. spUser (ss k) \<noteq> None}"
    using wf um_distinct [OF wf] by (metis sorted_list_of_set.idem_if_sorted_distinct strict_sorted_iff um_wf_def)
  have "users um = map (\<lambda>e. (fst e, Some (fst e))) (users um)" using entry by (simp add: map_idI)
  then show ?thesis unfolding keys [symmetric] by (simp add: comp_def)
qed

lemma seqR_map: "seqR f (map g xs) w = seqR (f \<circ> g) xs w"
  by (induction xs arbitrary: w) (simp_all add: bindR_def split: sum.split)

text \<open>
  C23. The manager knows exactly the sessions that have a user. Begin with an empty manager and sessions
  without users, one per identity, and let users be added (again, too), deleted and closed and the table
  of user keys be changed in any order. Then a session is found under its identity if and only if it has a
  user; \<open>getUserCount\<close> is the number of such sessions; \<open>functionForeach\<close> calls back for each of them once,
  in the order of the identities; \<open>functionTarget\<close> with one key calls back for the session with this key if it
  has a user and returns -1 if not; and with a list of keys it calls back for those that have a user, in the
  order given, and returns the others. An empty callback or one that throws ends a call at the first session.
\<close>

theorem manager_lists_sessions_with_user:
  assumes "\<forall>k. identity (ss0 k) = k \<and> spUser (ss0 k) = None" and "um_run ss0 (newUserManager p) ss um"
  shows "getUser k um = (if spUser (ss k) = None then None else Some (Some k))
    \<and> getUserCount um = card {k. spUser (ss k) \<noteq> None}
    \<and> functionForeach cb um w = seqR (callFn2 cb) (sorted_list_of_set {k. spUser (ss k) \<noteq> None}) w
    \<and> functionTarget cb k um w =
        (if spUser (ss k) = None then Inr (- 1, w) else bindR (callFn2 cb k w) (\<lambda>w'. Inr (0, w')))
    \<and> functionTargets cb keys um w =
        bindR (seqR (callFn2 cb) (filter (\<lambda>k. spUser (ss k) \<noteq> None) keys) w)
          (\<lambda>w'. Inr (filter (\<lambda>k. spUser (ss k) = None) keys, w'))"
proof -
  have "listed ss0 (newUserManager p)" using assms(1) by (simp add: listed_def um_wf_def newUserManager_def getUser_def)
  from listed_run [OF assms(2) this] have l: "listed ss um" .
  then have get: "map_of (users um) k = (if spUser (ss k) = None then None else Some (Some k))" for k
    by (simp add: listed_def getUser_def)
  note entries = listed_entries [OF l]
  have "functionForeach cb um w = seqR (callFn2 cb) (sorted_list_of_set {k. spUser (ss k) \<noteq> None}) w"
    unfolding functionForeach_def entries seqR_map by (simp add: comp_def)
  moreover have "collectTargets (users um) keys =
      (filter (\<lambda>k. spUser (ss k) \<noteq> None) keys, filter (\<lambda>k. spUser (ss k) = None) keys)"
    unfolding collectTargets_eq get by (auto intro!: map_idI)
  moreover have "getUserCount um = card {k. spUser (ss k) \<noteq> None}"
    using arg_cong [OF entries, of length] by (simp add: getUserCount_def)
  ultimately show ?thesis by (simp add: getUser_def functionTarget_def functionTargets_def get)
qed

text \<open>In the witness the user of session 3 is added twice, that of session 1 once, and that of session 3 deleted.\<close>

theorem manager_lists_sessions_with_user_witness:
  "\<exists>ss um. um_run (\<lambda>k. newSession TCP None k) (newUserManager (newUserSessionPair 16 (newReclaimer newHazardPointerList))) ss um \<and> getUserCount um = 1
    \<and> functionTargets (Some (\<lambda>k w. Inr (w @ [k]))) [3, 1, 2, 1] um [] = Inr ([3, 2], [1, 1])"
proof -
  let ?m = "newUserManager (newUserSessionPair 16 (newReclaimer newHazardPointerList))"
  let ?ss = "\<lambda>k. newSession TCP None k" and ?u = "\<lambda>k. Some (newUserBase (newSession TCP None k))"
  let ?t = "?ss(3 := setUser (?u 3) (?ss 3))"
  let ?e = "\<lambda>k :: u64. (k, Some k)"
  let ?um = "\<lambda>es. ?m\<lparr>users := es\<rparr>"
  have u: "newUserBase (setUser x s) = newUserBase s" "setUser x (setUser y s) = setUser x s" "identity (setUser x s) = identity s"
      "spUser (setUser x s) = x" for x y and s :: session
    by (simp_all add: newUserBase_def setUser_def)
  have n: "identity (newSession TCP None k) = k" "spUser (newSession TCP None k) = None" for k by (simp_all add: newSession_def)
  have "um_run ?ss ?m ?t (?um [?e 3])"
    by (rule um_add [OF um_begin, where i = 3 and u = "?u 3"]) (simp add: addUser_def addUserBase_def Let_def allocUserBase_def newUserManager_def n)
  then have "um_run ?ss ?m (?t(3 := setUser (?u 3) (?ss 3))) (?um [?e 3])"
    by (rule um_add [where i = 3 and u = None]) (simp add: addUser_def addUserBase_def Let_def allocUserBase_def n u)
  then have r: "um_run ?ss ?m ?t (?um [?e 3])" by simp
  have "um_run ?ss ?m (?t(1 := setUser (?u 1) (?ss 1))) (?um [?e 1, ?e 3])"
    by (rule um_add [OF r, where i = 1 and u = "?u 1"]) (simp add: addUser_def addUserBase_def Let_def allocUserBase_def n u)
  then have run: "um_run ?ss ?m (?t(1 := setUser (?u 1) (?ss 1), 3 := setUser None (?ss 3))) (?um [?e 1])"
    by (rule um_delete [where i = 3]) (simp add: deleteUser_def deleteUserBase_def n u)
  have "{k. spUser ((?t(1 := setUser (?u 1) (?ss 1), 3 := setUser None (?ss 3))) k) \<noteq> None} = {1}" by (auto simp: n u)
  then show ?thesis
    using run manager_lists_sessions_with_user [OF _ run, of _ "Some (\<lambda>k w. Inr (w @ [k]))" "[]" "[3, 1, 2, 1]"]
    by (intro exI conjI) (auto simp: n u)
qed

end
