(* ===== verification/Net_Common.thy ===== *)
theory Net_Common
  imports Packet_Parser
begin

text \<open>
  What an acceptor and a connector have in common: the parameters of a service
  (\<open>src/include/net/serviceParamTypes.h\<close>) and \<open>NetCommonObjects\<close>
  (\<open>src/include/net/netCommonObjects.hpp\<close>), which owns the packet procedure, a copy of the event
  receiver and the update timer. Times are integers, in milliseconds.
\<close>

section \<open>Parameters\<close>

record ('s, 'w) service_params =
  sp_ioc :: nat
  sp_receiver :: "('s, 's packet_procedure, 'w) event_receiver"
  sp_packetParser :: "'s packet_parser option"
  sp_manip :: "packet_manipulator option"
  sp_serviceUpdateTimeMs :: nat
  sp_keepAliveTimeMs :: nat

record acceptor_user_params =
  ap_addr :: "byte list"
  ap_port :: u16
  ap_workerThreadsCount :: nat
  ap_usePortReuseChecking :: bool
  ap_sessionType :: session_type

record connector_user_params =
  cp_addr :: "byte list"
  cp_port :: u16
  cp_sessionType :: session_type

section \<open>Common objects\<close>

text \<open>
  \<open>updaterWaits\<close> counts the waits on the update timer, \<open>updaterAborted\<close> the waits that were
  cancelled and whose handlers have not run yet. \<open>_index\<close> has no initial value in the source; it is 0 here
  until \<open>setIndex\<close>, which the service calls before anything reads it.
\<close>

record ('s, 'w) net_common =
  packetProc :: "'s packet_procedure"
  eventReceiver :: "('s, 's packet_procedure, 'w) event_receiver"
  keepAliveTimeMs :: nat
  updateTimeMs :: nat
  index :: nat
  prevTime :: int
  updaterWaits :: nat
  updaterAborted :: nat

definition newNetCommonObjects :: "('s, 'w) service_params \<Rightarrow> ('s, 'w) net_common result" where
  "newNetCommonObjects svcParams =
     (let pp = newPacketProcedure (sp_packetParser svcParams) (sp_manip svcParams);
          er = clone (sp_receiver svcParams) emptyReceiver
      in bindR (callFn (initHandler er) pp) (\<lambda>pp'.
           Inr \<lparr>packetProc = pp', eventReceiver = er, keepAliveTimeMs = sp_keepAliveTimeMs svcParams,
                updateTimeMs = sp_serviceUpdateTimeMs svcParams, index = 0, prevTime = 0,
                updaterWaits = 0, updaterAborted = 0\<rparr>))"

definition getIndex :: "('s, 'w) net_common \<Rightarrow> nat" where
  "getIndex ob = index ob"

definition setIndex :: "nat \<Rightarrow> ('s, 'w) net_common \<Rightarrow> ('s, 'w) net_common" where
  "setIndex idx ob = ob\<lparr>index := idx\<rparr>"

text \<open>Setting the timer cancels the waits on it; then one new wait is started.\<close>

definition armUpdater :: "('s, 'w) net_common \<Rightarrow> ('s, 'w) net_common" where
  "armUpdater ob = ob\<lparr>updaterAborted := updaterAborted ob + updaterWaits ob, updaterWaits := 1\<rparr>"

definition expireTimerReady :: "int \<Rightarrow> ('s, 'w) net_common \<Rightarrow> ('s, 'w) net_common" where
  "expireTimerReady now ob = (if 0 \<noteq> updateTimeMs ob then armUpdater (ob\<lparr>prevTime := now\<rparr>) else ob)"

text \<open>The elapsed time is converted to \<open>unsigned long\<close>.\<close>

definition handleUpdate :: "error_code \<Rightarrow> int \<Rightarrow> 'w \<Rightarrow> ('s, 'w) net_common
    \<Rightarrow> ('w \<times> ('s, 'w) net_common) result" where
  "handleUpdate ec now w ob =
     (if ec \<noteq> Ec_ok then Inr (w, ob)
      else
        let elapse = nat ((now - prevTime ob) mod 2 ^ 64);
            ob1 = ob\<lparr>prevTime := now\<rparr>
        in bindR (callFn2 (onUpdate (eventReceiver ob1)) elapse w) (\<lambda>w'. Inr (w', armUpdater ob1)))"

section \<open>The update timer\<close>

text \<open>
  The life of the update timer: it is set when the service starts (a connector may start several
  times), it fires, and the handlers of cancelled waits run.
\<close>

inductive update_step :: "'w \<times> ('s, 'w) net_common \<Rightarrow> 'w \<times> ('s, 'w) net_common \<Rightarrow> bool" where
  start: "update_step (w, ob) (w, expireTimerReady now ob)"
| fires: "updaterWaits ob = Suc n \<Longrightarrow> handleUpdate Ec_ok now w (ob\<lparr>updaterWaits := n\<rparr>) = Inr (w', ob')
    \<Longrightarrow> update_step (w, ob) (w', ob')"
| aborted: "updaterAborted ob = Suc n \<Longrightarrow>
    handleUpdate Ec_operation_aborted now w (ob\<lparr>updaterAborted := n\<rparr>) = Inr (w', ob') \<Longrightarrow>
    update_step (w, ob) (w', ob')"

text \<open>
  There is never more than one wait on the timer, and once the service has started there is
  exactly one: the updates go on for as long as they do not throw.
\<close>

lemma update_step_waits:
  assumes "update_step (w, ob) (w', ob')" and "updaterWaits ob \<le> 1"
  shows "updaterWaits ob' \<le> 1" and "updaterWaits ob = 1 \<Longrightarrow> updaterWaits ob' = 1"
  using assms
  by (auto elim!: update_step.cases
      simp: expireTimerReady_def armUpdater_def handleUpdate_def Let_def bindR_eq_Inr split: if_splits)

lemma handleUpdate_elapse:
  assumes "onUpdate (eventReceiver ob) = Some f" and "prevTime ob \<le> now" and "now < prevTime ob + 2 ^ 64"
  shows "handleUpdate Ec_ok now w ob =
    bindR (f (nat (now - prevTime ob)) w) (\<lambda>w'. Inr (w', armUpdater (ob\<lparr>prevTime := now\<rparr>)))"
  using assms by (simp add: handleUpdate_def Let_def)

lemma newNetCommonObjects_ok:
  assumes "initHandler (sp_receiver p) = Some f"
  shows "newNetCommonObjects p =
    bindR (f (newPacketProcedure (sp_packetParser p) (sp_manip p))) (\<lambda>pp.
      Inr \<lparr>packetProc = pp, eventReceiver = sp_receiver p, keepAliveTimeMs = sp_keepAliveTimeMs p,
           updateTimeMs = sp_serviceUpdateTimeMs p, index = 0, prevTime = 0, updaterWaits = 0,
           updaterAborted = 0\<rparr>)"
  using assms by (simp add: newNetCommonObjects_def clone_eq)

section \<open>Properties\<close>

inductive update_reach :: "'w \<times> ('s, 'w) net_common \<Rightarrow> 'w \<times> ('s, 'w) net_common \<Rightarrow> bool" for x where
  here: "update_reach x x"
| more: "update_reach x y \<Longrightarrow> update_step y z \<Longrightarrow> update_reach x z"

text \<open>
  The update timer neither stops nor multiplies: from a service whose timer is armed, with
  any further starts, ticks and aborted waits, there is always exactly one wait on the timer.
\<close>

lemma one_update_wait:
  assumes "update_reach x y" and "updaterWaits (snd x) = 1"
  shows "updaterWaits (snd y) = 1"
  using assms
proof (induction rule: update_reach.induct)
  case (more y z)
  obtain w ob w' ob' where "y = (w, ob)" "z = (w', ob')" by fastforce
  then show ?case using update_step_waits(2) [of w ob w' ob'] more by simp
qed

text \<open>A service without a packet table, for the sake of an example.\<close>

definition plainService :: "(nat, nat) net_common" where
  "plainService = \<lparr>packetProc = newPacketProcedure None None, eventReceiver = emptyReceiver,
     keepAliveTimeMs = 0, updateTimeMs = 1000, index = 0, prevTime = 0, updaterWaits = 0,
     updaterAborted = 0\<rparr>"

end
