(* ===== verification/Acceptor.thy ===== *)
theory Acceptor
  imports Net_Common "HOL-Library.Multiset"
begin

text \<open>
  \<open>NetServiceAcceptor\<close>, \<open>src/include/net/netServiceAcceptor.hpp\<close>: listening on a TCP and a
  websocket port, the accept loops of both, and the websocket handshake.

  An accept or a handshake that was started and has not completed is a field of the state. The
  event receiver works on a session together with what the sessions of the application share,
  \<open>'a\<close>, which is kept here between callbacks.
\<close>

section \<open>State\<close>

text \<open>What the operating system answers when a port is opened.\<close>

record listen_result =
  lr_resolves :: bool
  lr_opens :: bool
  lr_binds :: bool
  lr_listens :: bool

record ('a, 'w) acceptor =
  a_netObj :: "('a session_scheme, 'w) net_common"
  tcpAccept :: "session option"
  webAccept :: "session option"
  handshakes :: "(session \<times> nat option) list"
  a_sessions :: "session list"
  a_serviceIndex :: nat
  identitySeed :: u64
  a_shared :: 'a

text \<open>The constructor leaves \<open>_serviceIndex\<close> as the memory has it, here \<open>idx\<close>.\<close>

definition newNetServiceAcceptor :: "nat \<Rightarrow> u64 \<Rightarrow> 'a \<Rightarrow> ('a session_scheme, 'w) service_params
    \<Rightarrow> ('a, 'w) acceptor result" where
  "newNetServiceAcceptor idx seed sh svcParams =
     bindR (newNetCommonObjects svcParams) (\<lambda>ob.
       Inr \<lparr>a_netObj = ob, tcpAccept = None, webAccept = None, handshakes = [], a_sessions = [],
            a_serviceIndex = idx, identitySeed = seed, a_shared = sh\<rparr>)"

section \<open>Operations\<close>

definition acceptorSession :: "session_type \<Rightarrow> ('a, 'w) acceptor \<Rightarrow> session \<times> ('a, 'w) acceptor" where
  "acceptorSession st acc =
     (let (s, seed) = create st (getManip (packetProc (a_netObj acc)))
                        (keepAliveTimeMs (a_netObj acc)) 0 (identitySeed acc)
      in (setServiceID (a_serviceIndex acc) s, acc\<lparr>identitySeed := seed\<rparr>))"

text \<open>
  The lambda \<open>createSession\<close> of \<open>acceptWait\<close>: dereferencing the empty result of a failed
  resolution is undefined, setting an option of an acceptor that could not be opened throws.
\<close>

definition createSession :: "session_type \<Rightarrow> byte list \<Rightarrow> u16 \<Rightarrow> (byte list \<Rightarrow> u16 \<Rightarrow> listen_result)
    \<Rightarrow> ('a, 'w) acceptor \<Rightarrow> (session option \<times> ('a, 'w) acceptor) result" where
  "createSession st addr port os acc =
     (let (s, acc1) = acceptorSession st acc;
          ipAddr = (if addr = [] then str ''0.0.0.0'' else addr);
          r = os ipAddr port
      in if \<not> lr_resolves r then Inl (Undefined ''end of resolver results'')
         else if \<not> lr_opens r then Inl (Other_exception ''set_option'')
         else if \<not> lr_binds r then Inr (None, acc1)
         else if \<not> lr_listens r then Inr (None, acc1)
         else Inr (Some s, acc1))"

definition acceptWait :: "byte list \<Rightarrow> u16 \<Rightarrow> u16 \<Rightarrow> (byte list \<Rightarrow> u16 \<Rightarrow> listen_result) \<Rightarrow> int
    \<Rightarrow> ('a, 'w) acceptor \<Rightarrow> (bool \<times> ('a, 'w) acceptor) result" where
  "acceptWait addr portTcp portWebsocket os now acc =
     bindR (createSession TCP addr portTcp os acc) (\<lambda>(tcp, acc1).
       case tcp of
         None \<Rightarrow> Inr (False, acc1)
       | Some s \<Rightarrow>
           (let acc2 = acc1\<lparr>tcpAccept := Some s\<rparr> in
            bindR (createSession WEBSOCKET addr portWebsocket os acc2) (\<lambda>(web, acc3).
              case web of
                None \<Rightarrow> Inr (False, acc3)
              | Some s' \<Rightarrow>
                  Inr (True, acc3\<lparr>webAccept := Some s',
                                  a_netObj := expireTimerReady now (a_netObj acc3)\<rparr>))))"

text \<open>The handshake is given the time limit of the keep-alive time, if that is set.\<close>

definition handleWebsocketLayer :: "error_code \<Rightarrow> session \<Rightarrow> ('a, 'w) acceptor \<Rightarrow> ('a, 'w) acceptor" where
  "handleWebsocketLayer ec s acc =
     (if ec = Ec_ok then
        let ms = keepAliveTimeMs (a_netObj acc)
        in acc\<lparr>handshakes := handshakes acc @ [(s, if ms = 0 then None else Some ms)]\<rparr>
      else acc)"

text \<open>\<open>remote\<close> is the peer's address; asking for it throws when the peer is gone.\<close>

definition handleAccept :: "error_code \<Rightarrow> (byte list \<times> nat) option \<Rightarrow> session \<Rightarrow> ('a, 'w) acceptor
    \<Rightarrow> ('a, 'w) acceptor result" where
  "handleAccept ec remote s acc =
     (if ec = Ec_ok then
        (case remote of
           None \<Rightarrow> Inl (Other_exception ''remote_endpoint'')
         | Some ep \<Rightarrow>
             bindR (callFn (onAccept (eventReceiver (a_netObj acc)))
                      (session.extend (saveEndPoint ep s) (a_shared acc))) (\<lambda>s1.
               let s2 = startAccept s1;
                   acc1 = acc\<lparr>a_sessions := a_sessions acc @ [session.truncate s2],
                              a_shared := session.more s2\<rparr>;
                   (n, acc2) = acceptorSession (sessionType s2) acc1
               in Inr (if sessionType n = TCP then acc2\<lparr>tcpAccept := Some n\<rparr>
                       else acc2\<lparr>webAccept := Some n\<rparr>)))
      else Inr acc)"

section \<open>The accept loops\<close>

text \<open>Completions of the accepts and handshakes in flight; a completed accept opens the socket.\<close>

inductive accept_step :: "('a, 'w) acceptor \<Rightarrow> ('a, 'w) acceptor \<Rightarrow> bool" where
  tcp: "tcpAccept acc = Some s \<Longrightarrow>
    handleAccept ec remote (s\<lparr>socketOpen := (ec = Ec_ok)\<rparr>) (acc\<lparr>tcpAccept := None\<rparr>) = Inr acc' \<Longrightarrow>
    accept_step acc acc'"
| web: "webAccept acc = Some s \<Longrightarrow>
    acc' = handleWebsocketLayer ec (s\<lparr>socketOpen := (ec = Ec_ok)\<rparr>) (acc\<lparr>webAccept := None\<rparr>) \<Longrightarrow>
    accept_step acc acc'"
| handshake: "handshakes acc = hs @ (s, t) # hs' \<Longrightarrow>
    handleAccept ec remote s (acc\<lparr>handshakes := hs @ hs'\<rparr>) = Inr acc' \<Longrightarrow>
    accept_step acc acc'"

inductive accept_reach :: "('a, 'w) acceptor \<Rightarrow> ('a, 'w) acceptor \<Rightarrow> bool" for acc0 where
  start: "accept_reach acc0 acc0"
| step: "accept_reach acc0 acc \<Longrightarrow> accept_step acc acc' \<Longrightarrow> accept_reach acc0 acc'"

text \<open>
  A session that waits to be accepted is a new one: nothing but its socket, its service id and its
  address have been set.
\<close>

definition fresh_session :: "session_type \<Rightarrow> session \<Rightarrow> bool" where
  "fresh_session st s \<longleftrightarrow>
     (\<exists>manip ms c i b n e. s = (fst (create st manip ms c i))\<lparr>socketOpen := b, netServiceID := n, endPoint := e\<rparr>)"

definition acceptor_inv :: "('a, 'w) acceptor \<Rightarrow> bool" where
  "acceptor_inv acc \<longleftrightarrow>
     (\<forall>s. tcpAccept acc = Some s \<longrightarrow> fresh_session TCP s)
   \<and> (\<forall>s. webAccept acc = Some s \<longrightarrow> fresh_session WEBSOCKET s)
   \<and> (\<forall>h \<in> set (handshakes acc). fresh_session WEBSOCKET (fst h))
   \<and> length (handshakes acc) + (if webAccept acc = None then 0 else 1) \<le> 1"

definition sessionsOf :: "session_type \<Rightarrow> ('a, 'w) acceptor \<Rightarrow> session list" where
  "sessionsOf st acc = filter (\<lambda>s. sessionType s = st) (a_sessions acc)"

definition pendingIds :: "('a, 'w) acceptor \<Rightarrow> u64 list" where
  "pendingIds acc = map identity (case tcpAccept acc of None \<Rightarrow> [] | Some s \<Rightarrow> [s])
     @ map identity (case webAccept acc of None \<Rightarrow> [] | Some s \<Rightarrow> [s])
     @ map (identity \<circ> fst) (handshakes acc)"

definition ids_ok :: "('a, 'w) acceptor \<Rightarrow> bool" where
  "ids_ok acc \<longleftrightarrow> distinct (map identity (a_sessions acc) @ pendingIds acc)
     \<and> (\<forall>i \<in> set (map identity (a_sessions acc) @ pendingIds acc). i < identitySeed acc)"

lemma startAccept_fields [simp]:
  "sessionType (startAccept s) = sessionType s" "identity (startAccept s) = identity s"
  "socketStatus (startAccept s) = OPEN"
  by (simp_all add: startAccept_def renewExpireTime_def asyncRead_def emit_def cancelKeepAlive_def Let_def)

lemma session_truncate [simp]:
  "sessionType (session.truncate s) = sessionType s" "identity (session.truncate s) = identity s"
  "socketStatus (session.truncate s) = socketStatus s"
  by (simp_all add: session.truncate_def)

lemma truncate_extend [simp]: "session.truncate (session.extend s x) = s" for s :: session
  by (simp add: session.extend_def session.truncate_def)

lemma session_inv_truncate [simp]: "session_inv (session.truncate s) = session_inv s"
  by (simp add: session_inv_def inv_parts session.truncate_def)

lemma fresh_session_type: "fresh_session st s \<Longrightarrow> sessionType s = st"
  by (auto simp: fresh_session_def create_def newSession_def)

lemma fresh_session_new: "fresh_session st (setServiceID n (fst (create st manip ms c i)))"
  by (auto simp: fresh_session_def create_def newSession_def setServiceID_def)

lemma fresh_session_open: "fresh_session st s \<Longrightarrow> fresh_session st (s\<lparr>socketOpen := b\<rparr>)"
  by (auto simp: fresh_session_def create_def newSession_def)

text \<open>The acceptor after a successful accept: one session more, and the next accept under way.\<close>

definition nextAccept :: "session_type \<Rightarrow> 'a session_scheme \<Rightarrow> ('a, 'w) acceptor \<Rightarrow> ('a, 'w) acceptor" where
  "nextAccept st s1 acc =
     (let n = setServiceID (a_serviceIndex acc)
                (fst (create st (getManip (packetProc (a_netObj acc))) (keepAliveTimeMs (a_netObj acc)) 0 (identitySeed acc)));
          acc1 = acc\<lparr>a_sessions := a_sessions acc @ [session.truncate (startAccept s1)],
                     a_shared := session.more (startAccept s1), identitySeed := identitySeed acc + 1\<rparr>
      in if st = TCP then acc1\<lparr>tcpAccept := Some n\<rparr> else acc1\<lparr>webAccept := Some n\<rparr>)"

text \<open>What the acceptor needs of the application's \<open>onAccept\<close>.\<close>

locale acceptor_env =
  fixes er :: "('a session_scheme, 'a session_scheme packet_procedure, 'w) event_receiver"
  assumes onAccept_api: "callFn (onAccept er) s = Inr s' \<Longrightarrow> api_ext s s'"
begin

lemma handleAccept_ok:
  assumes er: "eventReceiver (a_netObj acc) = er" and s: "sessionType s = st"
    and run: "handleAccept Ec_ok remote s acc = Inr acc'"
  obtains ep s1 where "remote = Some ep"
    and "api_ext (session.extend (saveEndPoint ep s) (a_shared acc)) s1"
    and "acc' = nextAccept st s1 acc"
proof -
  obtain ep s1 where ep: "remote = Some ep"
    and s1: "callFn (onAccept er) (session.extend (saveEndPoint ep s) (a_shared acc)) = Inr s1"
    using run er by (auto simp: handleAccept_def bindR_eq_Inr split: option.splits)
  have api: "api_ext (session.extend (saveEndPoint ep s) (a_shared acc)) s1"
    by (rule onAccept_api [OF s1])
  then have st: "sessionType s1 = st"
    using s by (simp add: api_ext_def session.extend_def saveEndPoint_def)
  have "acc' = nextAccept st s1 acc"
    using run s1 er ep st
    by (auto simp: handleAccept_def nextAccept_def acceptorSession_def create_def Let_def
        setServiceID_def newSession_def)
  then show thesis using that ep api by blast
qed

text \<open>Which completion a step is, and what it leaves.\<close>

lemma step_cases:
  assumes "accept_step acc acc'" and er: "eventReceiver (a_netObj acc) = er" and inv: "acceptor_inv acc"
  obtains
    (failed) "acc' = acc\<lparr>tcpAccept := None\<rparr> \<or> acc' = acc\<lparr>webAccept := None\<rparr>
        \<or> (\<exists>hs h hs'. handshakes acc = hs @ h # hs' \<and> acc' = acc\<lparr>handshakes := hs @ hs'\<rparr>)"
  | (tcp) s ep s1 where "tcpAccept acc = Some s"
      "api_ext (session.extend (saveEndPoint ep (s\<lparr>socketOpen := True\<rparr>)) (a_shared acc)) s1"
      "acc' = nextAccept TCP s1 (acc\<lparr>tcpAccept := None\<rparr>)"
  | (web) s t where "webAccept acc = Some s"
      "acc' = acc\<lparr>webAccept := None, handshakes := handshakes acc @ [(s\<lparr>socketOpen := True\<rparr>, t)]\<rparr>"
  | (handshake) s t hs hs' ep s1 where "handshakes acc = hs @ (s, t) # hs'"
      "api_ext (session.extend (saveEndPoint ep s) (a_shared acc)) s1"
      "acc' = nextAccept WEBSOCKET s1 (acc\<lparr>handshakes := hs @ hs'\<rparr>)"
  using assms(1)
proof cases
  case (tcp s ec remote)
  show thesis
  proof (cases "ec = Ec_ok")
    case True
    have st: "sessionType (s\<lparr>socketOpen := True\<rparr>) = TCP"
      using inv tcp(1) by (simp add: acceptor_inv_def fresh_session_type)
    have "eventReceiver (a_netObj (acc\<lparr>tcpAccept := None\<rparr>)) = er" using er by simp
    then obtain ep s1 where
      "api_ext (session.extend (saveEndPoint ep (s\<lparr>socketOpen := True\<rparr>)) (a_shared acc)) s1"
      "acc' = nextAccept TCP s1 (acc\<lparr>tcpAccept := None\<rparr>)"
      by (rule handleAccept_ok [OF _ st, of _ remote acc']) (use tcp(2) True in simp_all)
    then show thesis by (rule that(2) [OF tcp(1)])
  next
    case False
    then show thesis using tcp that(1) by (simp add: handleAccept_def)
  qed
next
  case (web s ec)
  show thesis
  proof (cases "ec = Ec_ok")
    case True
    then show thesis using web that(3) by (simp add: handleWebsocketLayer_def Let_def)
  next
    case False
    then show thesis using web that(1) by (simp add: handleWebsocketLayer_def)
  qed
next
  case (handshake hs s t hs' ec remote)
  show thesis
  proof (cases "ec = Ec_ok")
    case True
    have st: "sessionType s = WEBSOCKET"
      using inv handshake(1) by (simp add: acceptor_inv_def fresh_session_type)
    have "eventReceiver (a_netObj (acc\<lparr>handshakes := hs @ hs'\<rparr>)) = er" using er by simp
    then obtain ep s1 where "api_ext (session.extend (saveEndPoint ep s) (a_shared acc)) s1"
      "acc' = nextAccept WEBSOCKET s1 (acc\<lparr>handshakes := hs @ hs'\<rparr>)"
      by (rule handleAccept_ok [OF _ st, of _ remote acc']) (use handshake(2) True in simp_all)
    then show thesis by (rule that(4) [OF handshake(1)])
  next
    case False
    then have "acc' = acc\<lparr>handshakes := hs @ hs'\<rparr>" using handshake by (simp add: handleAccept_def)
    then show thesis using handshake(1) that(1) by blast
  qed
qed

lemma step_netObj: "accept_step acc acc' \<Longrightarrow> a_netObj acc' = a_netObj acc"
  by (auto elim!: accept_step.cases simp: handleAccept_def handleWebsocketLayer_def acceptorSession_def
      create_def bindR_eq_Inr Let_def split: if_splits option.splits)

lemma accept_step_inv:
  assumes "accept_step acc acc'" and "eventReceiver (a_netObj acc) = er" and "acceptor_inv acc"
  shows "acceptor_inv acc'"
  using assms
proof (cases rule: step_cases)
  case failed
  then show ?thesis using assms(3) by (auto simp: acceptor_inv_def split: if_splits)
next
  case (tcp s ep s1)
  then show ?thesis using assms(3) by (auto simp: acceptor_inv_def nextAccept_def Let_def fresh_session_new)
next
  case (web s t)
  then show ?thesis using assms(3) by (auto simp: acceptor_inv_def fresh_session_open)
next
  case (handshake s t hs hs' ep s1)
  then show ?thesis
    using assms(3) by (auto simp: acceptor_inv_def nextAccept_def Let_def fresh_session_new split: if_splits)
qed

text \<open>The session that a successful accept starts is in a state its invariant describes.\<close>

lemma accepted_session_inv:
  assumes "fresh_session st s" and "api_ext (session.extend (saveEndPoint ep s) sh) s1"
  shows "session_inv (session.truncate (startAccept s1))"
proof -
  obtain manip ms c i b n e where s: "s = (fst (create st manip ms c i))\<lparr>socketOpen := b, netServiceID := n, endPoint := e\<rparr>"
    using assms(1) by (auto simp: fresh_session_def)
  let ?s0 = "session.extend (fst (create st manip ms c i)) sh"
  have "api_ext (?s0\<lparr>socketOpen := b\<rparr>) s1"
    using assms(2) by (simp add: s api_ext_def session.extend_def saveEndPoint_def create_def newSession_def)
  from start_inv(1) [OF truncate_extend this] show ?thesis by simp
qed

text \<open>A loop whose accept has failed is never started again.\<close>

lemma tcp_dead:
  assumes "accept_step acc acc'" and "eventReceiver (a_netObj acc) = er" and "acceptor_inv acc"
    and "tcpAccept acc = None"
  shows "tcpAccept acc' = None" and "sessionsOf TCP acc' = sessionsOf TCP acc"
proof -
  have "tcpAccept acc' = None \<and> sessionsOf TCP acc' = sessionsOf TCP acc"
    using assms(1-3)
  proof (cases rule: step_cases)
    case (handshake s t hs hs' ep s1)
    have "sessionType s = WEBSOCKET"
      using assms(3) handshake(1) by (simp add: acceptor_inv_def fresh_session_type)
    then have "sessionType s1 = WEBSOCKET"
      using handshake(2) by (simp add: api_ext_def session.extend_def saveEndPoint_def)
    then show ?thesis using handshake(3) assms(4) by (simp add: nextAccept_def Let_def sessionsOf_def)
  qed (use assms(4) in \<open>auto simp: sessionsOf_def\<close>)
  then show "tcpAccept acc' = None" "sessionsOf TCP acc' = sessionsOf TCP acc" by auto
qed

text \<open>Identities are never given twice, as long as the counter does not wrap.\<close>

lemma nextAccept_ids:
  assumes "ids_ok acc0" and "identitySeed acc0 + 1 \<noteq> 0"
    and "a_sessions acc = a_sessions acc0" and "identitySeed acc = identitySeed acc0"
    and "mset (identity s1 # pendingIds acc) = mset (pendingIds acc0)"
    and "if st = TCP then tcpAccept acc = None else webAccept acc = None"
  shows "ids_ok (nextAccept st s1 acc)"
proof -
  let ?seed = "identitySeed acc0" and ?N = "nextAccept st s1 acc"
  let ?old = "map identity (a_sessions acc0) @ pendingIds acc0"
  have up: "i < ?seed + 1 \<longleftrightarrow> i < ?seed \<or> i = ?seed" for i
    using assms(2) unatSuc [of ?seed] by (auto simp: word_less_nat_alt word_unat_eq_iff add.commute)
  have "mset (pendingIds ?N) = add_mset ?seed (mset (pendingIds acc))"
    using assms(4,6)
    by (cases st) (auto simp: pendingIds_def nextAccept_def Let_def setServiceID_def create_def newSession_def
        split: option.split)
  then have "mset (map identity (a_sessions ?N) @ pendingIds ?N) = mset (?seed # ?old)"
    using assms(3,5) by (auto simp: nextAccept_def Let_def simp flip: assms(5))
  moreover have "distinct (?seed # ?old)" "\<forall>i \<in> set (?seed # ?old). i < ?seed + 1"
    using assms(1) up by (auto simp: ids_ok_def)
  moreover have "identitySeed ?N = ?seed + 1" using assms(4) by (simp add: nextAccept_def Let_def)
  ultimately show ?thesis
    unfolding ids_ok_def by (metis mset_eq_imp_distinct_iff mset_eq_setD)
qed

lemma ids_ok_less:
  assumes "ids_ok acc" and "a_sessions acc' = a_sessions acc" and "identitySeed acc' = identitySeed acc"
    and "mset (pendingIds acc) = mset (pendingIds acc' @ zs)"
  shows "ids_ok acc'"
proof -
  define xs ys where "xs = map identity (a_sessions acc) @ pendingIds acc"
    and "ys = map identity (a_sessions acc') @ pendingIds acc'"
  have "mset xs = mset (ys @ zs)" using assms(2,4) by (simp add: xs_def ys_def)
  then have "distinct xs = distinct (ys @ zs)" "set xs = set (ys @ zs)"
    by (rule mset_eq_imp_distinct_iff, rule mset_eq_setD)
  then show ?thesis using assms(1,3) unfolding ids_ok_def xs_def [symmetric] ys_def [symmetric] by auto
qed

lemma accept_step_ids:
  assumes "accept_step acc acc'" and "eventReceiver (a_netObj acc) = er" and "acceptor_inv acc"
    and "ids_ok acc" and "identitySeed acc + 1 \<noteq> 0"
  shows "ids_ok acc'"
  using assms(1-3)
proof (cases rule: step_cases)
  case failed
  then have "\<exists>zs. a_sessions acc' = a_sessions acc \<and> identitySeed acc' = identitySeed acc
      \<and> mset (pendingIds acc) = mset (pendingIds acc' @ zs)"
  proof (elim disjE exE conjE)
    assume "acc' = acc\<lparr>tcpAccept := None\<rparr>"
    then show ?thesis
      by (cases "tcpAccept acc")
         (auto simp: pendingIds_def intro: exI [of _ "[]"] exI [of _ "[identity (the (tcpAccept acc))]"])
  next
    assume "acc' = acc\<lparr>webAccept := None\<rparr>"
    then show ?thesis
      by (cases "webAccept acc")
         (auto simp: pendingIds_def intro: exI [of _ "[]"] exI [of _ "[identity (the (webAccept acc))]"])
  next
    fix hs h hs'
    assume "handshakes acc = hs @ h # hs'" "acc' = acc\<lparr>handshakes := hs @ hs'\<rparr>"
    then show ?thesis by (auto simp: pendingIds_def intro: exI [of _ "[identity (fst h)]"])
  qed
  then show ?thesis using ids_ok_less [OF assms(4)] by blast
next
  case (tcp s ep s1)
  have "identity s1 = identity s"
    using tcp(2) by (simp add: api_ext_def session.extend_def saveEndPoint_def)
  then show ?thesis unfolding tcp(3)
    by (intro nextAccept_ids [OF assms(4,5)]) (use tcp(1) in \<open>simp_all add: pendingIds_def\<close>)
next
  case (web s t)
  then have "mset (pendingIds acc) = mset (pendingIds acc' @ [])" by (simp add: pendingIds_def)
  then show ?thesis by (rule ids_ok_less [OF assms(4), rotated 2]) (simp_all add: web(2))
next
  case (handshake s t hs hs' ep s1)
  have "identity s1 = identity s"
    using handshake(2) by (simp add: api_ext_def session.extend_def saveEndPoint_def)
  moreover have "webAccept acc = None"
    using assms(3) handshake(1) by (auto simp: acceptor_inv_def split: if_splits)
  ultimately show ?thesis unfolding handshake(3)
    by (intro nextAccept_ids [OF assms(4,5)]) (use handshake(1) in \<open>simp_all add: pendingIds_def\<close>)
qed

text \<open>Everything the acceptor reaches from a state of the invariant.\<close>

lemma reach_acceptor_inv:
  assumes "accept_reach acc0 acc" and "eventReceiver (a_netObj acc0) = er" and "acceptor_inv acc0"
  shows "acceptor_inv acc \<and> a_netObj acc = a_netObj acc0"
  using assms(1)
proof induction
  case start
  then show ?case using assms(3) by simp
next
  case (step acc acc')
  then show ?case using accept_step_inv [OF step.hyps(2)] step_netObj assms(2) by metis
qed

lemma reach_tcp_dead:
  assumes "accept_reach acc0 acc" and "eventReceiver (a_netObj acc0) = er" and "acceptor_inv acc0"
    and "tcpAccept acc0 = None"
  shows "tcpAccept acc = None \<and> sessionsOf TCP acc = sessionsOf TCP acc0"
  using assms(1)
proof induction
  case start
  then show ?case using assms(4) by simp
next
  case (step acc acc')
  have "acceptor_inv acc" "eventReceiver (a_netObj acc) = er"
    using reach_acceptor_inv [OF step.hyps(1) assms(2,3)] assms(2) by auto
  then show ?case using tcp_dead [OF step.hyps(2)] step.IH by simp
qed

lemma reach_sessions_inv:
  assumes "accept_reach acc0 acc" and "eventReceiver (a_netObj acc0) = er" and "acceptor_inv acc0"
    and "\<forall>s \<in> set (a_sessions acc0). session_inv s"
  shows "\<forall>s \<in> set (a_sessions acc). session_inv s"
  using assms(1)
proof induction
  case start
  then show ?case using assms(4) by simp
next
  case (step acc acc')
  have inv: "acceptor_inv acc" and er: "eventReceiver (a_netObj acc) = er"
    using reach_acceptor_inv [OF step.hyps(1) assms(2,3)] assms(2) by auto
  show ?case using step.hyps(2) er inv
  proof (cases rule: step_cases)
    case failed
    then show ?thesis using step.IH by auto
  next
    case (tcp s ep s1)
    have "fresh_session TCP (s\<lparr>socketOpen := True\<rparr>)"
      using inv tcp(1) by (simp add: acceptor_inv_def fresh_session_open)
    from accepted_session_inv [OF this tcp(2)] show ?thesis
      using tcp(3) step.IH by (auto simp: nextAccept_def Let_def)
  next
    case (web s t)
    then show ?thesis using step.IH by auto
  next
    case (handshake s t hs hs' ep s1)
    have "fresh_session WEBSOCKET s" using inv handshake(1) by (simp add: acceptor_inv_def)
    from accepted_session_inv [OF this handshake(2)] show ?thesis
      using handshake(3) step.IH by (auto simp: nextAccept_def Let_def)
  qed
qed

end

text \<open>Starting to listen, from a new acceptor.\<close>

lemma acceptWait_ok:
  assumes "acceptWait addr p q os now acc = Inr (b, acc')" and "tcpAccept acc = None"
    and "webAccept acc = None" and "handshakes acc = []"
  shows "acceptor_inv acc'" and "b \<longleftrightarrow> webAccept acc' \<noteq> None" and "b \<Longrightarrow> tcpAccept acc' \<noteq> None"
    and "a_sessions acc' = a_sessions acc"
    and "eventReceiver (a_netObj acc') = eventReceiver (a_netObj acc)"
proof -
  have "acceptor_inv acc' \<and> (b \<longleftrightarrow> webAccept acc' \<noteq> None) \<and> (b \<longrightarrow> tcpAccept acc' \<noteq> None)
      \<and> a_sessions acc' = a_sessions acc
      \<and> eventReceiver (a_netObj acc') = eventReceiver (a_netObj acc)"
    using assms
    by (auto simp: acceptWait_def createSession_def acceptorSession_def split_beta bindR_eq_Inr Let_def
        acceptor_inv_def fresh_session_new expireTimerReady_def armUpdater_def
        split: if_splits option.splits)
  then show "acceptor_inv acc'" "b \<longleftrightarrow> webAccept acc' \<noteq> None" "b \<Longrightarrow> tcpAccept acc' \<noteq> None"
    "a_sessions acc' = a_sessions acc" "eventReceiver (a_netObj acc') = eventReceiver (a_netObj acc)"
    by auto
qed

end
