(* ===== verification/Connector.thy ===== *)
theory Connector
  imports Acceptor
begin

text \<open>
  \<open>NetServiceConnector\<close>, \<open>src/include/net/netServiceConnector.hpp\<close>: resolving the server's address
  once, connecting synchronously, and connecting a number of sessions one after the other.
\<close>

section \<open>State\<close>

text \<open>
  The resolver, its query and its result are created together by the first \<open>setEndPoint\<close>; if the
  resolution throws, the result stays the end iterator.
\<close>

datatype resolver_state = Unresolved | Resolved "byte list \<times> nat" | EndIterator

record ('a, 'w) connector =
  c_netObj :: "('a session_scheme, 'w) net_common"
  targetAddr :: "byte list"
  targetPort :: u16
  resolver :: resolver_state
  connecting :: "(session \<times> u16) list"
  c_sessions :: "session list"
  c_identitySeed :: u64
  c_shared :: 'a

definition setTargetServer :: "byte list \<Rightarrow> u16 \<Rightarrow> ('a, 'w) connector \<Rightarrow> ('a, 'w) connector" where
  "setTargetServer addr port c = c\<lparr>targetAddr := addr, targetPort := port\<rparr>"

definition newNetServiceConnector :: "u64 \<Rightarrow> 'a \<Rightarrow> ('a session_scheme, 'w) service_params
    \<Rightarrow> connector_user_params \<Rightarrow> ('a, 'w) connector result" where
  "newNetServiceConnector seed sh svcParams connectorParams =
     bindR (newNetCommonObjects svcParams) (\<lambda>ob.
       Inr (setTargetServer (cp_addr connectorParams) (cp_port connectorParams)
         \<lparr>c_netObj = ob, targetAddr = [], targetPort = 0, resolver = Unresolved, connecting = [],
          c_sessions = [], c_identitySeed = seed, c_shared = sh\<rparr>))"

section \<open>Operations\<close>

text \<open>\<open>dns\<close> is the resolution of a name; \<open>None\<close> means that it throws.\<close>

definition setEndPoint :: "(byte list \<Rightarrow> u16 \<Rightarrow> (byte list \<times> nat) option) \<Rightarrow> byte list \<Rightarrow> u16
    \<Rightarrow> ('a, 'w) connector \<Rightarrow> bool \<times> ('a, 'w) connector" where
  "setEndPoint dns addr port c =
     (let ipAddr = (if addr = [] then str ''127.0.0.1'' else addr) in
      case resolver c of
        Unresolved \<Rightarrow>
          (case dns ipAddr port of
             None \<Rightarrow> (False, c\<lparr>resolver := EndIterator\<rparr>)
           | Some ep \<Rightarrow> (True, c\<lparr>resolver := Resolved ep\<rparr>))
      | EndIterator \<Rightarrow> (False, c)
      | Resolved ep \<Rightarrow> (True, c))"

text \<open>\<open>opens\<close>: the socket can be opened and its options set; otherwise the call throws.\<close>

definition createConnectSession :: "bool \<Rightarrow> nat \<Rightarrow> ('a, 'w) connector
    \<Rightarrow> session result \<times> ('a, 'w) connector" where
  "createConnectSession opens connectionID c =
     (let (s, seed) = create TCP (getManip (packetProc (c_netObj c)))
                        (keepAliveTimeMs (c_netObj c)) connectionID (c_identitySeed c);
          s1 = setServiceID (index (c_netObj c)) s;
          c1 = c\<lparr>c_identitySeed := seed\<rparr>
      in (if opens then Inr (s1\<lparr>socketOpen := True\<rparr>) else Inl (Other_exception ''open''), c1))"

text \<open>The two event callbacks, called with what the sessions share.\<close>

definition callSession :: "('a session_scheme \<Rightarrow> 'a session_scheme result) option \<Rightarrow> session
    \<Rightarrow> ('a, 'w) connector \<Rightarrow> (session \<times> ('a, 'w) connector) result" where
  "callSession f s c =
     bindR (callFn f (session.extend s (c_shared c))) (\<lambda>s1.
       Inr (session.truncate s1, c\<lparr>c_shared := session.more s1\<rparr>))"

text \<open>
  \<open>handleConnectSync\<close>: the session is started before the application is told. A started session
  stays on its own even if the callback throws.
\<close>

definition handleConnectSync :: "(byte list \<times> nat) option \<Rightarrow> session \<Rightarrow> ('a, 'w) connector
    \<Rightarrow> session result \<times> ('a, 'w) connector" where
  "handleConnectSync remote s c =
     (case remote of
        None \<Rightarrow> (Inl (Other_exception ''remote_endpoint''), c)
      | Some ep \<Rightarrow>
          (let s1 = startConnect TCP (saveEndPoint ep s) in
           case callSession (onConnect (eventReceiver (c_netObj c))) s1 c of
             Inl f \<Rightarrow> (Inl f, c\<lparr>c_sessions := c_sessions c @ [s1]\<rparr>)
           | Inr (s2, c1) \<Rightarrow> (Inr s2, c1\<lparr>c_sessions := c_sessions c1 @ [s2]\<rparr>)))"

text \<open>
  Exceptions inside the \<open>try\<close> block end in a null result. \<open>connects\<close>: the blocking connect
  succeeds.
\<close>

definition connectSync :: "(byte list \<Rightarrow> u16 \<Rightarrow> (byte list \<times> nat) option) \<Rightarrow> bool \<Rightarrow> bool
    \<Rightarrow> (byte list \<times> nat) option \<Rightarrow> int \<Rightarrow> byte list \<Rightarrow> u16 \<Rightarrow> nat \<Rightarrow> ('a, 'w) connector
    \<Rightarrow> (session option \<times> ('a, 'w) connector) result" where
  "connectSync dns opens connects remote now addr port connectionID c =
     (let (ok, c1) = setEndPoint dns addr port c in
      if \<not> ok then Inr (None, c1)
      else
        let (r, c2) = createConnectSession opens connectionID c1;
            (r', c3) = (case r of
               Inl f \<Rightarrow> (Inl f, c2)
             | Inr s \<Rightarrow> if \<not> connects then (Inl (Other_exception ''connect''), c2)
                        else handleConnectSync remote s c2)
        in case r' of
             Inl f \<Rightarrow> if is_exception f then Inr (None, c3) else Inl f
           | Inr s \<Rightarrow> Inr (Some s, c3\<lparr>c_netObj := expireTimerReady now (c_netObj c3)\<rparr>))"

definition connectorConnect :: "(byte list \<Rightarrow> u16 \<Rightarrow> (byte list \<times> nat) option) \<Rightarrow> bool \<Rightarrow> bool
    \<Rightarrow> (byte list \<times> nat) option \<Rightarrow> int \<Rightarrow> ('a, 'w) connector
    \<Rightarrow> (session option \<times> ('a, 'w) connector) result" where
  "connectorConnect dns opens connects remote now c =
     connectSync dns opens connects remote now (targetAddr c) (targetPort c) 0 c"

definition connectAsync :: "(byte list \<Rightarrow> u16 \<Rightarrow> (byte list \<times> nat) option) \<Rightarrow> bool \<Rightarrow> int
    \<Rightarrow> byte list \<Rightarrow> u16 \<Rightarrow> u16 \<Rightarrow> nat \<Rightarrow> ('a, 'w) connector \<Rightarrow> bool \<times> ('a, 'w) connector" where
  "connectAsync dns opens now addr port sessionCnt connectionID c =
     (let (ok, c1) = setEndPoint dns addr port c in
      if \<not> ok then (False, c1)
      else
        let (r, c2) = createConnectSession opens connectionID c1
        in case r of
             Inl f \<Rightarrow> (False, c2)
           | Inr s \<Rightarrow>
               (True, c2\<lparr>connecting := connecting c2 @ [(s, sessionCnt - 1)],
                         c_netObj := expireTimerReady now (c_netObj c2)\<rparr>))"

definition connectWait :: "(byte list \<Rightarrow> u16 \<Rightarrow> (byte list \<times> nat) option) \<Rightarrow> bool \<Rightarrow> int
    \<Rightarrow> u16 \<Rightarrow> nat \<Rightarrow> ('a, 'w) connector \<Rightarrow> ('a, 'w) connector" where
  "connectWait dns opens now sessionCnt connectionID c =
     snd (connectAsync dns opens now (targetAddr c) (targetPort c) sessionCnt connectionID c)"

text \<open>
  The completion of an asynchronous connect. Closing the socket again when it is closed already
  has no effect.
\<close>

definition handleConnectAsync :: "error_code \<Rightarrow> (byte list \<times> nat) option \<Rightarrow> bool \<Rightarrow> session \<Rightarrow> u16
    \<Rightarrow> ('a, 'w) connector \<Rightarrow> (bool \<times> ('a, 'w) connector) result" where
  "handleConnectAsync ec remote opens s remainCnt c =
     (if \<not> socketOpen s then
        bindR (callSession (onConnectFailed (eventReceiver (c_netObj c))) s c) (\<lambda>(s', c1). Inr (False, c1))
      else if ec \<noteq> Ec_ok then
        bindR (callSession (onConnectFailed (eventReceiver (c_netObj c))) (s\<lparr>socketOpen := False\<rparr>) c)
          (\<lambda>(s', c1). Inr (False, c1))
      else
        (case remote of
           None \<Rightarrow> Inl (Other_exception ''remote_endpoint'')
         | Some ep \<Rightarrow>
             (let s1 = startConnect TCP (saveEndPoint ep s) in
              bindR (callSession (onConnect (eventReceiver (c_netObj c))) s1 c) (\<lambda>(s2, c1).
                let c2 = c1\<lparr>c_sessions := c_sessions c1 @ [s2]\<rparr> in
                if 0 < remainCnt then
                  (let (r, c3) = createConnectSession opens 0 c2 in
                   case r of
                     Inl f \<Rightarrow> Inr (False, c3)
                   | Inr n \<Rightarrow> Inr (True, c3\<lparr>connecting := connecting c3 @ [(n, remainCnt - 1)]\<rparr>))
                else Inr (True, c2)))))"

section \<open>Connecting a number of sessions\<close>

text \<open>
  The completions one after the other: an outcome per attempt. The loop ends when no connect is
  under way.
\<close>

fun runConnects :: "(error_code \<times> (byte list \<times> nat) option \<times> bool) list \<Rightarrow> ('a, 'w) connector
    \<Rightarrow> ('a, 'w) connector result" where
  "runConnects [] c = Inr c"
| "runConnects ((ec, remote, opens) # outs) c =
     (case connecting c of
        [] \<Rightarrow> Inr c
      | (s, remainCnt) # rest \<Rightarrow>
          bindR (handleConnectAsync ec remote opens s remainCnt (c\<lparr>connecting := rest\<rparr>))
            (\<lambda>(b, c'). runConnects outs c'))"

lemma setEndPoint_sticky:
  "fst (setEndPoint dns addr port c) = False \<Longrightarrow>
   fst (setEndPoint dns' addr' port' (snd (setEndPoint dns addr port c))) = False"
  unfolding setEndPoint_def Let_def
  by (cases "resolver c"; cases "dns (if addr = [] then str ''127.0.0.1'' else addr) port") simp_all

lemma setEndPoint_ignores_target:
  assumes "resolver c = Resolved ep"
  shows "setEndPoint dns addr port c = (True, c)"
  using assms by (simp add: setEndPoint_def)

text \<open>A session as the connector has it when its socket is connected.\<close>

definition connectedSession :: "packet_manipulator option \<Rightarrow> nat \<Rightarrow> u64 \<Rightarrow> byte list \<times> nat \<Rightarrow> session" where
  "connectedSession manip n i ep =
     startConnect TCP (saveEndPoint ep ((setServiceID n (newSession TCP manip i))\<lparr>socketOpen := True\<rparr>))"

text \<open>What the connector needs of \<open>onConnect\<close>: it returns, and it uses the session's interface.\<close>

locale connector_env =
  fixes er :: "('a session_scheme, 'a session_scheme packet_procedure, 'w) event_receiver"
    and manip :: "packet_manipulator option"
  assumes onConnect_ok: "\<exists>s'. callFn (onConnect er) (session.extend (connectedSession manip n i ep) sh) = Inr s'
      \<and> api_ext (session.extend (connectedSession manip n i ep) sh) s'"
begin

lemma handleConnectAsync_ok:
  assumes "eventReceiver (c_netObj c) = er" and "getManip (packetProc (c_netObj c)) = manip"
  obtains c1 s' where "c_netObj c1 = c_netObj c" and "connecting c1 = connecting c"
    and "c_identitySeed c1 = c_identitySeed c" and "c_sessions c1 = c_sessions c @ [s']"
    and "api_ext (connectedSession manip n i ep) s'"
    and "handleConnectAsync Ec_ok (Some ep) True
        ((setServiceID n (newSession TCP manip i))\<lparr>socketOpen := True\<rparr>) r c =
      Inr (True, if 0 < r
        then c1\<lparr>connecting := connecting c1 @
                 [((setServiceID (index (c_netObj c)) (newSession TCP manip (c_identitySeed c)))\<lparr>socketOpen := True\<rparr>, r - 1)],
               c_identitySeed := c_identitySeed c + 1\<rparr>
        else c1)"
proof -
  let ?s = "connectedSession manip n i ep"
  obtain s' where s': "callFn (onConnect er) (session.extend ?s (c_shared c)) = Inr s'"
      "api_ext (session.extend ?s (c_shared c)) s'"
    using onConnect_ok by blast
  let ?c = "c\<lparr>c_shared := session.more s', c_sessions := c_sessions c @ [session.truncate s']\<rparr>"
  have "api_ext ?s (session.truncate s')"
    using s'(2) by (simp add: api_ext_def session.extend_def session.truncate_def)
  moreover have "handleConnectAsync Ec_ok (Some ep) True
        ((setServiceID n (newSession TCP manip i))\<lparr>socketOpen := True\<rparr>) r c =
      Inr (True, if 0 < r
        then ?c\<lparr>connecting := connecting ?c @
                 [((setServiceID (index (c_netObj c)) (newSession TCP manip (c_identitySeed c)))\<lparr>socketOpen := True\<rparr>, r - 1)],
               c_identitySeed := c_identitySeed c + 1\<rparr>
        else ?c)"
    using s'(1) assms
    by (simp add: handleConnectAsync_def callSession_def connectedSession_def createConnectSession_def
        create_def Let_def)
  ultimately show thesis by (intro that [of ?c "session.truncate s'"]) simp_all
qed

text \<open>With no failure, exactly the wanted number of sessions is started, one after the other.\<close>

lemma runConnects_all:
  assumes "eventReceiver (c_netObj c) = er" and "getManip (packetProc (c_netObj c)) = manip"
    and "connecting c = [((setServiceID n (newSession TCP manip i))\<lparr>socketOpen := True\<rparr>, of_nat k)]"
    and "k < 2 ^ 16"
  shows "\<exists>c'. runConnects (replicate (Suc k) (Ec_ok, Some ep, True)) c = Inr c'
    \<and> connecting c' = [] \<and> length (c_sessions c') = length (c_sessions c) + Suc k"
  using assms
proof (induction k arbitrary: c n i)
  case (0 c n i)
  then show ?case
    by (auto intro: handleConnectAsync_ok [of "c\<lparr>connecting := []\<rparr>" n i ep 0])
next
  case (Suc k c n i)
  let ?c = "c\<lparr>connecting := []\<rparr>"
  have pos: "0 < (of_nat (Suc k) :: u16)"
    using Suc.prems(4) unat_of_nat [of "Suc k", where ?'a = 16]
    by (simp add: word_less_nat_alt del: of_nat_Suc)
  have dec: "of_nat (Suc k) - 1 = (of_nat k :: u16)" by simp
  have er: "eventReceiver (c_netObj ?c) = er" and mn: "getManip (packetProc (c_netObj ?c)) = manip"
    using Suc.prems(1,2) by simp_all
  obtain c1 s' where c1: "c_netObj c1 = c_netObj ?c" "connecting c1 = connecting ?c"
      "c_sessions c1 = c_sessions ?c @ [s']"
    and run: "handleConnectAsync Ec_ok (Some ep) True
        ((setServiceID n (newSession TCP manip i))\<lparr>socketOpen := True\<rparr>) (of_nat (Suc k)) ?c =
      Inr (True, if 0 < (of_nat (Suc k) :: u16)
        then c1\<lparr>connecting := connecting c1 @
                 [((setServiceID (index (c_netObj ?c)) (newSession TCP manip (c_identitySeed ?c)))\<lparr>socketOpen := True\<rparr>,
                   of_nat (Suc k) - 1)],
               c_identitySeed := c_identitySeed ?c + 1\<rparr>
        else c1)"
    by (rule handleConnectAsync_ok [OF er mn])
  let ?d = "c1\<lparr>connecting :=
      [((setServiceID (index (c_netObj c)) (newSession TCP manip (c_identitySeed c)))\<lparr>socketOpen := True\<rparr>, of_nat k)],
      c_identitySeed := c_identitySeed c + 1\<rparr>"
  have "handleConnectAsync Ec_ok (Some ep) True
      ((setServiceID n (newSession TCP manip i))\<lparr>socketOpen := True\<rparr>) (of_nat (Suc k)) ?c = Inr (True, ?d)"
    using run pos dec c1(2) by (simp del: of_nat_Suc)
  then have "runConnects (replicate (Suc (Suc k)) (Ec_ok, Some ep, True)) c =
      runConnects (replicate (Suc k) (Ec_ok, Some ep, True)) ?d"
    using Suc.prems(3) by (simp del: of_nat_Suc replicate_Suc add: replicate_Suc [of "Suc k"])
  then show ?case
    using Suc.IH [of ?d "index (c_netObj c)" "c_identitySeed c"] Suc.prems(1,2,4) c1 by simp
qed

end

section \<open>Properties\<close>

text \<open>
  A connector resolves its target once: after a failed resolution every later attempt fails,
  whatever the name service then says, and after a successful one the end point stays, whatever
  \<open>setTargetServer\<close> is called with.
\<close>

lemma resolution_is_final:
  "setEndPoint dns addr port c = (ok, c1) \<Longrightarrow>
   setEndPoint dns' addr' port' (setTargetServer a p c1) = (ok, setTargetServer a p c1)"
  unfolding setEndPoint_def Let_def setTargetServer_def
  by (cases "resolver c"; cases "dns (if addr = [] then str ''127.0.0.1'' else addr) port") auto

text \<open>A connector without a packet table, for the sake of an example.\<close>

definition plainConnector :: "(unit, nat) connector" where
  "plainConnector = \<lparr>c_netObj = \<lparr>packetProc = newPacketProcedure None None, eventReceiver = emptyReceiver,
       keepAliveTimeMs = 0, updateTimeMs = 1000, index = 0, prevTime = 0, updaterWaits = 0,
       updaterAborted = 0\<rparr>,
     targetAddr = [], targetPort = 80, resolver = Unresolved, connecting = [], c_sessions = [],
     c_identitySeed = 1, c_shared = ()\<rparr>"

end
