(* ===== verification/Sample_Server.thy ===== *)
theory Sample_Server
  imports User_Manager Connector
begin

text \<open>
  The sample application, \<open>src/mlnserver/\<close>: the server's event receiver
  (\<open>serviceEventReceiver.cpp\<close>, \<open>user.h\<close>, \<open>userManager.h\<close>), which answers the JSON request
  \<open>/lobby/login\<close>, and the sample client (\<open>clientSample/sampleConnector.h\<close>).

  The global \<open>g_userManager\<close> is kept beside the session, in an extension of its record, so that the
  callbacks of the server are functions on the extended session. The JSON library is a parameter,
  the record \<open>json_lib\<close> of the functions the sample uses of it.
\<close>

section \<open>The JSON library\<close>

text \<open>
  The null value, parsing, the member of an object, the conversion to a string, printing, and the
  object with the members \<open>url\<close> and \<open>body\<close>.
\<close>

record 'j json_lib =
  jl_null :: 'j
  jl_parse :: "byte list \<Rightarrow> 'j result"
  jl_member :: "byte list \<Rightarrow> 'j \<Rightarrow> 'j result"
  jl_toString :: "'j \<Rightarrow> byte list result"
  jl_serialize :: "'j \<Rightarrow> byte list"
  jl_object :: "byte list \<Rightarrow> byte list \<Rightarrow> 'j"

definition jsonParser :: "'j json_lib \<Rightarrow> 'j json_parser" where
  "jsonParser L = boostjson_parse (jl_null L) (jl_parse L) (jl_member L) (jl_toString L)"

section \<open>Server\<close>

record server_session = session +
  g_userManager :: user_manager

definition url_lobby_login :: "byte list" where "url_lobby_login = str ''/lobby/login''"

definition SE_onAccept :: "server_session \<Rightarrow> server_session result" where
  "SE_onAccept s = (let (u, s1, um) = addUser s (g_userManager s) in Inr (s1\<lparr>g_userManager := um\<rparr>))"

text \<open>\<open>w\<close> counts spurious failures of the atomic operations in \<open>closedUser\<close>.\<close>

definition SE_onClose :: "nat \<Rightarrow> server_session \<Rightarrow> server_session result" where
  "SE_onClose w s =
     (case closedUser w s (g_userManager s) of
        None \<Rightarrow> Inl (Undefined ''no return'')
      | Some r \<Rightarrow> bindR r (\<lambda>um. Inr (s\<lparr>g_userManager := um\<rparr>)))"

definition SE_onUpdate :: "nat \<Rightarrow> unit \<Rightarrow> unit result" where
  "SE_onUpdate deltaMs w = Inr w"

definition SE_noHandler :: "server_session \<Rightarrow> byte_stream \<Rightarrow> server_session result" where
  "SE_noHandler s packet = Inr (closeReserve 0 None s)"

definition SE_onAcceptFailed :: "server_session \<Rightarrow> server_session result" where
  "SE_onAcceptFailed s = Inr s"

definition SE_onCloseFailed :: "server_session \<Rightarrow> server_session result" where
  "SE_onCloseFailed s = Inr s"

definition SE_onExpiredSession :: "server_session \<Rightarrow> server_session result" where
  "SE_onExpiredSession s = Inr (closeReserve 0 None s)"

text \<open>
  A user's weak pointer leads to its session, here the session at hand if the user belongs to it.
\<close>

definition lockSession :: "user \<Rightarrow> 'a session_scheme \<Rightarrow> 'a session_scheme option" where
  "lockSession u s = (if userSession u = identity s then Some s else None)"

definition keepSession :: "'a session_scheme \<Rightarrow> (int \<times> 'a session_scheme option) result
    \<Rightarrow> fault option \<times> 'a session_scheme" where
  "keepSession s r = (case r of
      Inl f \<Rightarrow> (Some f, s)
    | Inr (n, None) \<Rightarrow> (None, s)
    | Inr (n, Some s') \<Rightarrow> (None, s'))"

text \<open>
  The handler of \<open>/lobby/login\<close> sends the body back, in the form of the user's session type;
  \<open>mem\<close> is the memory in which \<open>sendJsonPacket\<close> builds the packet.
\<close>

definition loginHandler :: "byte list \<Rightarrow> 'j json_lib \<Rightarrow> ('a session_scheme, 'j) url_handler" where
  "loginHandler mem L u url jv s =
     (let replyString = jl_serialize L jv
      in keepSession s
           (if userSessionType u = TCP
            then sendJsonPacket mem EncType_GREETING url replyString (lockSession u s)
            else sendJsonWebsocketPacket (jl_serialize L (jl_object L url replyString)) (lockSession u s)))"

definition SE_jsonHandler :: "byte list \<Rightarrow> 'j json_lib \<Rightarrow> (server_session, 'j) json_handler" where
  "SE_jsonHandler mem L =
     registJsonPacketHandler url_lobby_login (loginHandler mem L)
       (setJsonBodyParser (Some (jsonParser L)) newJsonHandler)"

definition SE_initHandler :: "(server_session, 'j) json_handler \<Rightarrow> server_session packet_procedure
    \<Rightarrow> server_session packet_procedure result" where
  "SE_initHandler jh pp = Inr (init jh pp)"

definition ServiceEventReceiver :: "nat \<Rightarrow> (server_session, 'j) json_handler
    \<Rightarrow> (server_session, server_session packet_procedure, unit) receiver_class" where
  "ServiceEventReceiver w jh =
     \<lparr>m_onAccept = SE_onAccept, m_onAcceptFailed = SE_onAcceptFailed,
      m_onConnect = Inr, m_onConnectFailed = Inr,
      m_onClose = SE_onClose w, m_onCloseFailed = SE_onCloseFailed,
      m_onExpiredSession = SE_onExpiredSession, m_onUpdate = SE_onUpdate,
      m_noHandler = SE_noHandler, m_initHandler = SE_initHandler jh\<rparr>"

definition serverReceiver :: "nat \<Rightarrow> (server_session, 'j) json_handler
    \<Rightarrow> (server_session, server_session packet_procedure, unit) event_receiver" where
  "serverReceiver w jh = EventReceiverAcceptorRegister (ServiceEventReceiver w jh)"

section \<open>Client\<close>

text \<open>\<open>remote\<close> says whether \<open>remote_endpoint()\<close> of the session's socket has a value; otherwise it throws.\<close>

definition sampleLoginBody :: "byte list" where
  "sampleLoginBody =
     str (''\<newline>  {\<newline>    \"how\": \"are\",\<newline>    \"you\": \"Im\",\<newline>    \"fine\": \"thx\",\<newline>''
          @ ''    \"andu\": \"hello everyone\"\<newline>}\<newline> '')"

definition SC_onConnect :: "byte list \<Rightarrow> ('a session_scheme \<Rightarrow> bool) \<Rightarrow> 'a session_scheme
    \<Rightarrow> 'a session_scheme result" where
  "SC_onConnect mem remote s =
     (if \<not> remote s then Inl (Other_exception ''remote_endpoint'')
      else
        let u = newUserBase s;
            s1 = setUser (Some u) s
        in bindR (sendJsonPacket mem EncType_GREETING url_lobby_login sampleLoginBody (lockSession u s1))
             (\<lambda>(n, r). Inr (case r of None \<Rightarrow> s1 | Some s2 \<Rightarrow> s2)))"

definition SC_onClose :: "('a session_scheme \<Rightarrow> bool) \<Rightarrow> 'a session_scheme \<Rightarrow> 'a session_scheme result" where
  "SC_onClose remote s =
     (if \<not> remote s then Inl (Other_exception ''remote_endpoint'') else Inr s)"

definition SC_loginHandler :: "('a session_scheme, 'j) url_handler" where
  "SC_loginHandler u url jv s = (None, s)"

definition SC_jsonHandler :: "'j json_lib \<Rightarrow> ('a session_scheme, 'j) json_handler" where
  "SC_jsonHandler L =
     registJsonPacketHandler url_lobby_login SC_loginHandler
       (setJsonBodyParser (Some (jsonParser L)) newJsonHandler)"

definition SampleConnector :: "byte list \<Rightarrow> ('a session_scheme \<Rightarrow> bool) \<Rightarrow> ('a session_scheme, 'j) json_handler
    \<Rightarrow> ('a session_scheme, 'a session_scheme packet_procedure, 'w) receiver_class" where
  "SampleConnector mem remote jh =
     \<lparr>m_onAccept = Inr, m_onAcceptFailed = Inr,
      m_onConnect = SC_onConnect mem remote, m_onConnectFailed = Inr,
      m_onClose = SC_onClose remote, m_onCloseFailed = Inr,
      m_onExpiredSession = Inr, m_onUpdate = (\<lambda>elapse w. Inr w),
      m_noHandler = (\<lambda>s packet. Inr s), m_initHandler = (\<lambda>pp. Inr (init jh pp))\<rparr>"

definition clientReceiver :: "byte list \<Rightarrow> ('a session_scheme \<Rightarrow> bool) \<Rightarrow> ('a session_scheme, 'j) json_handler
    \<Rightarrow> ('a session_scheme, 'a session_scheme packet_procedure, 'w) event_receiver" where
  "clientReceiver mem remote jh = EventReceiverConnectorRegister (SampleConnector mem remote jh)"

section \<open>The callbacks keep to the session's interface\<close>

lemma sendByteStream_stream:
  "sendByteStream bs wh (s\<lparr>recvStream := x\<rparr>) =
     bindR (sendByteStream bs wh s) (\<lambda>s'. Inr (s'\<lparr>recvStream := x\<rparr>))"
  by (auto simp: sendByteStream_def send_def bindR_def asyncWrite_def emit_def split: sum.split)

lemma sendRaw_stream:
  "sendRaw bs (s\<lparr>recvStream := x\<rparr>) = bindR (sendRaw bs s) (\<lambda>s'. Inr (s'\<lparr>recvStream := x\<rparr>))"
  by (auto simp: sendRaw_def bindR_def asyncWrite_def emit_def split: sum.split)

text \<open>
  What a user's send operations do with the session they lock: nothing, or one send through the
  session's interface.
\<close>

lemma sendJsonPacket_cases:
  "(\<exists>f. \<forall>lock :: 'a session_scheme option. sendJsonPacket mem enc url body lock = Inl f)
   \<or> (\<exists>bs. \<forall>lock :: 'a session_scheme option.
        sendJsonPacket mem enc url body lock = userSend enc bs False lock)"
  unfolding sendJsonPacket_def Let_def by (auto split: if_split)

lemma keepSession_send:
  assumes "\<And>t. f t = (case lockSession u t of
      Some r \<Rightarrow> bindR (g r) (\<lambda>r'. Inr (n, Some r')) | None \<Rightarrow> Inr (0, None))"
    and "\<And>t t'. g t = Inr t' \<Longrightarrow> api_ext t t'"
    and "\<And>t x. g (t\<lparr>recvStream := x\<rparr>) = bindR (g t) (\<lambda>t'. Inr (t'\<lparr>recvStream := x\<rparr>))"
  shows "api_ext s (snd (keepSession s (f s)))"
    and "keepSession (s\<lparr>recvStream := x\<rparr>) (f (s\<lparr>recvStream := x\<rparr>)) =
      (fst (keepSession s (f s)), (snd (keepSession s (f s)))\<lparr>recvStream := x\<rparr>)"
  using assms(2) [of s]
  by (auto simp: assms(1,3) keepSession_def lockSession_def bindR_def split: sum.split)

lemma loginHandler_ok:
  "api_ext s (snd (loginHandler mem L u url jv s))
   \<and> loginHandler mem L u url jv (s\<lparr>recvStream := x\<rparr>) =
      (fst (loginHandler mem L u url jv s),
       (snd (loginHandler mem L u url jv s))\<lparr>recvStream := x\<rparr>)"
proof (cases "userSessionType u = TCP")
  case True
  let ?f = "\<lambda>t. sendJsonPacket mem EncType_GREETING url (jl_serialize L jv) (lockSession u t)"
  have h: "loginHandler mem L u url jv t = keepSession t (?f t)"
    for t :: "'a session_scheme"
    using True by (simp add: loginHandler_def)
  consider (fails) f where "\<forall>lock :: 'a session_scheme option.
      sendJsonPacket mem EncType_GREETING url (jl_serialize L jv) lock = Inl f"
    | (sends) bs where "\<forall>lock :: 'a session_scheme option.
      sendJsonPacket mem EncType_GREETING url (jl_serialize L jv) lock = userSend EncType_GREETING bs False lock"
    using sendJsonPacket_cases by blast
  then show ?thesis
  proof cases
    case fails
    then show ?thesis by (simp add: h keepSession_def)
  next
    case sends
    show ?thesis unfolding h
      by (intro conjI keepSession_send [where g = "sendByteStream bs False" and n = "int (length bs)"
              and f = ?f and u = u])
         (auto simp: sends userSend_def sendByteStream_stream dest: api_sendByteStream split: option.split)
  qed
next
  case False
  let ?p = "jl_serialize L (jl_object L url (jl_serialize L jv))"
  let ?f = "\<lambda>t. sendJsonWebsocketPacket ?p (lockSession u t)"
  have h: "loginHandler mem L u url jv t = keepSession t (?f t)"
    for t :: "'a session_scheme"
    using False by (simp add: loginHandler_def)
  show ?thesis unfolding h
    by (intro conjI keepSession_send [where g = "sendRaw ?p" and n = "int (length ?p)" and f = ?f and u = u])
       (auto simp: sendJsonWebsocketPacket_def sendRaw_stream dest: api_sendRaw split: option.split)
qed

lemmas loginHandler_api = conjunct1 [OF loginHandler_ok]
lemmas loginHandler_stream = conjunct2 [OF loginHandler_ok]

lemmas SE_json_defs = SE_jsonHandler_def registJsonPacketHandler_def setJsonBodyParser_def newJsonHandler_def

interpretation server_urls: url_handlers
  "SE_jsonHandler mem L"
  for mem L
  by unfold_locales (auto simp: SE_json_defs loginHandler_api loginHandler_stream split: if_splits)

interpretation client_urls: url_handlers
  "SC_jsonHandler L"
  for L
  by unfold_locales (auto simp: SC_jsonHandler_def SC_loginHandler_def registJsonPacketHandler_def
      setJsonBodyParser_def newJsonHandler_def split: if_splits)

text \<open>The packet procedure of the server, set up as the constructor of its service does.\<close>

definition serverProcedure :: "nat \<Rightarrow> (server_session, 'j) json_handler \<Rightarrow> server_session packet_procedure" where
  "serverProcedure w jh =
     init jh (newPacketProcedure
       (Some (parse (serverReceiver w jh))) (Some s_packetManip))"

abbreviation serverTable :: "nat \<Rightarrow> (server_session, 'j) json_handler \<Rightarrow> server_session packet_map" where
  "serverTable w jh \<equiv> staticElements (serverProcedure w jh)"

interpretation server_packets: packet_handlers
  "serverTable w (SE_jsonHandler mem L)"
  for w mem L
  unfolding serverProcedure_def by (rule server_urls.init_handlers)

lemmas serverReceiver_defs = serverReceiver_def EventReceiverAcceptorRegister_def ServiceEventReceiver_def
  emptyReceiver_def

lemma SE_onClose_api: "SE_onClose w s = Inr s' \<Longrightarrow> api_ext s s'"
  by (auto simp: SE_onClose_def bindR_eq_Inr api_ext_def intro: exI [of _ "[]"] split: option.splits)

interpretation server_parser: parser_env
  "serverTable w (SE_jsonHandler mem L)"
  "serverReceiver w (SE_jsonHandler mem L)"
  for w mem L
  by unfold_locales
     (auto simp: serverReceiver_defs SE_noHandler_def SE_onExpiredSession_def
       intro: api_closeReserve dest: SE_onClose_api)

lemma serverProcedure_parser:
  "packetParsingFunction (serverProcedure w jh) = Some (parse (serverReceiver w jh))"
  by (simp add: serverProcedure_def init_def registPacket_def newPacketProcedure_def Let_def
      split: prod.split)

interpretation server_session: session_env
  "serverReceiver w (SE_jsonHandler mem L)"
  "dispatch (serverProcedure w (SE_jsonHandler mem L))"
  for w mem L
  by (rule server_parser.dispatch_session_env) (simp_all add: serverProcedure_parser)

lemma serverProcedure_service:
  assumes "sp_receiver p = serverReceiver w jh" and "sp_packetParser p = Some (parse (serverReceiver w jh))"
    and "sp_manip p = Some s_packetManip"
  shows "\<exists>ob. newNetCommonObjects p = Inr ob \<and> packetProc ob = serverProcedure w jh
    \<and> eventReceiver ob = serverReceiver w jh"
  using assms
  by (simp add: newNetCommonObjects_def clone_eq serverReceiver_defs SE_initHandler_def serverProcedure_def)

lemma SE_onAccept_api: "SE_onAccept s = Inr s' \<Longrightarrow> api_ext s s'"
  by (auto simp: SE_onAccept_def addUser_def addUserBase_def setUser_def api_ext_def Let_def
      intro: exI [of _ "[]"] split: if_splits)

lemma dispatch_closed: "socketStatus s \<noteq> OPEN \<Longrightarrow> \<exists>b. dispatch pp s = Some (Inr (b, s))"
  by (auto simp: dispatch_def)

lemma userManager_more: "session.more s = session.more t \<Longrightarrow> g_userManager s = g_userManager t"
  for s t :: server_session
  by (cases s; cases t) simp

text \<open>The last step of a close on the server.\<close>

lemma server_onClose:
  assumes "socketStatus s \<noteq> CLOSED" and "spUser s = Some u"
    and "list_repr (userSessionPair (g_userManager s)) m"
  shows "\<exists>s'. onClose (serverReceiver w jh) s = Inr s' \<and> socketStatus s' = CLOSED \<and> \<not> socketOpen s'
    \<and> users (g_userManager s') = users (g_userManager s)
    \<and> list_repr (userSessionPair (g_userManager s')) (m(of_nat (userId u) := None))"
proof -
  let ?c = "emit F_onClose (cancelCloseReserve (cancelKeepAlive (setSocketStatus CLOSED s)))"
  have c: "spUser ?c = Some u" "g_userManager ?c = g_userManager s" "socketStatus ?c = CLOSED"
    using assms(2) by (simp_all add: session_ops)
  obtain um' where um: "closedUser w ?c (g_userManager s) = Some (Inr um')"
    "users um' = users (g_userManager s)"
    "list_repr (userSessionPair um') (m(of_nat (userId u) := None))"
    by (rule closedUser_ok [OF assms(3) c(1)])
  have "onClose (serverReceiver w jh) s = Inr (closeSocket (?c\<lparr>g_userManager := um'\<rparr>))"
    using um(1) assms(1) c(2) by (simp add: onClose_def serverReceiver_defs SE_onClose_def Let_def)
  then show ?thesis using um c by (auto simp: closeSocket_def emit_def)
qed

lemma SE_onAccept_returns: "\<exists>s'. SE_onAccept s = Inr s'"
  by (cases "addUser s (g_userManager s)") (simp add: SE_onAccept_def)

interpretation server_accept: acceptor_env "serverReceiver w jh" for w jh
  by unfold_locales (auto simp: serverReceiver_defs dest: SE_onAccept_api)

section \<open>The client on a new connection\<close>

text \<open>Uninitialised memory for a packet: any contents.\<close>

definition stackMem :: "(nat \<Rightarrow> byte) \<Rightarrow> byte list" where
  "stackMem g = map g [0..<sizeof_PT_JSON]"

lemma length_stackMem [simp]: "length (stackMem g) = sizeof_PT_JSON"
  by (simp add: stackMem_def)

lemma sample_lengths: "length url_lobby_login = 12" "length sampleLoginBody = 91"
  by (simp_all add: url_lobby_login_def sampleLoginBody_def str_def)

lemma SC_onConnect_sends:
  assumes "sessionManip s = Some s_packetManip" and "remote s"
  shows "SC_onConnect (stackMem g) remote s =
    Inr (asyncWrite (wirePacket url_lobby_login sampleLoginBody) (setUser (Some (newUserBase s)) s))"
proof -
  let ?s = "setUser (Some (newUserBase s)) s"
  have "lockSession (newUserBase s) ?s = Some ?s"
    by (simp add: lockSession_def newUserBase_def setUser_def)
  moreover have "sessionManip ?s = Some s_packetManip" using assms(1) by (simp add: setUser_def)
  then have "sendJsonPacket (stackMem g) EncType_GREETING url_lobby_login sampleLoginBody (Some ?s) =
      Inr (int (HEADER_SIZE + length sampleLoginBody),
           Some (asyncWrite (wirePacket url_lobby_login sampleLoginBody) ?s))"
    by (intro sendJsonPacket_sends) (simp_all add: sample_lengths MAX_URL_STRING_def MAX_BODY_SIZE_def)
  ultimately show ?thesis using assms(2) by (simp add: SC_onConnect_def Let_def)
qed

interpretation client_connect: connector_env
  "clientReceiver (stackMem g) (\<lambda>s. True) jh" "Some s_packetManip" for g jh
proof (unfold_locales, goal_cases)
  case (1 n i ep sh)
  let ?s = "session.extend (connectedSession (Some s_packetManip) n i ep) sh"
  have "sessionManip ?s = Some s_packetManip"
    by (simp add: session.extend_def connectedSession_def startConnect_def renewExpireTime_def
        cancelKeepAlive_def asyncRead_def emit_def saveEndPoint_def setServiceID_def newSession_def Let_def)
  then have "callFn (onConnect (clientReceiver (stackMem g) (\<lambda>s. True) jh)) ?s =
      Inr (asyncWrite (wirePacket url_lobby_login sampleLoginBody) (setUser (Some (newUserBase ?s)) ?s))"
    using SC_onConnect_sends [of ?s "\<lambda>s. True" g]
    by (simp add: clientReceiver_def EventReceiverConnectorRegister_def SampleConnector_def emptyReceiver_def)
  then show ?case using api_ext_trans [OF api_setUser api_asyncWrite] by blast
qed

section \<open>A login, from the wire to the wire\<close>

lemma login_url: "length url_lobby_login < MAX_URL_STRING" "0 \<notin> set url_lobby_login"
  by (simp_all add: sample_lengths MAX_URL_STRING_def url_lobby_login_def str_def)

lemma jsonParser_parses: "jl_parse L body = Inr jv \<Longrightarrow> jsonParser L body False = Inr (True, jv, [])"
  by (simp add: jsonParser_def boostjson_parse_def catchJson_def)

lemma login_dispatch:
  assumes u: "spUser s = Some u" "userSessionType u = TCP" "userSession u = identity s"
    and m: "sessionManip s = Some s_packetManip" and mem: "length mem = sizeof_PT_JSON"
    and reply: "length (jl_serialize L jv) \<le> MAX_BODY_SIZE"
  shows "jsonDispatch (SE_jsonHandler mem L) s url_lobby_login jv =
    Inr (asyncWrite (wirePacket url_lobby_login (jl_serialize L jv)) s)"
proof -
  have "sendJsonPacket mem EncType_GREETING url_lobby_login (jl_serialize L jv) (Some s) =
      Inr (int (HEADER_SIZE + length (jl_serialize L jv)),
           Some (asyncWrite (wirePacket url_lobby_login (jl_serialize L jv)) s))"
    using reply by (intro sendJsonPacket_sends [OF mem m]) (simp_all add: sample_lengths MAX_URL_STRING_def)
  then show ?thesis
    using u by (simp add: jsonDispatch_def SE_json_defs loginHandler_def lockSession_def keepSession_def)
qed

lemma login_deliver:
  assumes u: "spUser s = Some u" "userSessionType u = TCP" "userSession u = identity s"
    and m: "sessionManip s = Some s_packetManip" and mem: "length mem = sizeof_PT_JSON"
    and body: "body \<noteq> []" "length body \<le> MAX_BODY_SIZE" "jl_parse L body = Inr jv"
    and reply: "length (jl_serialize L jv) \<le> MAX_BODY_SIZE"
  shows "deliver (serverTable w (SE_jsonHandler mem L))
      [(PT_JSON_packet_value, wirePacket url_lobby_login body)] s =
    Inr (asyncWrite (wirePacket url_lobby_login (jl_serialize L jv)) s)"
  unfolding serverProcedure_def
proof (rule wirePacket_delivered [OF login_url body(1,2)])
  show "jsonParsingCallback (SE_jsonHandler mem L) = Some (jsonParser L)" by (simp add: SE_json_defs)
  show "jsonParser L body False = Inr (True, jv, [])" by (rule jsonParser_parses [OF body(3)])
qed (rule login_dispatch [OF u m mem reply])

text \<open>A frame of size 0 makes the server's parser spin.\<close>

lemma server_stalls:
  assumes wf: "bs_wf (recvStream s)"
    and z: "nextFrame (contents (recvStream s)) = Frame PT_JSON_packet_value [] r"
  shows "parseTcp (serverReceiver w (SE_jsonHandler mem L)) (serverTable w (SE_jsonHandler mem L)) s = None"
proof (rule server_packets.parseTcp_stalls [OF wf z])
  let ?jh = "SE_jsonHandler mem L"
  show "serverTable w ?jh PT_JSON_packet_value = Some (Some (readJsonPacket ?jh))"
    by (simp add: serverProcedure_def init_table PT_JSON_packet_value_def
        PT_JSON_FOR_WEBSOCKET_packet_value_def)
  show "\<exists>x. callHandler (Some (readJsonPacket ?jh)) s 0 p = Inr x" for s p
    by (auto simp: callHandler_def readJsonPacket_def HEADER_SIZE_def)
qed

text \<open>Receiving a packet for \<open>/lobby/login\<close> in any number of reads, on the server and on the client.\<close>

lemma server_receives:
  assumes "recvStream s = newByteStream DEFAULT_BUFFER_SIZE" and "spUser s = Some u"
    and "userSessionType u = TCP" and "userSession u = identity s"
    and "sessionManip s = Some s_packetManip" and "length mem = sizeof_PT_JSON"
    and "body \<noteq> []" and "HEADER_SIZE + length body \<le> DEFAULT_BUFFER_SIZE" and "length body \<le> MAX_BODY_SIZE"
    and "jl_parse L body = Inr jv" and "length (jl_serialize L jv) \<le> MAX_BODY_SIZE"
    and "concat cs = wirePacket url_lobby_login body"
  shows "\<exists>st. feedAll (serverReceiver w (SE_jsonHandler mem L)) (serverTable w (SE_jsonHandler mem L)) cs s =
      Some (Inr (asyncWrite (wirePacket url_lobby_login (jl_serialize L jv)) s\<lparr>recvStream := st\<rparr>))
    \<and> contents st = [] \<and> bs_wf st"
  unfolding serverProcedure_def
proof (rule server_urls.wirePacket_received [OF assms(1) login_url assms(7,9,8) _ _ _ assms(12)])
  show "jsonParsingCallback (SE_jsonHandler mem L) = Some (jsonParser L)" by (simp add: SE_json_defs)
  show "jsonParser L body False = Inr (True, jv, [])" by (rule jsonParser_parses [OF assms(10)])
  show "jsonDispatch (SE_jsonHandler mem L) s url_lobby_login jv =
      Inr (asyncWrite (wirePacket url_lobby_login (jl_serialize L jv)) s)"
    by (rule login_dispatch [OF assms(2-6,11)])
qed

definition clientProcedure :: "byte list \<Rightarrow> ('a session_scheme \<Rightarrow> bool) \<Rightarrow> ('a session_scheme, 'j) json_handler
    \<Rightarrow> 'a session_scheme packet_procedure" where
  "clientProcedure mem remote jh =
     init jh (newPacketProcedure
       (Some (parse (clientReceiver mem remote jh :: (_, _, unit) event_receiver))) (Some s_packetManip))"

abbreviation clientTable :: "byte list \<Rightarrow> ('a session_scheme \<Rightarrow> bool) \<Rightarrow> ('a session_scheme, 'j) json_handler
    \<Rightarrow> 'a session_scheme packet_map" where
  "clientTable mem remote jh \<equiv> staticElements (clientProcedure mem remote jh)"

lemma client_receives:
  assumes "recvStream c = newByteStream DEFAULT_BUFFER_SIZE" and "spUser c = Some u"
    and "body \<noteq> []" and "HEADER_SIZE + length body \<le> DEFAULT_BUFFER_SIZE" and "length body \<le> MAX_BODY_SIZE"
    and "jl_parse L body = Inr jv" and "concat cs = wirePacket url_lobby_login body"
  shows "\<exists>st. feedAll (clientReceiver mem remote (SC_jsonHandler L)) (clientTable mem remote (SC_jsonHandler L)) cs c =
      Some (Inr (c\<lparr>recvStream := st\<rparr>)) \<and> contents st = [] \<and> bs_wf st"
  unfolding clientProcedure_def
proof (rule client_urls.wirePacket_received [OF assms(1) login_url assms(3,5,4) _ _ _ assms(7)])
  show "jsonParsingCallback (SC_jsonHandler L) = Some (jsonParser L)"
    by (simp add: SC_jsonHandler_def registJsonPacketHandler_def setJsonBodyParser_def)
  show "jsonParser L body False = Inr (True, jv, [])" by (rule jsonParser_parses [OF assms(6)])
  show "jsonDispatch (SC_jsonHandler L) c url_lobby_login jv = Inr c"
    using assms(2)
    by (simp add: jsonDispatch_def SC_jsonHandler_def registJsonPacketHandler_def setJsonBodyParser_def SC_loginHandler_def)
qed

text \<open>What the server's \<open>onAccept\<close> leaves: the session has a user of its own.\<close>

lemma accepted_user:
  assumes "SE_onAccept s0 = Inr s"
  shows "spUser s = Some (newUserBase s0)" and "identity s = identity s0" and "recvStream s = recvStream s0"
    and "sessionManip s = sessionManip s0"
  using assms by (auto simp: SE_onAccept_def addUser_def addUserBase_def allocUserBase_def setUser_def Let_def split: if_splits)

end
