(* ===== verification/Net_Service.thy ===== *)
theory Net_Service
  imports Connector
begin

text \<open>
  \<open>NetService\<close>, \<open>src/include/net/netService.hpp\<close>: the static tables of acceptors and connectors,
  the io context in use and its worker threads, and the functions that set a service up.

  A service is an acceptor or a connector. An io context is a number; how the operating system
  answers (\<open>os\<close>, \<open>dns\<close>) is a parameter as in the theories below. Running an io context returns when
  it has no work left; \<open>readyHandlers\<close> counts the handlers queued on it, \<open>timersPending\<close> the timers
  that keep it busy.
\<close>

section \<open>State\<close>

record ('a, 'w) net_service =
  s_acceptors :: "('a, 'w) acceptor option list"
  s_connectors :: "('a, 'w) connector option list"
  s_ioc :: "nat option"
  s_threads :: nat
  readyHandlers :: nat
  timersPending :: nat
  startWaiters :: nat

definition newStatics :: "('a, 'w) net_service" where
  "newStatics = \<lparr>s_acceptors = [], s_connectors = [], s_ioc = None, s_threads = 0,
     readyHandlers = 0, timersPending = 0, startWaiters = 0\<rparr>"

text \<open>\<open>vector::resize\<close> fills up with null pointers.\<close>

definition resizeNull :: "nat \<Rightarrow> 'x option list \<Rightarrow> 'x option list" where
  "resizeNull n xs = take n xs @ replicate (n - length xs) None"

definition useIoc :: "nat option \<Rightarrow> ('a, 'w) net_service \<Rightarrow> ('a, 'w) net_service" where
  "useIoc ioc st = (case ioc of None \<Rightarrow> st
     | Some i \<Rightarrow> if s_ioc st = None then st\<lparr>s_ioc := Some i\<rparr> else st)"

section \<open>Worker threads\<close>

definition addWorkerThreads :: "nat \<Rightarrow> nat option \<Rightarrow> ('a, 'w) net_service
    \<Rightarrow> (nat \<times> ('a, 'w) net_service) result" where
  "addWorkerThreads workerCount optIoc st =
     (let st1 = useIoc optIoc st in
      if s_ioc st1 = None then Inl (Runtime_error ''set io-context first'')
      else let st2 = st1\<lparr>s_threads := s_threads st1 + workerCount\<rparr> in Inr (s_threads st2, st2))"

section \<open>Acceptors\<close>

text \<open>The two constructors of \<open>NetService\<close>.\<close>

definition newServiceAcceptor :: "nat \<Rightarrow> u64 \<Rightarrow> 'a \<Rightarrow> ('a session_scheme, 'w) service_params \<Rightarrow> nat
    \<Rightarrow> ('a, 'w) acceptor result" where
  "newServiceAcceptor garbage seed sh svcParams connectorIdx =
     bindR (newNetServiceAcceptor garbage seed sh svcParams) (\<lambda>a.
       Inr (a\<lparr>a_netObj := setIndex connectorIdx (a_netObj a)\<rparr>))"

definition newServiceConnector :: "u64 \<Rightarrow> 'a \<Rightarrow> ('a session_scheme, 'w) service_params
    \<Rightarrow> connector_user_params \<Rightarrow> nat \<Rightarrow> ('a, 'w) connector result" where
  "newServiceConnector seed sh svcParams connectorParam connectorIdx =
     bindR (newNetServiceConnector seed sh svcParams connectorParam) (\<lambda>c.
       Inr (c\<lparr>c_netObj := setIndex connectorIdx (c_netObj c)\<rparr>))"

text \<open>
  The result is the index of the service in the table: the function returns the pointer stored
  there, whether or not the acceptor listens.
\<close>

definition createTcpAcceptor :: "(byte list \<Rightarrow> u16 \<Rightarrow> listen_result) \<Rightarrow> int \<Rightarrow> nat \<Rightarrow> u64 \<Rightarrow> 'a \<Rightarrow> nat
    \<Rightarrow> ('a session_scheme, 'w) service_params \<Rightarrow> acceptor_user_params \<Rightarrow> ('a, 'w) net_service
    \<Rightarrow> (nat \<times> ('a, 'w) net_service) result" where
  "createTcpAcceptor os now garbage seed sh acceptorIdx svcParams userParams st =
     (let st1 = useIoc (Some (sp_ioc svcParams)) st;
          st2 = (if length (s_acceptors st1) \<le> acceptorIdx
                 then st1\<lparr>s_acceptors := resizeNull (acceptorIdx + 1) (s_acceptors st1)\<rparr> else st1)
      in case s_acceptors st2 ! acceptorIdx of
           Some _ \<Rightarrow> Inr (acceptorIdx, st2)
         | None \<Rightarrow>
             bindR (newServiceAcceptor garbage seed sh svcParams acceptorIdx) (\<lambda>a.
               bindR (acceptWait (ap_addr userParams) (ap_port userParams) (ap_port userParams + 1) os now a)
                 (\<lambda>(ok, a').
                   let st3 = st2\<lparr>s_acceptors := (s_acceptors st2)[acceptorIdx := Some a']\<rparr>
                   in if ok then
                        bindR (addWorkerThreads (ap_workerThreadsCount userParams) (s_ioc st3) st3)
                          (\<lambda>(n, st4). Inr (acceptorIdx, st4))
                      else Inr (acceptorIdx, st3))))"

definition createAcceptor :: "(byte list \<Rightarrow> u16 \<Rightarrow> listen_result) \<Rightarrow> int \<Rightarrow> nat \<Rightarrow> u64 \<Rightarrow> 'a
    \<Rightarrow> ('a session_scheme, 'w) service_params \<Rightarrow> acceptor_user_params \<Rightarrow> ('a, 'w) net_service
    \<Rightarrow> (nat \<times> ('a, 'w) net_service) result" where
  "createAcceptor os now garbage seed sh svcParams userParams st =
     createTcpAcceptor os now garbage seed sh (length (s_acceptors st)) svcParams userParams st"

definition getAcceptor :: "nat \<Rightarrow> ('a, 'w) net_service \<Rightarrow> ('a, 'w) acceptor option option" where
  "getAcceptor acceptorIdx st =
     (if length (s_acceptors st) \<le> acceptorIdx then None else Some (s_acceptors st ! acceptorIdx))"

text \<open>\<open>hw\<close> is \<open>boost::thread::hardware_concurrency()\<close>.\<close>

definition registAcceptor :: "nat \<Rightarrow> (byte list \<Rightarrow> u16 \<Rightarrow> listen_result) \<Rightarrow> int \<Rightarrow> nat \<Rightarrow> u64 \<Rightarrow> 'a
    \<Rightarrow> ('a session_scheme, 'a session_scheme packet_procedure, 'w) receiver_class \<Rightarrow> nat
    \<Rightarrow> 'a session_scheme packet_parser option \<Rightarrow> packet_manipulator option \<Rightarrow> u16 \<Rightarrow> nat \<Rightarrow> nat \<Rightarrow> nat
    \<Rightarrow> session_type \<Rightarrow> ('a, 'w) net_service \<Rightarrow> (nat \<times> ('a, 'w) net_service) result" where
  "registAcceptor hw os now garbage seed sh inst ioc packetParser packetManip bindingPort ioWorkerCnt
       serviceUpdateTimeMs keepAliveMs st0 st =
     createAcceptor os now garbage seed sh
       \<lparr>sp_ioc = ioc, sp_receiver = EventReceiverAcceptorRegister inst, sp_packetParser = packetParser,
        sp_manip = packetManip, sp_serviceUpdateTimeMs = serviceUpdateTimeMs, sp_keepAliveTimeMs = keepAliveMs\<rparr>
       \<lparr>ap_addr = [], ap_port = bindingPort,
        ap_workerThreadsCount = (if ioWorkerCnt \<noteq> 0 then ioWorkerCnt else hw * 2),
        ap_usePortReuseChecking = False, ap_sessionType = st0\<rparr> st"

definition accept :: "nat \<Rightarrow> (byte list \<Rightarrow> u16 \<Rightarrow> listen_result) \<Rightarrow> int \<Rightarrow> nat \<Rightarrow> u64 \<Rightarrow> 'a
    \<Rightarrow> ('a session_scheme, 'a session_scheme packet_procedure, 'w) receiver_class \<Rightarrow> nat
    \<Rightarrow> u16 \<Rightarrow> nat \<Rightarrow> nat \<Rightarrow> nat \<Rightarrow> session_type \<Rightarrow> ('a, 'w) net_service
    \<Rightarrow> (nat \<times> ('a, 'w) net_service) result" where
  "accept hw os now garbage seed sh inst ioc bindingPort ioWorkerCnt serviceUpdateTimeMs keepAliveMs st0 st =
     registAcceptor hw os now garbage seed sh inst ioc
       (Some (parse (EventReceiverAcceptorRegister inst))) (Some s_packetManip)
       bindingPort ioWorkerCnt serviceUpdateTimeMs keepAliveMs st0 st"

section \<open>Connectors\<close>

text \<open>The connector's own index stays 0: \<open>connectorIdx\<close> is not handed to the constructor.\<close>

definition createTcpConnector :: "u64 \<Rightarrow> 'a \<Rightarrow> nat \<Rightarrow> ('a session_scheme, 'w) service_params
    \<Rightarrow> connector_user_params \<Rightarrow> ('a, 'w) net_service \<Rightarrow> (nat \<times> ('a, 'w) net_service) result" where
  "createTcpConnector seed sh connectorIdx svcParams userParams st =
     (let st1 = useIoc (Some (sp_ioc svcParams)) st;
          st2 = (if length (s_connectors st1) \<le> connectorIdx
                 then st1\<lparr>s_connectors := resizeNull (connectorIdx + 1) (s_connectors st1)\<rparr> else st1)
      in case s_connectors st2 ! connectorIdx of
           Some _ \<Rightarrow> Inr (connectorIdx, st2)
         | None \<Rightarrow>
             bindR (newServiceConnector seed sh svcParams userParams 0) (\<lambda>c.
               Inr (connectorIdx, st2\<lparr>s_connectors := (s_connectors st2)[connectorIdx := Some c]\<rparr>)))"

definition createConnector :: "u64 \<Rightarrow> 'a \<Rightarrow> ('a session_scheme, 'w) service_params
    \<Rightarrow> connector_user_params \<Rightarrow> ('a, 'w) net_service \<Rightarrow> (nat \<times> ('a, 'w) net_service) result" where
  "createConnector seed sh svcParams userParams st =
     createTcpConnector seed sh (length (s_connectors st)) svcParams userParams st"

definition registConnector :: "u64 \<Rightarrow> 'a
    \<Rightarrow> ('a session_scheme, 'a session_scheme packet_procedure, 'w) receiver_class \<Rightarrow> nat
    \<Rightarrow> 'a session_scheme packet_parser option \<Rightarrow> packet_manipulator option \<Rightarrow> nat \<Rightarrow> nat
    \<Rightarrow> byte list \<Rightarrow> u16 \<Rightarrow> session_type \<Rightarrow> ('a, 'w) net_service
    \<Rightarrow> (nat \<times> ('a, 'w) net_service) result" where
  "registConnector seed sh inst ioc packetParser packetManip serviceUpdateTimeMs keepAliveMs
       ipAddr port st0 st =
     createConnector seed sh
       \<lparr>sp_ioc = ioc, sp_receiver = EventReceiverConnectorRegister inst, sp_packetParser = packetParser,
        sp_manip = packetManip, sp_serviceUpdateTimeMs = serviceUpdateTimeMs, sp_keepAliveTimeMs = keepAliveMs\<rparr>
       \<lparr>cp_addr = ipAddr, cp_port = port, cp_sessionType = st0\<rparr> st"

text \<open>\<open>svc->_connector->connectWait(1, 0)\<close> on the service that was just created.\<close>

definition connectOne :: "(byte list \<Rightarrow> u16 \<Rightarrow> (byte list \<times> nat) option) \<Rightarrow> bool \<Rightarrow> int
    \<Rightarrow> nat \<times> ('a, 'w) net_service \<Rightarrow> (nat \<times> ('a, 'w) net_service) result" where
  "connectOne dns opens now = (\<lambda>(i, st).
     case s_connectors st ! i of
       None \<Rightarrow> Inl (Undefined ''null connector'')
     | Some c \<Rightarrow>
         Inr (i, st\<lparr>s_connectors := (s_connectors st)[i := Some (connectWait dns opens now 1 0 c)]\<rparr>))"

definition connect :: "(byte list \<Rightarrow> u16 \<Rightarrow> (byte list \<times> nat) option) \<Rightarrow> bool \<Rightarrow> int \<Rightarrow> u64 \<Rightarrow> 'a
    \<Rightarrow> ('a session_scheme, 'a session_scheme packet_procedure, 'w) receiver_class \<Rightarrow> nat
    \<Rightarrow> byte list \<Rightarrow> u16 \<Rightarrow> nat \<Rightarrow> nat \<Rightarrow> session_type \<Rightarrow> ('a, 'w) net_service
    \<Rightarrow> (nat \<times> ('a, 'w) net_service) result" where
  "connect dns opens now seed sh inst ioc ipAddr port serviceUpdateTimeMs keepAliveMs st0 st =
     bindR (registConnector seed sh inst ioc (Some (parse (EventReceiverConnectorRegister inst)))
              (Some s_packetManip) serviceUpdateTimeMs keepAliveMs ipAddr port st0 st) (connectOne dns opens now)"

section \<open>Running\<close>

text \<open>\<open>s_ioc->run()\<close> returns when nothing is left to do; then the threads are joined.\<close>

definition run :: "nat option \<Rightarrow> ('a, 'w) net_service \<Rightarrow> ('a, 'w) net_service result" where
  "run optIoc st =
     (let st1 = useIoc optIoc st in
      if s_ioc st1 = None then Inl (Undefined ''null io context'')
      else Inr (st1\<lparr>s_threads := 0, readyHandlers := 0\<rparr>))"

text \<open>
  The timer of \<open>setWork\<close> is owned by a local variable that the handler does not capture: it is
  destroyed when the function returns, which cancels its wait and queues the handler.
\<close>

definition setWork :: "('a, 'w) net_service \<Rightarrow> ('a, 'w) net_service result" where
  "setWork st =
     (if s_ioc st = None then Inl (Undefined ''null io context'')
      else
        let waiting = st\<lparr>timersPending := timersPending st + 1\<rparr>
        in Inr (waiting\<lparr>timersPending := timersPending waiting - 1,
                        readyHandlers := readyHandlers waiting + 1\<rparr>))"

text \<open>
  \<open>runService\<close> starts a thread that runs \<open>waitServiceStart\<close> if it is given a callback; such threads are
  counted in \<open>startWaiters\<close>.
\<close>

text \<open>\<open>stopped\<close>: what \<open>ios->stopped()\<close> answers, one after the other, before it answers false.\<close>

fun waitServiceStart :: "bool list \<Rightarrow> ('x \<Rightarrow> 'x) \<Rightarrow> 'x \<Rightarrow> 'x option" where
  "waitServiceStart [] postServiceStart x = None"
| "waitServiceStart (stopped # rest) postServiceStart x =
     (if \<not> stopped then Some (postServiceStart x) else waitServiceStart rest postServiceStart x)"

definition runService :: "bool \<Rightarrow> nat option \<Rightarrow> ('a, 'w) net_service \<Rightarrow> ('a, 'w) net_service result" where
  "runService hasPostServiceStart optIoc st =
     (let st1 = useIoc optIoc st in
      if s_ioc st1 = None then Inl (Undefined ''set ioc first'')
      else bindR (setWork st1) (\<lambda>st2.
             let st3 = (if s_threads st2 = 0 then st2\<lparr>s_threads := 1\<rparr> else st2)
             in if hasPostServiceStart then run (s_ioc st3) (st3\<lparr>startWaiters := startWaiters st3 + 1\<rparr>)
                else run (s_ioc st3) st3))"

section \<open>Properties of the tables\<close>

lemma useIoc_keeps [simp]:
  "s_acceptors (useIoc i st) = s_acceptors st" "s_connectors (useIoc i st) = s_connectors st"
  "s_threads (useIoc i st) = s_threads st" "s_ioc (useIoc (Some j) st) \<noteq> None"
  by (auto simp: useIoc_def split: option.split)

lemma resizeNull_grow:
  "length (resizeNull (Suc (length xs)) xs) = Suc (length xs)"
  "resizeNull (Suc (length xs)) xs ! length xs = None"
  "i < length xs \<Longrightarrow> resizeNull (Suc (length xs)) xs ! i = xs ! i"
  by (simp_all add: resizeNull_def nth_append)

text \<open>
  A new acceptor is stored behind the others, which stay as they are; its index is returned. This
  is so whether or not it could listen: only the worker threads tell the difference.
\<close>

lemma createAcceptor_ok:
  assumes "newServiceAcceptor garbage seed sh p (length (s_acceptors st)) = Inr a"
    and "acceptWait (ap_addr u) (ap_port u) (ap_port u + 1) os now a = Inr (ok, a')"
  shows "\<exists>st'. createAcceptor os now garbage seed sh p u st = Inr (length (s_acceptors st), st')
    \<and> s_acceptors st' = s_acceptors st @ [Some a']
    \<and> s_threads st' = s_threads st + (if ok then ap_workerThreadsCount u else 0)
    \<and> s_ioc st' \<noteq> None"
proof -
  let ?xs = "resizeNull (length (s_acceptors st) + 1) (s_acceptors st)"
  have upd: "?xs[length (s_acceptors st) := Some a'] = s_acceptors st @ [Some a']"
    by (rule nth_equalityI)
       (auto simp: resizeNull_grow nth_append nth_list_update less_Suc_eq)
  show ?thesis
    using assms useIoc_keeps(4) [of "sp_ioc p" st] upd
    by (auto simp: createAcceptor_def createTcpAcceptor_def resizeNull_grow addWorkerThreads_def
        Let_def useIoc_def split: option.splits)
qed

text \<open>After \<open>runService\<close> no timer of \<open>setWork\<close> is pending: it does not keep the context at work.\<close>

lemma setWork_no_timer:
  assumes "setWork st = Inr st'"
  shows "timersPending st' = timersPending st" and "readyHandlers st' = readyHandlers st + 1"
  using assms by (auto simp: setWork_def Let_def split: if_splits)

end
