(* ===== verification/Logger_Config.thy ===== *)
theory Logger_Config
  imports Prelude
begin

text \<open>
  The configuration of \<open>Logger\<close>, \<open>src/include/net/logger.hpp\<close>: the builder that \<open>Create\<close> returns, \<open>done\<close>,
  which makes a logger of the spdlog library from it, and the two short forms. A logger is described by
  its name, its sinks and how it is flushed. Members that no constructor sets are \<open>None\<close> until they are
  set; reading one then is undefined. That a sink cannot open its file is a parameter.
\<close>

section \<open>State\<close>

datatype log_level = Level_trace | Level_debug | Level_info | Level_warn | Level_err | Level_critical | Level_off

definition LOG_PATTERN_DEFAULT :: string where
  "LOG_PATTERN_DEFAULT = ''[%D %T][%t][%l][%s %! %#] : %v''"

record global_config =
  g_loggerName :: string
  g_flushEverySec :: "nat option"

record sink_config =
  k_lv :: log_level
  k_pattern :: string
  k_using :: bool

record file_config = sink_config +
  f_fileNameBase :: string
  f_maxFileSize :: "nat option"
  f_maxFiles :: "nat option"

record log_initializer =
  i_global :: global_config
  i_console :: sink_config
  i_file :: file_config

datatype log_sink =
    ConsoleSink log_level string
  | RotatingFileSink string nat nat log_level string
  | BasicFileSink string log_level string

record spd_logger =
  lg_name :: string
  lg_sinks :: "log_sink list"
  lg_level :: log_level
  lg_flushOn :: "log_level option"
  lg_flushEvery :: "nat option"

definition Create :: log_initializer where
  "Create = \<lparr>i_global = \<lparr>g_loggerName = [], g_flushEverySec = None\<rparr>,
     i_console = \<lparr>k_lv = Level_trace, k_pattern = [], k_using = False\<rparr>,
     i_file = \<lparr>k_lv = Level_trace, k_pattern = [], k_using = False,
       f_fileNameBase = [], f_maxFileSize = None, f_maxFiles = None\<rparr>\<rparr>"

section \<open>The builder\<close>

text \<open>\<open>global()\<close>, \<open>console()\<close> and \<open>file()\<close> select the part that the next calls set.\<close>

definition loggerName :: "string \<Rightarrow> global_config \<Rightarrow> global_config" where
  "loggerName n g = g\<lparr>g_loggerName := n\<rparr>"

definition flushEverySec :: "nat \<Rightarrow> global_config \<Rightarrow> global_config" where
  "flushEverySec n g = g\<lparr>g_flushEverySec := Some n\<rparr>"

text \<open>A level is set and the sink used from then on; \<open>pattern(nullptr)\<close> takes the default.\<close>

definition log_lv :: "log_level \<Rightarrow> 'z sink_config_scheme \<Rightarrow> 'z sink_config_scheme" where
  "log_lv l k = k\<lparr>k_using := True, k_lv := l\<rparr>"

definition log_pattern :: "string option \<Rightarrow> 'z sink_config_scheme \<Rightarrow> 'z sink_config_scheme" where
  "log_pattern p k = k\<lparr>k_pattern := (case p of None \<Rightarrow> LOG_PATTERN_DEFAULT | Some s \<Rightarrow> s)\<rparr>"

definition fileNameBase :: "string \<Rightarrow> file_config \<Rightarrow> file_config" where
  "fileNameBase n f = f\<lparr>f_fileNameBase := n\<rparr>"

definition maxFileSize :: "nat \<Rightarrow> file_config \<Rightarrow> file_config" where
  "maxFileSize n f = f\<lparr>f_maxFileSize := Some n\<rparr>"

definition maxFiles :: "nat \<Rightarrow> file_config \<Rightarrow> file_config" where
  "maxFiles n f = f\<lparr>f_maxFiles := Some n\<rparr>"

text \<open>The part of \<open>done\<close> and of the short forms that sets the flushing.\<close>

definition flushing :: "nat \<Rightarrow> spd_logger \<Rightarrow> spd_logger" where
  "flushing n l = (if 0 < n then l\<lparr>lg_flushOn := Some Level_trace, lg_flushEvery := Some n\<rparr> else l)"

definition newLogger :: "string \<Rightarrow> log_sink list \<Rightarrow> spd_logger" where
  "newLogger n sinks = \<lparr>lg_name = n, lg_sinks = sinks, lg_level = Level_trace, lg_flushOn = None,
     lg_flushEvery = None\<rparr>"

definition readMember :: "'x option \<Rightarrow> 'x result" where
  "readMember m = (case m of None \<Rightarrow> Inl (Undefined ''uninitialised member'') | Some x \<Rightarrow> Inr x)"

definition fileSink :: "(string \<Rightarrow> bool) \<Rightarrow> file_config \<Rightarrow> log_sink result" where
  "fileSink opens f =
     bindR (readMember (f_maxFileSize f)) (\<lambda>sz.
       bindR (readMember (f_maxFiles f)) (\<lambda>files.
         if \<not> opens (f_fileNameBase f) then Inl (Other_exception ''spdlog_ex'')
         else Inr (RotatingFileSink (f_fileNameBase f) sz files (k_lv f) (k_pattern f))))"

definition log_done :: "(string \<Rightarrow> bool) \<Rightarrow> log_initializer \<Rightarrow> spd_logger result" where
  "log_done opens i =
     (let console = i_console i; f = i_file i; g = i_global i;
          consoleSinks = (if k_using console then [ConsoleSink (k_lv console) (k_pattern console)] else [])
      in bindR (if k_using f then bindR (fileSink opens f) (\<lambda>s. Inr (consoleSinks @ [s])) else Inr consoleSinks) (\<lambda>sinks.
           bindR (readMember (g_flushEverySec g)) (\<lambda>n.
             Inr (flushing n (newLogger (g_loggerName g) sinks)))))"

definition createDefault :: "(string \<Rightarrow> bool) \<Rightarrow> spd_logger result" where
  "createDefault opens =
     log_done opens
       \<lparr>i_global = flushEverySec 0 (loggerName ''mln-server-log'' (i_global Create)),
        i_console = log_pattern None (log_lv Level_trace (i_console Create)),
        i_file = maxFiles 30 (maxFileSize (1048576 * 100) (fileNameBase ''mln-server''
          (log_pattern None (log_lv Level_trace (i_file Create)))))\<rparr>"

section \<open>Short forms\<close>

text \<open>Here the file comes first, and a negative number of seconds is allowed.\<close>

definition InitRotate :: "(string \<Rightarrow> bool) \<Rightarrow> string \<Rightarrow> string \<Rightarrow> nat \<Rightarrow> nat \<Rightarrow> int \<Rightarrow> spd_logger result" where
  "InitRotate opens n base sz files flushSec =
     (if \<not> opens base then Inl (Other_exception ''spdlog_ex'')
      else Inr (flushing (nat flushSec) (newLogger n
        [RotatingFileSink base sz files Level_trace LOG_PATTERN_DEFAULT, ConsoleSink Level_trace LOG_PATTERN_DEFAULT])))"

definition log_Init :: "(string \<Rightarrow> bool) \<Rightarrow> string \<Rightarrow> string \<Rightarrow> int \<Rightarrow> spd_logger result" where
  "log_Init opens n base flushSec =
     (if \<not> opens base then Inl (Other_exception ''spdlog_ex'')
      else Inr (flushing (nat flushSec) (newLogger n
        [BasicFileSink base Level_trace LOG_PATTERN_DEFAULT, ConsoleSink Level_trace LOG_PATTERN_DEFAULT])))"

text \<open>\<open>Flush\<close> on the logger of the singleton, a null pointer until one of the functions above has set it.\<close>

definition log_Flush :: "(spd_logger \<Rightarrow> 'w \<Rightarrow> 'w) \<Rightarrow> spd_logger option \<Rightarrow> 'w \<Rightarrow> 'w result" where
  "log_Flush flush logger w =
     (case logger of None \<Rightarrow> Inl (Undefined ''null logger'') | Some l \<Rightarrow> Inr (flush l w))"

section \<open>Facts\<close>

text \<open>
  A sink is in the logger exactly if its level was set, with what was set of it, the console first;
  the builder and \<open>InitRotate\<close> make the same sinks in the two orders.
\<close>

lemma log_done_ok:
  assumes "opens (f_fileNameBase (i_file i))" and "g_flushEverySec (i_global i) = Some n"
    and "f_maxFileSize (i_file i) = Some sz" and "f_maxFiles (i_file i) = Some files"
  shows "\<exists>l. log_done opens i = Inr l \<and> lg_name l = g_loggerName (i_global i) \<and> lg_level l = Level_trace
    \<and> lg_sinks l =
        (if k_using (i_console i) then [ConsoleSink (k_lv (i_console i)) (k_pattern (i_console i))] else []) @
        (if k_using (i_file i)
         then [RotatingFileSink (f_fileNameBase (i_file i)) sz files (k_lv (i_file i)) (k_pattern (i_file i))] else [])
    \<and> lg_flushEvery l = (if 0 < n then Some n else None)"
  using assms by (simp add: log_done_def fileSink_def readMember_def flushing_def newLogger_def Let_def)

lemmas builder_defs = Create_def loggerName_def flushEverySec_def log_lv_def log_pattern_def fileNameBase_def
  maxFileSize_def maxFiles_def

lemma createDefault_like_InitRotate:
  assumes "opens ''mln-server''"
  shows "\<exists>l l'. createDefault opens = Inr l
    \<and> InitRotate opens ''mln-server-log'' ''mln-server'' (1048576 * 100) 30 0 = Inr l'
    \<and> lg_sinks l' = rev (lg_sinks l) \<and> l' = l\<lparr>lg_sinks := lg_sinks l'\<rparr>"
  using assms
  by (simp add: createDefault_def log_done_def fileSink_def readMember_def builder_defs InitRotate_def newLogger_def
      flushing_def Let_def)

text \<open>The number of seconds has no initial value: without \<open>flushEverySec\<close>, \<open>done\<close> reads it all the same.\<close>

lemma log_done_unset:
  assumes "g_flushEverySec (i_global i) = None"
  shows "\<exists>f. log_done opens i = Inl f"
proof -
  have "\<nexists>l. log_done opens i = Inr l"
    using assms by (auto simp: log_done_def readMember_def bindR_eq_Inr Let_def)
  then show ?thesis by (cases "log_done opens i") auto
qed

end
