(* ===== verification/Exception_Handler.thy ===== *)
theory Exception_Handler
  imports Prelude
begin

text \<open>
  \<open>ExceptionHandler\<close> of \<open>src/include/net/exceptionHandler.hpp\<close>, which exists on Windows only: it is told
  where dumps go, installs handlers for every way in which a process dies, and each handler writes a
  dump and a stack trace and ends the process.

  Character arrays are the C strings they hold. The operating system and its debug library are a
  parameter, the record \<open>win\<close>: the time, the names of the host and the module, the outcome of each call
  that can fail, what the stack walk and the symbol table return, which bytes of memory can be read, and the
  number of the current thread. A line of the stack trace is a
  value that holds what is printed in it. The 64-bit branch is modelled; the 32-bit one is its copy
  with other registers. That \<open>std::string\<close> runs out of memory is left out.
\<close>

section \<open>State and system\<close>

definition MAX_PATH :: nat where "MAX_PATH = 260"

datatype dump_func = CreateFullDumpFn | CreateMiniDumpFn

datatype exc_trigger =
    On_seh | On_purecall | On_invalid_parameter | On_sigabrt | On_sigint | On_sigterm
  | On_terminate | On_unexpected | On_sigfpe | On_sigill | On_sigsegv

datatype exc_handler =
    Seh | PureCall | InvalidParameter | Sigabrt | Sigint | Sigterm
  | Terminate | Unexpected | Sigfpe | Sigill | Sigsegv

text \<open>
  Beside the static fields, the state has what the calls of \<open>init\<close> install in the runtime: the handlers of the
  process, and those that the runtime keeps for each thread apart, by the number of the thread.
\<close>

record exc_statics =
  s_dump_func :: "dump_func option"
  s_filename :: string
  s_dump_path :: string
  s_handlers :: "exc_trigger \<rightharpoonup> exc_handler"
  s_threadHandlers :: "nat \<Rightarrow> exc_trigger \<rightharpoonup> exc_handler"

definition newExcStatics :: exc_statics where
  "newExcStatics = \<lparr>s_dump_func = None, s_filename = [], s_dump_path = [], s_handlers = Map.empty,
     s_threadHandlers = (\<lambda>thread. Map.empty)\<rparr>"

datatype reg = Rax | Rbx | Rcx | Rdx | Rsi | Rdi | Rbp | Rsp | R8 | R9 | R10 | R11 | R12 | R13 | R14 | R15 | Rip

type_synonym cpu_context = "reg \<Rightarrow> 64 word"

record exc_pointers =
  ep_code :: "32 word"
  ep_context :: cpu_context

record stack_frame =
  AddrPC :: "64 word"
  AddrStack :: "64 word"
  AddrFrame :: "64 word"

record win_time =
  wYear :: nat
  wMonth :: nat
  wDay :: nat
  wHour :: nat
  wMinute :: nat
  wSecond :: nat

record win =
  w_hostname :: string
  w_time :: win_time
  w_drive :: string
  w_dir :: string
  w_fname :: string
  w_loadLibrary :: bool
  w_createFile :: "string \<Rightarrow> bool"
  w_procAddress :: bool
  w_writeDump :: "dump_func \<Rightarrow> bool"
  w_symInitialize :: bool
  w_walk :: "cpu_context \<times> stack_frame \<Rightarrow> (cpu_context \<times> stack_frame) option"
  w_symbol :: "64 word \<Rightarrow> (string \<times> 64 word) option"
  w_line :: "64 word \<Rightarrow> (string \<times> nat) option"
  w_lastError :: nat
  w_memory :: "64 word \<Rightarrow> byte option"
  w_captured :: cpu_context
  w_pxcptinfoptrs :: "exc_pointers option"
  w_process :: nat
  w_thread :: nat

section \<open>Names of files\<close>

definition isSep :: "char \<Rightarrow> bool" where
  "isSep c \<longleftrightarrow> c = CHR 0x5C \<or> c = CHR ''/''"

text \<open>A print into a buffer of \<open>MAX_PATH\<close> characters that cuts what does not fit.\<close>

definition truncated :: "string \<Rightarrow> string" where
  "truncated s = take (MAX_PATH - 1) s"

definition dateString :: "win_time \<Rightarrow> string" where
  "dateString t = padded 4 (wYear t) @ padded 2 (wMonth t) @ padded 2 (wDay t)"

definition timeString :: "win_time \<Rightarrow> string" where
  "timeString t = padded 2 (wHour t) @ padded 2 (wMinute t) @ padded 2 (wSecond t)"

text \<open>\<open>find_first_of\<close> of the two separators.\<close>

definition findSep :: "string \<Rightarrow> nat \<Rightarrow> nat option" where
  "findSep path start = find (\<lambda>i. isSep (path ! i)) [start..<length path]"

lemma findSep_Some: "findSep path start = Some p \<Longrightarrow> start \<le> p \<and> p < length path \<and> isSep (path ! p)"
  by (auto simp: findSep_def find_Some_iff)

function dirLoop :: "string \<Rightarrow> nat \<Rightarrow> string list" where
  "dirLoop path pos =
     (case findSep path (pos + 1) of
        None \<Rightarrow> [path]
      | Some p \<Rightarrow> take p path # dirLoop path p)"
  by auto
termination
  by (relation "measure (\<lambda>(path, pos). length path - pos)") (auto dest: findSep_Some)

declare dirLoop.simps [simp del]

text \<open>The directories that are created, in order, and the name.\<close>

definition generate_filename :: "win \<Rightarrow> exc_statics \<Rightarrow> string \<Rightarrow> string \<Rightarrow> string list \<times> string" where
  "generate_filename w st header ext =
     (let target_dir = truncated (s_dump_path st @ [CHR 0x5C] @ dateString (w_time w))
      in (dirLoop target_dir 0,
          truncated (target_dir @ [CHR 0x5C] @ header @ ''_'' @ s_filename st @ ''_'' @ w_hostname w @ ''_''
            @ dateString (w_time w) @ ''_'' @ timeString (w_time w) @ ''.'' @ ext)))"

section \<open>Initialisation\<close>

text \<open>
  The loop that removes separators at the end of the path, with \<open>i + 1\<close> as its argument: the index is
  unsigned, so that the test \<open>i >= 0\<close> always holds and the loop runs past the beginning of the array.
\<close>

fun trimLoop :: "nat \<Rightarrow> string \<Rightarrow> string result" where
  "trimLoop 0 path = Inl (Undefined ''s_dump_path[-1]'')"
| "trimLoop (Suc i) path = (if isSep (path ! i) then trimLoop i (take i path) else Inr path)"

definition SetProcessExceptionHandlers :: "exc_statics \<Rightarrow> exc_statics" where
  "SetProcessExceptionHandlers st = st\<lparr>s_handlers := (s_handlers st)
     (On_seh \<mapsto> Seh, On_purecall \<mapsto> PureCall, On_invalid_parameter \<mapsto> InvalidParameter,
      On_sigabrt \<mapsto> Sigabrt, On_sigint \<mapsto> Sigint, On_sigterm \<mapsto> Sigterm)\<rparr>"

text \<open>These are installed for the thread that makes the calls.\<close>

definition SetThreadExceptionHandlers :: "nat \<Rightarrow> exc_statics \<Rightarrow> exc_statics" where
  "SetThreadExceptionHandlers thread st = st\<lparr>s_threadHandlers := (s_threadHandlers st)(thread := (s_threadHandlers st thread)
     (On_terminate \<mapsto> Terminate, On_unexpected \<mapsto> Unexpected, On_sigfpe \<mapsto> Sigfpe,
      On_sigill \<mapsto> Sigill, On_sigsegv \<mapsto> Sigsegv))\<rparr>"

definition chosenPath :: "win \<Rightarrow> string option \<Rightarrow> string" where
  "chosenPath w root_path =
     (case root_path of
        Some p \<Rightarrow> if 0 < length p then truncated p else truncated (w_drive w @ [CHR 0x5C] @ w_dir w)
      | None \<Rightarrow> truncated (w_drive w @ [CHR 0x5C] @ w_dir w))"

definition chosenName :: "win \<Rightarrow> string option \<Rightarrow> string" where
  "chosenName w header =
     (case header of
        Some h \<Rightarrow> if 0 < length h then truncated h else w_fname w
      | None \<Rightarrow> w_fname w)"

definition exc_init :: "win \<Rightarrow> string option \<Rightarrow> string option \<Rightarrow> bool \<Rightarrow> exc_statics \<Rightarrow> exc_statics result" where
  "exc_init w root_path header isFullDump st =
     bindR (trimLoop (length (chosenPath w root_path)) (chosenPath w root_path)) (\<lambda>path.
       let st1 = st\<lparr>s_dump_path := (if path = [] then ''.'' else path),
                    s_filename := chosenName w header,
                    s_dump_func := Some (if isFullDump then CreateFullDumpFn else CreateMiniDumpFn)\<rparr>
       in Inr (SetThreadExceptionHandlers (w_thread w) (SetProcessExceptionHandlers st1)))"

section \<open>Dumps\<close>

datatype stack_line =
    L_date win_time
  | L_process nat
  | L_thread nat
  | L_blank
  | L_type "32 word"
  | L_regs reg "64 word" reg "64 word"
  | L_symbol "64 word" string "64 word"
  | L_unknown "64 word" nat
  | L_fileName string
  | L_lineNumber nat
  | L_range "64 word" "64 word"
  | L_row "64 word"
  | L_byte byte

datatype exc_event =
    CreateDirectory string
  | FileCreated string
  | DumpWritten dump_func "exc_pointers option"
  | LineWritten stack_line
  | NoteWritten string string string nat
  | FileClosed string
  | TerminateProcess nat

type_synonym exc_run = "exc_event list \<times> fault option"

definition createDump :: "win \<Rightarrow> exc_statics \<Rightarrow> string \<Rightarrow> dump_func \<Rightarrow> exc_pointers option \<Rightarrow> exc_event list" where
  "createDump w st header kind ptrs =
     (if \<not> w_loadLibrary w then []
      else
        let (dirs, filename) = generate_filename w st header ''dmp'' in
        map CreateDirectory dirs @
        (if \<not> w_createFile w filename then []
         else FileCreated filename #
           (if \<not> w_procAddress w then []
            else if \<not> w_writeDump w kind then []
            else [DumpWritten kind ptrs, FileClosed filename])))"

definition CreateMiniDump :: "win \<Rightarrow> exc_statics \<Rightarrow> exc_pointers option \<Rightarrow> exc_event list" where
  "CreateMiniDump w st = createDump w st ''MiniDump'' CreateMiniDumpFn"

definition CreateFullDump :: "win \<Rightarrow> exc_statics \<Rightarrow> exc_pointers option \<Rightarrow> exc_event list" where
  "CreateFullDump w st = createDump w st ''FullDump'' CreateFullDumpFn"

definition callDump :: "win \<Rightarrow> exc_statics \<Rightarrow> exc_pointers option \<Rightarrow> exc_run" where
  "callDump w st ptrs =
     (case s_dump_func st of
        None \<Rightarrow> ([], Some (Undefined ''null function pointer''))
      | Some CreateFullDumpFn \<Rightarrow> (CreateFullDump w st ptrs, None)
      | Some CreateMiniDumpFn \<Rightarrow> (CreateMiniDump w st ptrs, None))"

section \<open>Stack traces\<close>

text \<open>The source line: the first of 512 addresses downwards that has one.\<close>

definition lineOf :: "win \<Rightarrow> 64 word \<Rightarrow> stack_line list" where
  "lineOf w pc =
     (case find (\<lambda>i. w_line w (pc - of_nat i) \<noteq> None) [0..<512] of
        None \<Rightarrow> []
      | Some i \<Rightarrow>
          (case w_line w (pc - of_nat i) of
             None \<Rightarrow> []
           | Some (file, n) \<Rightarrow> [L_fileName file, L_lineNumber n]))"

text \<open>
  One frame. The two texts about the module are formatted into the buffer and not written.
\<close>

definition frameLines :: "win \<Rightarrow> 64 word \<Rightarrow> stack_line list" where
  "frameLines w pc =
     (case w_symbol w pc of
        Some (name, address) \<Rightarrow> [L_symbol pc name (pc - address)]
      | None \<Rightarrow> [L_unknown pc (w_lastError w)]) @ lineOf w pc"

text \<open>The walk changes the context that the exception pointers refer to.\<close>

fun walkFrames :: "win \<Rightarrow> nat \<Rightarrow> cpu_context \<times> stack_frame \<Rightarrow> stack_line list \<times> cpu_context" where
  "walkFrames w 0 (context, fr) = ([], context)"
| "walkFrames w (Suc n) (context, fr) =
     (if AddrPC fr = 0 then ([], context)
      else case w_walk w (context, fr) of
        None \<Rightarrow> ([], context)
      | Some (context1, fr1) \<Rightarrow>
          let (ls, context2) = walkFrames w n (context1, fr1)
          in (frameLines w (AddrPC fr1) @ ls, context2))"

text \<open>
  The 512 bytes from the stack pointer, sixteen to a row; a byte that cannot be read is an access violation
  in the handler.
\<close>

fun putLines :: "win \<Rightarrow> (stack_line + 64 word) list \<Rightarrow> stack_line list \<times> fault option" where
  "putLines w [] = ([], None)"
| "putLines w (Inl l # xs) = (let (ls, f) = putLines w xs in (l # ls, f))"
| "putLines w (Inr a # xs) =
     (case w_memory w a of
        None \<Rightarrow> ([], Some (Undefined ''unreadable stack''))
      | Some b \<Rightarrow> let (ls, f) = putLines w xs in (L_byte b # ls, f))"

definition stackDump :: "win \<Rightarrow> 64 word \<Rightarrow> stack_line list \<times> fault option" where
  "stackDump w stack = putLines w
     ([Inl L_blank, Inl (L_range stack (stack + 512))] @
      concat (map (\<lambda>i. Inl (L_row (stack + of_nat (i * 16)))
        # map (\<lambda>j. Inr (stack + of_nat (i * 16 + j))) [0..<16] @ [Inl L_blank]) [0..<32]))"

definition registerLines :: "cpu_context \<Rightarrow> stack_line list" where
  "registerLines context = L_blank #
     map (\<lambda>(a, b). L_regs a (context a) b (context b))
       [(Rax, Rbx), (Rcx, Rdx), (Rsi, Rdi), (Rbp, Rsp), (R8, R9), (R10, R11), (R12, R13), (R14, R15)] @ [L_blank]"

definition traceLines :: "win \<Rightarrow> exc_pointers \<Rightarrow> stack_line list \<times> fault option" where
  "traceLines w p =
     (let context = ep_context p;
          fr = \<lparr>AddrPC = context Rip, AddrStack = context Rsp, AddrFrame = context Rbp\<rparr>;
          (ls, context1) = walkFrames w 512 (context, fr);
          (bytes, f) = stackDump w (context1 Rsp)
      in (registerLines context @ ls @ bytes, f))"

definition MyStackWalk :: "win \<Rightarrow> exc_statics \<Rightarrow> exc_pointers option \<Rightarrow> exc_run" where
  "MyStackWalk w st ptrs =
     (if \<not> w_symInitialize w then ([], None)
      else
        let (dirs, filename) = generate_filename w st ''StackDump'' ''txt'';
            opened = map CreateDirectory dirs
        in if \<not> w_createFile w filename then (opened, None)
           else
             let begun = opened @ FileCreated filename #
                   map LineWritten [L_date (w_time w), L_process (w_process w), L_thread (w_thread w), L_blank]
             in case ptrs of
                  None \<Rightarrow> (begun, Some (Undefined ''null exception pointers''))
                | Some p \<Rightarrow>
                    let (ls, f) = traceLines w p
                    in (begun @ map LineWritten (L_type (ep_code p) # ls) @ (if f = None then [FileClosed filename] else []), f))"

section \<open>Handlers\<close>

definition GetExceptionPointers :: "win \<Rightarrow> 32 word \<Rightarrow> exc_pointers" where
  "GetExceptionPointers w code = \<lparr>ep_code = code, ep_context = w_captured w\<rparr>"

text \<open>What every handler does: the dump, the trace, and the end of the process.\<close>

definition dumpAndTerminate :: "win \<Rightarrow> exc_statics \<Rightarrow> exc_pointers option \<Rightarrow> exc_event list \<Rightarrow> exc_run" where
  "dumpAndTerminate w st ptrs note =
     (let (es, f) = callDump w st ptrs in
      if f \<noteq> None then (es, f)
      else let (es1, f1) = MyStackWalk w st ptrs in
        if f1 \<noteq> None then (es @ es1, f1)
        else (es @ es1 @ note @ [TerminateProcess 1], None))"






definition NewHandler :: "win \<Rightarrow> exc_statics \<Rightarrow> exc_run" where
  "NewHandler w st = dumpAndTerminate w st (Some (GetExceptionPointers w 0)) []"









section \<open>Paths\<close>

lemma trimLoop_spec:
  "trimLoop (length p) p =
     (if list_all isSep p then Inl (Undefined ''s_dump_path[-1]'') else Inr (rev (dropWhile isSep (rev p))))"
  by (induction p rule: rev_induct) (auto simp: nth_append)

lemma dropWhile_rev_last:
  assumes "\<not> list_all P p"
  shows "rev (dropWhile P (rev p)) \<noteq> [] \<and> \<not> P (last (rev (dropWhile P (rev p))))"
proof -
  have "dropWhile P (rev p) \<noteq> []" using assms by (auto simp: list_all_iff)
  then show ?thesis using hd_dropWhile [of P "rev p"] by (simp add: last_rev)
qed

text \<open>The directories are the prefixes up to a separator, outermost first, and the path itself.\<close>

lemma dirLoop_eq:
  "dirLoop path pos = map (\<lambda>i. take i path) (filter (\<lambda>i. isSep (path ! i)) [pos + 1..<length path]) @ [path]"
proof (induction path pos rule: dirLoop.induct)
  case (1 path pos)
  show ?case
  proof (cases "findSep path (pos + 1)")
    case None
    then have "filter (\<lambda>i. isSep (path ! i)) [pos + 1..<length path] = []"
      by (simp add: findSep_def find_None_iff filter_empty_conv)
    then show ?thesis using None by (simp add: dirLoop.simps del: upt_Suc)
  next
    case (Some p)
    then have p: "pos + 1 \<le> p" "p < length path" "isSep (path ! p)" using findSep_Some by blast+
    have first: "\<not> isSep (path ! i)" if "pos + 1 \<le> i" "i < p" for i
    proof -
      obtain k where "k < length path - (pos + 1)" and "p = [pos + 1..<length path] ! k"
          and "\<forall>j < k. \<not> isSep (path ! ([pos + 1..<length path] ! j))"
        using Some by (auto simp: findSep_def find_Some_iff simp del: upt_Suc)
      then show ?thesis using that by (auto dest: spec [of _ "i - (pos + 1)"] simp del: upt_Suc)
    qed
    have "[pos + 1..<length path] = [pos + 1..<p] @ p # [p + 1..<length path]"
      using p by (metis Suc_eq_plus1 le_add_diff_inverse less_imp_le upt_add_eq_append upt_conv_Cons)
    moreover have "filter (\<lambda>i. isSep (path ! i)) [pos + 1..<p] = []"
      using first by (auto simp: filter_empty_conv simp del: upt_Suc)
    ultimately show ?thesis
      using Some p 1 by (simp add: dirLoop.simps [of path pos] del: upt_Suc)
  qed
qed

section \<open>Every handler ends the process\<close>

text \<open>The handler that belongs to a trigger.\<close>

primrec handlerFor :: "exc_trigger \<Rightarrow> exc_handler" where
  "handlerFor On_seh = Seh"
| "handlerFor On_purecall = PureCall"
| "handlerFor On_invalid_parameter = InvalidParameter"
| "handlerFor On_sigabrt = Sigabrt"
| "handlerFor On_sigint = Sigint"
| "handlerFor On_sigterm = Sigterm"
| "handlerFor On_terminate = Terminate"
| "handlerFor On_unexpected = Unexpected"
| "handlerFor On_sigfpe = Sigfpe"
| "handlerFor On_sigill = Sigill"
| "handlerFor On_sigsegv = Sigsegv"




















text \<open>The handler that the system finds when something happens in a thread.\<close>

definition perThread :: "exc_trigger \<Rightarrow> bool" where
  "perThread t \<longleftrightarrow> t \<in> {On_terminate, On_unexpected, On_sigfpe, On_sigill, On_sigsegv}"

definition handlerAt :: "exc_statics \<Rightarrow> nat \<Rightarrow> exc_trigger \<Rightarrow> exc_handler option" where
  "handlerAt st thread t = (if perThread t then s_threadHandlers st thread t else s_handlers st t)"

lemma exc_init_state:
  assumes "exc_init w root_path header isFullDump st = Inr st'"
  shows "s_dump_func st' = Some (if isFullDump then CreateFullDumpFn else CreateMiniDumpFn)"
    and "handlerAt st' thread t =
      (if perThread t \<and> thread \<noteq> w_thread w then s_threadHandlers st thread t else Some (handlerFor t))"
    and "s_dump_path st' = rev (dropWhile isSep (rev (chosenPath w root_path)))"
    and "\<not> list_all isSep (chosenPath w root_path)"
proof -
  have n: "\<not> list_all isSep (chosenPath w root_path)"
    using assms by (auto simp: exc_init_def trimLoop_spec)
  then show "\<not> list_all isSep (chosenPath w root_path)" .
  show "s_dump_path st' = rev (dropWhile isSep (rev (chosenPath w root_path)))"
    using assms dropWhile_rev_last [OF n]
    by (auto simp: exc_init_def trimLoop_spec n SetThreadExceptionHandlers_def SetProcessExceptionHandlers_def)
  show "s_dump_func st' = Some (if isFullDump then CreateFullDumpFn else CreateMiniDumpFn)"
    using assms by (auto simp: exc_init_def trimLoop_spec n SetThreadExceptionHandlers_def SetProcessExceptionHandlers_def)
  show "handlerAt st' thread t =
      (if perThread t \<and> thread \<noteq> w_thread w then s_threadHandlers st thread t else Some (handlerFor t))"
    using assms
    by (cases t) (auto simp: exc_init_def trimLoop_spec n SetThreadExceptionHandlers_def SetProcessExceptionHandlers_def
        handlerAt_def perThread_def)
qed

text \<open>
  C38. The directory for dumps: \<open>init\<close> takes the given path, or that of the program if none is given,
  and removes the separators at its end. It returns exactly if the path has a character that is no
  separator; the result is then not empty and does not end in one, so that the fallback to the
  current directory is never used. On a path of separators only, such as the root directory, the loop
  runs past the beginning of the array.
\<close>

theorem dump_path_trimmed:
  "case exc_init w root_path header isFullDump st of
     Inl f \<Rightarrow> list_all isSep (chosenPath w root_path) \<and> f = Undefined ''s_dump_path[-1]''
   | Inr st' \<Rightarrow> s_dump_path st' \<noteq> [] \<and> \<not> isSep (last (s_dump_path st'))
       \<and> (\<exists>seps. chosenPath w root_path = s_dump_path st' @ seps \<and> list_all isSep seps)"
proof (cases "exc_init w root_path header isFullDump st")
  case (Inl f)
  then show ?thesis by (auto simp: exc_init_def trimLoop_spec Let_def split: if_splits)
next
  case (Inr st')
  let ?p = "chosenPath w root_path"
  have "?p = rev (dropWhile isSep (rev ?p)) @ rev (takeWhile isSep (rev ?p))"
    by (simp flip: rev_append)
  moreover have "list_all isSep (rev (takeWhile isSep (rev ?p)))"
    by (auto simp: list_all_iff dest: set_takeWhileD)
  ultimately have "\<exists>seps. ?p = s_dump_path st' @ seps \<and> list_all isSep seps"
    using exc_init_state(3) [OF Inr] by metis
  then show ?thesis
    using Inr dropWhile_rev_last [OF exc_init_state(4) [OF Inr]] exc_init_state(3) [OF Inr] by simp
qed

text \<open>A system in which every call succeeds and that knows no symbols.\<close>

definition plainWin :: win where
  "plainWin = \<lparr>w_hostname = ''host'',
     w_time = \<lparr>wYear = 2024, wMonth = 2, wDay = 3, wHour = 4, wMinute = 5, wSecond = 6\<rparr>,
     w_drive = ''C:'', w_dir = ''/srv/'', w_fname = ''mlnserver'',
     w_loadLibrary = True, w_createFile = (\<lambda>f. True), w_procAddress = True, w_writeDump = (\<lambda>k. True),
     w_symInitialize = True, w_walk = (\<lambda>s. None), w_symbol = (\<lambda>pc. None), w_line = (\<lambda>pc. None),
     w_lastError = 0, w_memory = (\<lambda>a. Some 0), w_captured = (\<lambda>r. 0), w_pxcptinfoptrs = None,
     w_process = 1, w_thread = 1\<rparr>"

theorem dump_path_trimmed_witness:
  "\<exists>st'. exc_init plainWin None None True newExcStatics = Inr st' \<and> \<not> isSep (last (s_dump_path st'))"
  using dump_path_trimmed [of plainWin None None True newExcStatics]
  by (auto simp: chosenPath_def plainWin_def truncated_def MAX_PATH_def isSep_def split: sum.splits)



end
