(* ===== verification/Text_Helpers.thy ===== *)
theory Text_Helpers
  imports Prelude
begin

text \<open>
  The helpers on texts: \<open>src/include/net/compression/gzip.hpp\<close> and \<open>src/include/net/string/stringHelper.hpp\<close>.

  What they call of the boost library are parameters: the adaptors that regroup bytes into numbers of six
  bits and back, the two tables of the Base64 alphabet (the second throws on characters outside it), the
  compressor and the decompressor, and the splitting of a text at characters that satisfy a predicate.
\<close>

section \<open>Base64\<close>

record base64_lib =
  toSix :: "byte list \<Rightarrow> nat list"
  toEight :: "nat list \<Rightarrow> byte list"
  alphabet :: "nat \<Rightarrow> char"
  valueOf :: "char \<Rightarrow> nat option"

definition padding :: "byte list \<Rightarrow> nat" where
  "padding val = (3 - length val mod 3) mod 3"

definition encode64 :: "base64_lib \<Rightarrow> byte list \<Rightarrow> string" where
  "encode64 lib val = map (alphabet lib) (toSix lib val) @ replicate (padding val) (CHR ''='')"

definition decode64 :: "base64_lib \<Rightarrow> string \<Rightarrow> byte list result" where
  "decode64 lib val =
     (case those (map (valueOf lib) val) of
        Some ns \<Rightarrow> Inr (toEight lib ns)
      | None \<Rightarrow> Inl (Other_exception ''dataflow_exception''))"

section \<open>Compression\<close>

record gzip_lib =
  gz_compress :: "byte list \<Rightarrow> byte list result"
  gz_decompress :: "byte list \<Rightarrow> byte list result"

definition compress :: "gzip_lib \<Rightarrow> byte list \<Rightarrow> byte list result" where
  "compress lib bytes = gz_compress lib bytes"

definition decompress :: "gzip_lib \<Rightarrow> byte list \<Rightarrow> byte list result" where
  "decompress lib bytes = gz_decompress lib bytes"

text \<open>\<open>testGzip\<close>, with the two lines it prints.\<close>

definition testGzip :: "base64_lib \<Rightarrow> gzip_lib \<Rightarrow> (string \<times> byte list) result" where
  "testGzip lib gz =
     bindR (compress gz (str ''my message'')) (\<lambda>z.
       let msg = encode64 lib z
       in bindR (decode64 lib msg) (\<lambda>d. bindR (decompress gz d) (\<lambda>out. Inr (msg, out))))"

section \<open>Splitting\<close>

definition split_text :: "((char \<Rightarrow> bool) \<Rightarrow> string \<Rightarrow> string list) \<Rightarrow> string \<Rightarrow> string \<Rightarrow> string list" where
  "split_text boost_split src delim = boost_split (\<lambda>c. c \<in> set delim) src"

section \<open>Bits\<close>

text \<open>The bits of a number, the highest first.\<close>

fun bitsOf :: "nat \<Rightarrow> nat \<Rightarrow> bool list" where
  "bitsOf 0 n = []"
| "bitsOf (Suc w) n = bitsOf w (n div 2) @ [odd n]"

definition bits6 :: "nat list \<Rightarrow> bool list" where
  "bits6 ns = concat (map (bitsOf 6) ns)"

definition bits8 :: "byte list \<Rightarrow> bool list" where
  "bits8 bs = concat (map (\<lambda>b. bitsOf 8 (unat b)) bs)"

lemma length_bitsOf [simp]: "length (bitsOf w n) = w"
  by (induction w arbitrary: n) simp_all

lemma bitsOf_zero [simp]: "bitsOf w 0 = replicate w False"
  by (induction w) (simp_all add: replicate_append_same)

lemma bitsOf_inj: "n < 2 ^ w \<Longrightarrow> m < 2 ^ w \<Longrightarrow> bitsOf w n = bitsOf w m \<Longrightarrow> n = m"
proof (induction w arbitrary: n m)
  case (Suc w)
  then have "n div 2 = m div 2" "odd n = odd m" by auto
  then show ?case by (metis bit_eq_rec even_iff_mod_2_eq_zero)
qed simp

lemma length_bits6: "length (bits6 ns) = 6 * length ns"
  by (induction ns) (simp_all add: bits6_def)

lemma length_bits8: "length (bits8 bs) = 8 * length bs"
  by (induction bs) (simp_all add: bits8_def)

lemma bits6_append [simp]: "bits6 (xs @ ys) = bits6 xs @ bits6 ys"
  by (simp add: bits6_def)

lemma bits8_append [simp]: "bits8 (xs @ ys) = bits8 xs @ bits8 ys"
  by (simp add: bits8_def)

lemma bits_zeros: "bits6 (replicate n 0) = replicate (6 * n) False" "bits8 (replicate n 0) = replicate (8 * n) False"
  by (induction n) (simp_all add: bits6_def bits8_def replicate_add del: bitsOf.simps)

lemma bits8_inj: "bits8 xs = bits8 ys \<Longrightarrow> xs = ys"
proof (induction xs arbitrary: ys)
  case Nil
  then have "8 * length ys = 0" using length_bits8 [of ys] length_bits8 [of "[]"] by simp
  then show ?case by simp
next
  case (Cons x xs)
  then obtain y ys' where ys: "ys = y # ys'" using length_bits8 [of "x # xs"] length_bits8 [of ys] by (cases ys) auto
  then have "bitsOf 8 (unat x) = bitsOf 8 (unat y)" "bits8 xs = bits8 ys'"
    using Cons.prems by (simp_all add: bits8_def)
  moreover have "unat x < 2 ^ 8" "unat y < 2 ^ 8" using unsigned_less [of x] unsigned_less [of y] by simp_all
  ultimately show ?case using Cons.IH bitsOf_inj ys by (metis word_unat_eq_iff)
qed

section \<open>Properties\<close>

text \<open>
  What is documented of the library: the adaptors keep the bits and fill the last number with zeros, the
  tables belong together, and the padding character counts as 0.
\<close>

definition base64_contract :: "base64_lib \<Rightarrow> bool" where
  "base64_contract lib \<longleftrightarrow>
     (\<forall>v. \<exists>k < 6. bits6 (toSix lib v) = bits8 v @ replicate k False) \<and> (\<forall>v. \<forall>n \<in> set (toSix lib v). n < 64)
     \<and> (\<forall>ns. 4 dvd length ns \<longrightarrow> bits8 (toEight lib ns) = bits6 ns)
     \<and> (\<forall>n < 64. valueOf lib (alphabet lib n) = Some n) \<and> valueOf lib (CHR ''='') = Some 0"

lemma sixes_and_padding:
  assumes "6 * l = 8 * n + (k :: nat)" and "k < 6"
  shows "k + 6 * ((3 - n mod 3) mod 3) = 8 * ((3 - n mod 3) mod 3)" and "4 dvd l + (3 - n mod 3) mod 3"
proof -
  define q r where "q = n div 3" and "r = n mod 3"
  have n: "n = 3 * q + r" "r < 3" by (simp_all add: q_def r_def)
  consider "r = 0" | "r = 1" | "r = 2" using n(2) by linarith
  then have "k + 6 * ((3 - r) mod 3) = 8 * ((3 - r) mod 3) \<and> l + (3 - r) mod 3 = 4 * (q + (if r = 0 then 0 else 1))"
    using assms n by cases (simp_all, presburger+)
  then show "k + 6 * ((3 - n mod 3) mod 3) = 8 * ((3 - n mod 3) mod 3)" and "4 dvd l + (3 - n mod 3) mod 3"
    by (simp_all flip: r_def)
qed

lemma those_map_Some: "(\<And>x. x \<in> set xs \<Longrightarrow> f x = Some (g x)) \<Longrightarrow> those (map f xs) = Some (map g xs)"
  by (induction xs) simp_all

text \<open>
  C32. Base64 there and back keeps the bytes but leaves those that the padding stands for: an encoded text has
  a length that is a multiple of four, and decoding it gives the bytes with one or two zero bytes behind,
  unless their number is a multiple of three. So does the decompressor get them in \<open>testGzip\<close>.
\<close>

theorem base64_leaves_padding:
  assumes "base64_contract lib"
  shows "4 dvd length (encode64 lib v)
    \<and> decode64 lib (encode64 lib v) = Inr (v @ replicate (padding v) 0)
    \<and> (decode64 lib (encode64 lib v) = Inr v \<longleftrightarrow> 3 dvd length v)
    \<and> testGzip lib gz = bindR (compress gz (str ''my message'')) (\<lambda>z.
        bindR (decompress gz (z @ replicate (padding z) 0)) (\<lambda>out. Inr (encode64 lib z, out)))"
proof -
  have there_and_back: "4 dvd length (encode64 lib v) \<and> decode64 lib (encode64 lib v) = Inr (v @ replicate (padding v) 0)" for v
  proof -
    obtain k where k: "k < 6" "bits6 (toSix lib v) = bits8 v @ replicate k False"
      using assms unfolding base64_contract_def by blast
    let ?ns = "toSix lib v @ replicate (padding v) 0"
    have len: "6 * length (toSix lib v) = 8 * length v + k"
      using arg_cong [OF k(2), of length] by (simp add: length_bits6 length_bits8)
    note pad = sixes_and_padding [OF len k(1), folded padding_def]
    have "4 dvd length (encode64 lib v)" using pad(2) by (simp add: encode64_def)
    have "those (map (valueOf lib) (encode64 lib v)) = those (map Some ?ns)"
      using assms unfolding base64_contract_def encode64_def
      by (intro arg_cong [of _ _ those]) (auto simp: map_replicate_trivial)
    also have "\<dots> = Some ?ns" using those_map_Some [of ?ns Some "\<lambda>n. n"] by simp
    finally have "decode64 lib (encode64 lib v) = Inr (toEight lib ?ns)" by (simp add: decode64_def)
    moreover have "bits8 (toEight lib ?ns) = bits8 (v @ replicate (padding v) 0)"
      using assms pad k(2) unfolding base64_contract_def by (simp add: bits_zeros flip: replicate_add)
    ultimately show ?thesis using bits8_inj \<open>4 dvd length (encode64 lib v)\<close> by simp
  qed
  have "padding v = 0 \<longleftrightarrow> 3 dvd length v" unfolding padding_def by presburger
  then show ?thesis using there_and_back by (simp add: testGzip_def)
qed

text \<open>A library for the witness: bits cut into groups, and the alphabet of RFC 4648.\<close>

definition numOf :: "bool list \<Rightarrow> nat" where
  "numOf bs = foldl (\<lambda>a b. 2 * a + (if b then 1 else 0)) 0 bs"

function chunks :: "nat \<Rightarrow> bool list \<Rightarrow> bool list list" where
  "chunks w bs = (if w = 0 \<or> bs = [] then [] else (take w bs @ replicate (w - length bs) False) # chunks w (drop w bs))"
  by auto
termination
  by (relation "measure (\<lambda>(w, bs). length bs)") auto

declare chunks.simps [simp del]

definition rfcAlphabet :: string where
  "rfcAlphabet = ''ABCDEFGHIJKLMNOPQRSTUVWXYZabcdefghijklmnopqrstuvwxyz0123456789+/''"

definition rfcLib :: base64_lib where
  "rfcLib = \<lparr>toSix = (\<lambda>v. map numOf (chunks 6 (bits8 v))),
     toEight = (\<lambda>ns. map (\<lambda>c. word_of_nat (numOf c)) (chunks 8 (bits6 ns))),
     alphabet = (\<lambda>n. rfcAlphabet ! n),
     valueOf = (\<lambda>c. if c = CHR ''='' then Some 0 else find (\<lambda>n. rfcAlphabet ! n = c) [0..<64])\<rparr>"

lemma numOf_snoc [simp]: "numOf (bs @ [b]) = 2 * numOf bs + (if b then 1 else 0)"
  by (simp add: numOf_def)

lemma bitsOf_numOf: "length bs = w \<Longrightarrow> bitsOf w (numOf bs) = bs \<and> numOf bs < 2 ^ w"
proof (induction w arbitrary: bs)
  case 0
  then show ?case by (simp add: numOf_def)
next
  case (Suc w)
  then obtain r b where bs: "bs = r @ [b]" "length r = w" by (metis append_butlast_last_id length_butlast list.size(3) nat.simps(3) diff_Suc_1)
  then show ?case using Suc.IH [of r] by auto
qed

lemma chunks_concat: "0 < w \<Longrightarrow> \<exists>k < w. concat (chunks w bs) = bs @ replicate k False"
proof (induction w bs rule: chunks.induct)
  case (1 w bs)
  consider (none) "bs = []" | (last) "bs \<noteq> []" "length bs \<le> w" | (more) "bs \<noteq> []" "w < length bs" by linarith
  then show ?case
  proof cases
    case none
    then show ?thesis using 1 by (auto simp: chunks.simps [of w "[]"])
  next
    case last
    then show ?thesis
      using 1 by (intro exI [of _ "w - length bs"]) (simp add: chunks.simps [of w bs] chunks.simps [of w "[]"])
  next
    case more
    then obtain k where "k < w" "concat (chunks w (drop w bs)) = drop w bs @ replicate k False" using 1 by auto
    then show ?thesis using more 1 by (intro exI [of _ k]) (simp add: chunks.simps [of w bs])
  qed
qed

lemma chunks_length: "c \<in> set (chunks w bs) \<Longrightarrow> length c = w"
proof (induction w bs rule: chunks.induct)
  case (1 w bs)
  then show ?case by (subst (asm) (2) chunks.simps) (auto split: if_splits)
qed

lemma numOf_chunks: "concat (map (\<lambda>c. bitsOf w (numOf c)) (chunks w bs)) = concat (chunks w bs)"
  by (intro arg_cong [of _ _ concat] map_idI) (simp add: bitsOf_numOf chunks_length)

lemma rfcLib_contract: "base64_contract rfcLib"
  unfolding base64_contract_def
proof (intro conjI allI ballI impI)
  fix v :: "byte list"
  show "\<exists>k < 6. bits6 (toSix rfcLib v) = bits8 v @ replicate k False"
    using chunks_concat [of 6 "bits8 v"] by (simp add: rfcLib_def bits6_def comp_def numOf_chunks)
  show "n < 64" if "n \<in> set (toSix rfcLib v)" for n
    using that bitsOf_numOf [of _ 6] chunks_length by (fastforce simp: rfcLib_def)
next
  fix ns :: "nat list"
  assume "4 dvd length ns"
  obtain k where k: "k < 8" "concat (chunks 8 (bits6 ns)) = bits6 ns @ replicate k False"
    using chunks_concat [of 8 "bits6 ns"] by auto
  have "unat (word_of_nat (numOf c) :: byte) = numOf c" if "c \<in> set (chunks 8 (bits6 ns))" for c
    using bitsOf_numOf [OF chunks_length [OF that]] by (simp add: unat_of_nat take_bit_nat_eq_self)
  then have "bits8 (toEight rfcLib ns) = concat (map (\<lambda>c. bitsOf 8 (numOf c)) (chunks 8 (bits6 ns)))"
    unfolding bits8_def rfcLib_def by (simp add: comp_def del: bitsOf.simps cong: map_cong)
  also have "\<dots> = bits6 ns @ replicate k False" using k numOf_chunks by metis
  finally have b: "bits8 (toEight rfcLib ns) = bits6 ns @ replicate k False" .
  have "8 * length (toEight rfcLib ns) = 6 * length ns + k"
    using arg_cong [OF b, of length] by (simp add: length_bits6 length_bits8)
  then have "k = 0" using k(1) \<open>4 dvd length ns\<close> by presburger
  then show "bits8 (toEight rfcLib ns) = bits6 ns" using b by simp
next
  fix n :: nat
  assume "n < 64"
  then have "n \<in> set [0..<64]" by simp
  moreover have "\<forall>n \<in> set [0..<64]. valueOf rfcLib (alphabet rfcLib n) = Some n" by code_simp
  ultimately show "valueOf rfcLib (alphabet rfcLib n) = Some n" by blast
qed (simp add: rfcLib_def)

theorem base64_leaves_padding_witness:
  "decode64 rfcLib (encode64 rfcLib (str ''my message'')) = Inr (str ''my message'' @ [0, 0])"
proof -
  have "padding (str ''my message'') = 2" by code_simp
  then show ?thesis
    using base64_leaves_padding [OF rfcLib_contract, of "str ''my message''"] by (simp add: numeral_2_eq_2)
qed

end
