(* ===== verification/Sample_Program.thy ===== *)
theory Sample_Program
  imports Sample_Server Net_Service Http_Server Logger_Config Exception_Handler Text_Helpers
begin

text \<open>
  The sample program: \<open>src/mlnserver/main.cpp\<close>, the three ways in which
  \<open>src/mlnserver/clientSample/sampleConnector.h\<close> connects, and \<open>TestRun\<close> of
  \<open>src/mlnserver/clientSample/run.h\<close>. Single log messages and the console title are left out.
\<close>

section \<open>Connecting\<close>

text \<open>\<open>inst\<close> is the static \<open>SampleConnector\<close>; the other parameters are those of the service registry.\<close>

definition tryConnect1 :: "(byte list \<Rightarrow> u16 \<Rightarrow> (byte list \<times> nat) option) \<Rightarrow> bool \<Rightarrow> int \<Rightarrow> u64 \<Rightarrow> 'a
    \<Rightarrow> ('a session_scheme, 'a session_scheme packet_procedure, 'w) receiver_class \<Rightarrow> nat \<Rightarrow> u16
    \<Rightarrow> ('a, 'w) net_service \<Rightarrow> (nat \<times> ('a, 'w) net_service) result" where
  "tryConnect1 dns opens now seed sh inst ioc port st =
     (let connectorHandler = EventReceiverConnectorRegister inst;
          serviceInitParamsForClnt =
            \<lparr>sp_ioc = ioc, sp_receiver = connectorHandler, sp_packetParser = Some (parse connectorHandler),
             sp_manip = Some s_packetManip, sp_serviceUpdateTimeMs = 1000, sp_keepAliveTimeMs = 0\<rparr>;
          connectorUserParam = \<lparr>cp_addr = str ''127.0.0.1'', cp_port = port, cp_sessionType = TCP\<rparr>
      in bindR (createConnector seed sh serviceInitParamsForClnt connectorUserParam st)
           (connectOne dns opens now))"

definition tryConnect2 :: "(byte list \<Rightarrow> u16 \<Rightarrow> (byte list \<times> nat) option) \<Rightarrow> bool \<Rightarrow> int \<Rightarrow> u64 \<Rightarrow> 'a
    \<Rightarrow> ('a session_scheme, 'a session_scheme packet_procedure, 'w) receiver_class \<Rightarrow> nat \<Rightarrow> u16
    \<Rightarrow> ('a, 'w) net_service \<Rightarrow> (nat \<times> ('a, 'w) net_service) result" where
  "tryConnect2 dns opens now seed sh inst ioc port st =
     bindR (registConnector seed sh inst ioc (Some (parse (EventReceiverConnectorRegister inst)))
              (Some s_packetManip) 1000 0 (str ''127.0.0.1'') port TCP st)
       (connectOne dns opens now)"

definition tryConnect3 :: "(byte list \<Rightarrow> u16 \<Rightarrow> (byte list \<times> nat) option) \<Rightarrow> bool \<Rightarrow> int \<Rightarrow> u64 \<Rightarrow> 'a
    \<Rightarrow> ('a session_scheme, 'a session_scheme packet_procedure, 'w) receiver_class \<Rightarrow> nat \<Rightarrow> u16
    \<Rightarrow> ('a, 'w) net_service \<Rightarrow> (nat \<times> ('a, 'w) net_service) result" where
  "tryConnect3 dns opens now seed sh inst ioc port st =
     connect dns opens now seed sh inst ioc (str ''127.0.0.1'') port 1000 0 TCP st"

text \<open>\<open>port\<close> is an \<open>int32_t\<close> here and is cut to sixteen bits.\<close>

definition TestRun :: "(byte list \<Rightarrow> u16 \<Rightarrow> (byte list \<times> nat) option) \<Rightarrow> bool \<Rightarrow> int \<Rightarrow> u64 \<Rightarrow> 'a
    \<Rightarrow> ('a session_scheme, 'a session_scheme packet_procedure, 'w) receiver_class \<Rightarrow> nat \<Rightarrow> 32 word
    \<Rightarrow> ('a, 'w) net_service \<Rightarrow> (nat \<times> ('a, 'w) net_service) result" where
  "TestRun dns opens now seed sh inst ioc port st = tryConnect1 dns opens now seed sh inst ioc (ucast port) st"

section \<open>Accepting\<close>

text \<open>\<open>if (!acceptor) return false; return true\<close>.\<close>

definition acceptorThere :: "nat \<times> ('a, 'w) net_service \<Rightarrow> (bool \<times> ('a, 'w) net_service) result" where
  "acceptorThere = (\<lambda>(i, st). Inr (s_acceptors st ! i \<noteq> None, st))"

definition acceptSpecificParser :: "nat \<Rightarrow> (byte list \<Rightarrow> u16 \<Rightarrow> listen_result) \<Rightarrow> int \<Rightarrow> nat \<Rightarrow> u64 \<Rightarrow> 'a
    \<Rightarrow> ('a session_scheme, 'a session_scheme packet_procedure, 'w) receiver_class \<Rightarrow> nat
    \<Rightarrow> ('a, 'w) net_service \<Rightarrow> (bool \<times> ('a, 'w) net_service) result" where
  "acceptSpecificParser hw os now garbage seed sh inst ioc st =
     bindR (registAcceptor hw os now garbage seed sh inst ioc
              (Some (parse (EventReceiverAcceptorRegister inst))) (Some s_packetManip) 9090 0 1000 60000 TCP st)
       acceptorThere"

definition acceptDefaultJsonParser :: "nat \<Rightarrow> (byte list \<Rightarrow> u16 \<Rightarrow> listen_result) \<Rightarrow> int \<Rightarrow> nat \<Rightarrow> u64 \<Rightarrow> 'a
    \<Rightarrow> ('a session_scheme, 'a session_scheme packet_procedure, 'w) receiver_class \<Rightarrow> nat
    \<Rightarrow> ('a, 'w) net_service \<Rightarrow> (bool \<times> ('a, 'w) net_service) result" where
  "acceptDefaultJsonParser hw os now garbage seed sh inst ioc st =
     bindR (accept hw os now garbage seed sh inst ioc 9090 0 1000 60000 TCP st) acceptorThere"

text \<open>
  What \<open>acceptDefaultJsonParser\<close> returns is ignored. The callback that \<open>runService\<close> is given calls
  \<open>TestRun\<close> with port 9090 on the thread that waits for the start.
\<close>

definition ioServiceThread :: "nat \<Rightarrow> (byte list \<Rightarrow> u16 \<Rightarrow> listen_result) \<Rightarrow> int \<Rightarrow> nat \<Rightarrow> u64 \<Rightarrow> 'a
    \<Rightarrow> ('a session_scheme, 'a session_scheme packet_procedure, 'w) receiver_class \<Rightarrow> nat
    \<Rightarrow> ('a, 'w) net_service \<Rightarrow> (bool \<times> ('a, 'w) net_service) result" where
  "ioServiceThread hw os now garbage seed sh inst ioc st =
     bindR (acceptDefaultJsonParser hw os now garbage seed sh inst ioc st) (\<lambda>(b, st1).
       bindR (runService True (Some ioc) st1) (\<lambda>st2. Inr (True, st2)))"

text \<open>\<open>testHttpServer\<close>: register \<open>/test\<close> and start a thread that serves HTTP.\<close>

definition testHttpServer :: "(string \<rightharpoonup> http_handler option) \<Rightarrow> nat \<Rightarrow> (string \<rightharpoonup> http_handler option) \<times> nat" where
  "testHttpServer handlers startedThreads =
     (snd (registerURL ''/test'' (Some testHandler) handlers), snd (startServer 28888 startedThreads))"

text \<open>\<open>main\<close> on Windows; the \<open>bool\<close> that \<open>ioServiceThread\<close> returns becomes the exit status.\<close>

definition testCompression :: "base64_lib \<Rightarrow> gzip_lib \<Rightarrow> (string \<times> byte list) result" where
  "testCompression b64 gz = testGzip b64 gz"

definition main_program :: "(string \<Rightarrow> bool) \<Rightarrow> win \<Rightarrow> base64_lib \<Rightarrow> gzip_lib
    \<Rightarrow> nat \<Rightarrow> (byte list \<Rightarrow> u16 \<Rightarrow> listen_result) \<Rightarrow> int \<Rightarrow> nat \<Rightarrow> u64 \<Rightarrow> 'a
    \<Rightarrow> ('a session_scheme, 'a session_scheme packet_procedure, 'w) receiver_class \<Rightarrow> nat
    \<Rightarrow> (string \<rightharpoonup> http_handler option) \<Rightarrow> nat \<Rightarrow> ('a, 'w) net_service \<Rightarrow> int result" where
  "main_program opens w b64 gz hw os now garbage seed sh inst ioc handlers startedThreads st =
     bindR (createDefault opens) (\<lambda>logger.
       bindR (exc_init w None None True newExcStatics) (\<lambda>exc.
         let http = testHttpServer handlers startedThreads
         in bindR (testCompression b64 gz) (\<lambda>output.
              bindR (ioServiceThread hw os now garbage seed sh inst ioc st) (\<lambda>(b, st1).
                Inr (if b then 1 else 0)))))"

section \<open>The ways agree\<close>

lemma tryConnect_agree:
  "tryConnect2 dns opens now seed sh inst ioc port st = tryConnect1 dns opens now seed sh inst ioc port st"
  "tryConnect3 dns opens now seed sh inst ioc port st = tryConnect1 dns opens now seed sh inst ioc port st"
  by (simp_all add: tryConnect1_def tryConnect2_def tryConnect3_def connect_def registConnector_def Let_def)

lemma accept_agree:
  "acceptSpecificParser hw os now garbage seed sh inst ioc st
     = acceptDefaultJsonParser hw os now garbage seed sh inst ioc st"
  by (simp add: acceptSpecificParser_def acceptDefaultJsonParser_def accept_def)

text \<open>A service that could not listen looks like one that does.\<close>

lemma accept_always_true:
  assumes "acceptDefaultJsonParser hw os now garbage seed sh inst ioc st = Inr (b, st')"
  shows "b"
proof -
  let ?er = "EventReceiverAcceptorRegister inst"
  let ?p = "\<lparr>sp_ioc = ioc, sp_receiver = ?er, sp_packetParser = Some (parse ?er),
      sp_manip = Some s_packetManip, sp_serviceUpdateTimeMs = 1000, sp_keepAliveTimeMs = 60000\<rparr>"
  let ?u = "\<lparr>ap_addr = [], ap_port = 9090, ap_workerThreadsCount = hw * 2,
      ap_usePortReuseChecking = False, ap_sessionType = TCP\<rparr>"
  obtain i st1 where c: "createAcceptor os now garbage seed sh ?p ?u st = Inr (i, st1)"
      and b: "b \<longleftrightarrow> s_acceptors st1 ! i \<noteq> None"
    using assms
    by (auto simp: acceptDefaultJsonParser_def accept_def registAcceptor_def acceptorThere_def bindR_eq_Inr)
  obtain a ok a' where "newServiceAcceptor garbage seed sh ?p (length (s_acceptors st)) = Inr a"
      and "acceptWait (ap_addr ?u) (ap_port ?u) (ap_port ?u + 1) os now a = Inr (ok, a')"
    using c by (auto simp: createAcceptor_def createTcpAcceptor_def resizeNull_grow bindR_eq_Inr Let_def)
  then show ?thesis
    using createAcceptor_ok [of garbage seed sh ?p st a ?u os now ok a'] c b by auto
qed

text \<open>A run of the program that ends without a fault has the exit status of a failure.\<close>

lemma main_exit_status:
  "main_program opens w b64 gz hw os now garbage seed sh inst ioc handlers startedThreads st = Inr code \<Longrightarrow> code = 1"
  by (auto simp: main_program_def ioServiceThread_def bindR_eq_Inr Let_def)

end
