(* ===== verification/Spec2Isabelle.thy ===== *)
theory Spec2Isabelle
  imports Hazard_Threads List_Marks List_Quiescent List_Progress Object_Pool Mysql_Connector Mysql_Connection Rental_Pool Schedulers Http_Coro Sample_Program
begin

text \<open>
  A verification development for mlnsdk, a C++ framework for TCP and websocket servers whose packets
  carry JSON, with its sample server. All paths are below \<open>src/\<close>.

  \<^bold>\<open>The program.\<close> A \<open>NetService\<close> owns acceptors and connectors. An acceptor makes a \<open>Session\<close> per
  connection; a session reads into its \<open>ByteStream\<close> and posts \<open>PacketProcedure::dispatch\<close> on its strand;
  the packet parser cuts the stream into packets and calls the handler registered for the packet's code;
  the JSON handler reads URL and body and calls the URL's handler of the application, which answers
  through \<open>UserBase::sendJsonPacket\<close>. The application is told of connects and closes through an
  \<open>EventReceiver\<close> and keeps its users in a \<open>UserManagerBase\<close>, whose table from users to sessions is a
  lock-free list that reclaims its nodes with hazard pointers. Beside this core stand two HTTP servers,
  job schedulers, a rental pool, a logger, a crash handler and a database connection.

  \<^bold>\<open>Theories and sources.\<close>
  \<^item> \<open>Prelude\<close>: machine types, faults, the loop combinator, memory and integers in memory, ordered maps.
  \<^item> \<open>Byte_Stream\<close>: \<open>include/net/byteStream.hpp\<close>, \<open>netTypes.h\<close>. Locale \<open>byte_fifo\<close>, the contract of a byte
    queue, interpreted for the two ways in which the framework takes bytes out.
  \<^item> \<open>Event_Receiver\<close>: \<open>include/net/eventReceiver.hpp\<close>.
  \<^item> \<open>Session\<close>, \<open>Session_Inv\<close>: \<open>include/net/session.hpp\<close>; each member function is a function on the record
    \<open>session\<close>, and \<open>session_step\<close> runs completions, the strand and calls of the application in any order.
    Locale \<open>session_env\<close>, what a session needs of the application's callbacks.
  \<^item> \<open>Protocol\<close>, \<open>Packet_Procedure\<close>, \<open>Packet_Parser\<close>, \<open>Json_Handler\<close>: \<open>include/net/packetJson/*\<close>,
    \<open>packetProcedure.hpp\<close>, \<open>user/userBase.hpp\<close>. Locales \<open>packet_handlers\<close>, \<open>parser_env\<close> and \<open>url_handlers\<close>, the
    contracts of registered handlers, interpreted for the sample's.
  \<^item> \<open>Reclaimer\<close>, \<open>Lockfree_List\<close>, \<open>Lockfree_Correct\<close>, \<open>User_Session_Pair\<close>: \<open>include/net/container/reclaimer.h\<close>,
    \<open>lockfreeLinkedlist.h\<close>, \<open>user/userSessionPair.hpp\<close>. Locale \<open>session_table\<close>, a finite map from users to
    sessions, interpreted for the list. These theories run the operations of one thread.
  \<^item> \<open>Hazard_Threads\<close>, \<open>List_Threads\<close>, \<open>List_Linear\<close>, \<open>List_Quiescent\<close>, \<open>List_Progress\<close>: the same two files between
    threads. \<open>hp_step\<close> and \<open>list_step\<close> have a rule for every access to a shared location and interleave any
    number of threads; \<open>spec_step\<close> is the atomic table that the list implements. \<open>List_Marks\<close>: the hazard
    pointers of one thread during a search, with others at work between its turns.
  \<^item> \<open>User_Manager\<close>: \<open>include/net/user/userManagerBase.hpp\<close>.
  \<^item> \<open>Net_Common\<close>, \<open>Acceptor\<close>, \<open>Connector\<close>, \<open>Net_Service\<close>: \<open>include/net/netCommonObjects.hpp\<close>,
    \<open>serviceParamTypes.h\<close>, \<open>netServiceAcceptor.hpp\<close>, \<open>netServiceConnector.hpp\<close>, \<open>netService.hpp\<close>. Locales
    \<open>acceptor_env\<close> and \<open>connector_env\<close>.
  \<^item> \<open>Sample_Server\<close>, \<open>Sample_Program\<close>: \<open>mlnserver/*\<close>; the interpretations of the locales above.
  \<^item> \<open>Http_Server\<close>, \<open>Http_Coro\<close>: \<open>include/net/http/*\<close>. \<open>Schedulers\<close>: \<open>include/net/time/*\<close>. \<open>Rental_Pool\<close>:
    \<open>include/net/container/rentalItemPool.hpp\<close>. \<open>Logger_Config\<close>: \<open>include/net/logger.hpp\<close>.
    \<open>Exception_Handler\<close>: \<open>include/net/exceptionHandler.hpp\<close>. \<open>Mysql_Connection\<close>: \<open>include/net/mysql-legacy/*\<close>.
    \<open>Mysql_Connector\<close>: \<open>include/net/mysql8/connector.hpp\<close>. \<open>Object_Pool\<close>: \<open>include/net/boostObjectPool.hpp\<close>, with
    the calls of several threads. \<open>Text_Helpers\<close>: \<open>include/net/compression/gzip.hpp\<close>, \<open>string/stringHelper.hpp\<close>.

  \<^bold>\<open>What is shown.\<close>
  \<^item> Receiving: the parser implements an abstract framing of the bytes and returns; how the bytes were cut
    into reads does not matter; a packet that is sent is read back; the sample's login is answered once and
    the answer is read by the client.
    The inputs on which the parser does not advance or does not return are characterised too.
  \<^item> Sessions, for every reachable state: one read at a time, the status only advances, the close
    notification comes once, a pending close completes, pending dispatches are counted, the keep-alive
    timer never runs.
  \<^item> The byte stream: every sequence of calls that respects its contract leaves it well-formed; it is a queue;
    the writes that leave the buffer are characterised.
  \<^item> Tables: the lock-free list refines a finite map and uses no freed node, for any number of spurious
    failures of its atomic operations; reclaiming frees no protected node and loses none; the
    user manager lists exactly the sessions that have a user, also when a callback throws.
  \<^item> Threads: the list is linearizable, is clean with an exact counter when all threads have returned, each node
    it has unlinked having been handed to the reclaimer once, and a thread that runs alone returns within a
    bounded number of its own steps; hazard pointers with a fence protect a node that was found
    linked, and without the fence, as in the code, they do not; a search marks what it reads, except for
    the second one of \<open>Delete\<close>, which takes back its own mark; the locked object pool is exclusive.
  \<^item> Services: accepted sessions satisfy the session invariant and have distinct identities, \<open>n\<close> requested
    connections are made, an acceptor is registered even if it cannot listen, a failed accept is the last.
  \<^item> HTTP: every request is answered once with the right status, one operation at a time, and the blocking,
    the asynchronous and the coroutine server serve a connection alike.
  \<^item> Others: jobs run at their interval; which faults end the process, by the handlers of the process and of the thread;
    database statements pile up; time stamps can be read back; when connection strings determine what they
    were made of and when they do not; base64 keeps the padding.

  \<^bold>\<open>Conventions.\<close> An operation that may throw or run into undefined behaviour returns a \<open>result\<close>, with the
  fault on the left. Loops whose end is not obvious are \<open>partial_function (option)\<close>, so \<open>None\<close> means that
  the loop does not end; theorems about them state that there is a result, or, for a packet of size 0, that there is none.
  The atomic operations of the list take a number \<open>w\<close> of spurious failures of their compare-exchanges,
  and every theorem holds for all \<open>w\<close>; addresses come from the allocator as arguments that must be fresh.
  The stack walk stops after the 512 frames the code allows. Sockets, the resolver, JSON, Beast, the
  Windows debug library and the MySQL client are parameters: functions or outcomes of single calls.

  \<^bold>\<open>Not modelled.\<close> Log output, the precompiled headers, and the 32-bit branches of the stack walk and of
  \<open>GetExceptionPointers\<close>, copies of the 64-bit ones with other registers. Interleavings inside an operation
  of a session or of the user manager: a session's handlers run on its strand, and the user manager holds
  a lock, so their operations are atomic here. The relations of the list and of the reclaimer are not
  composed into one: in \<open>List_Threads\<close> a node that was unlinked keeps its address, and that no thread can
  meet a freed one rests on \<open>Hazard_Threads\<close>, whose threads mark, check and free as the list does, and on
  \<open>List_Marks\<close>: it holds with the fence and, in the second search of \<open>Delete\<close>, with hazard pointer objects that
  forget an index when they take back its mark. The code has neither. The relaxed memory order appears only there, as a store that may take effect late.
\<close>

section \<open>A concrete instance\<close>

text \<open>
  For the witnesses: a JSON library whose values are the texts themselves, and a session of the
  server that was accepted and has a user.
\<close>

definition textJson :: "byte list json_lib" where
  "textJson = \<lparr>jl_null = [], jl_parse = Inr, jl_member = (\<lambda>k v. Inr v), jl_toString = Inr,
     jl_serialize = (\<lambda>v. v), jl_object = (\<lambda>u b. u @ b)\<rparr>"

definition emptyManager :: user_manager where
  "emptyManager = newUserManager (newUserSessionPair 16 (newReclaimer newHazardPointerList))"

definition sampleSession :: server_session where
  "sampleSession =
     (startAccept (session.extend (newSession TCP (Some s_packetManip) 7)
        (server_session.fields emptyManager)))
     \<lparr>spUser := Some \<lparr>userId = 0, userSessionType = TCP, userSession = 7\<rparr>\<rparr>"

abbreviation sampleHandler :: "(server_session, byte list) json_handler" where
  "sampleHandler \<equiv> SE_jsonHandler (stackMem (\<lambda>i. 0)) textJson"

lemma sampleSession_stream: "recvStream sampleSession = newByteStream DEFAULT_BUFFER_SIZE"
  by (simp add: sampleSession_def startAccept_def renewExpireTime_def asyncRead_def emit_def
      session.extend_def newSession_def Let_def)

lemma sampleSession_fields:
  "spUser sampleSession = Some \<lparr>userId = 0, userSessionType = TCP, userSession = 7\<rparr>"
  "identity sampleSession = 7" "sessionManip sampleSession = Some s_packetManip"
  by (simp_all add: sampleSession_def startAccept_def renewExpireTime_def asyncRead_def emit_def
      session.extend_def newSession_def Let_def)

definition loginPacket :: "byte list" where
  "loginPacket = wirePacket url_lobby_login (str ''{}'')"

definition loginStream :: byte_stream where
  "loginStream = (case newPacket loginPacket of Inl f \<Rightarrow> newByteStream 0 | Inr bs \<Rightarrow> bs)"

lemma login_lengths:
  "length url_lobby_login \<le> MAX_URL_STRING" "length (str ''{}'') = 2" "2 \<le> MAX_BODY_SIZE"
  by (simp_all add: sample_lengths MAX_URL_STRING_def MAX_BODY_SIZE_def str_def)

lemma length_loginPacket: "length loginPacket = 49"
  unfolding loginPacket_def using length_wirePacket [OF login_lengths(1), of "str ''{}''"]
  by (simp add: HEADER_SIZE_def login_lengths)

lemma loginStream_ok: "bs_wf loginStream" "contents loginStream = loginPacket"
proof -
  obtain bs where "newPacket loginPacket = Inr bs" "bs_wf bs" "contents bs = loginPacket"
    using newPacket_ok [of loginPacket] length_loginPacket by auto
  then show "bs_wf loginStream" "contents loginStream = loginPacket" by (simp_all add: loginStream_def)
qed

lemma loginPacket_frames:
  "splitFrames loginPacket = ([(PT_JSON_packet_value, loginPacket)], Waiting, [])"
proof -
  have "nextFrame (loginPacket @ []) = Frame PT_JSON_packet_value loginPacket []"
    unfolding loginPacket_def
    by (rule wirePacket_frame) (simp_all only: login_lengths)
  then show ?thesis
    using length_loginPacket
    by (auto simp: splitFrames.simps [of loginPacket] splitFrames.simps [of "[]"] nextFrame_def [of "[]"]
        sizeof_HEADER_def)
qed

lemma server_dom: "dom (serverTable w jh) = {PT_JSON_packet_value, PT_JSON_FOR_WEBSOCKET_packet_value}"
  by (auto simp: serverProcedure_def init_table)

lemma login_delivered:
  assumes "spUser s = spUser sampleSession" "identity s = 7" "sessionManip s = Some s_packetManip"
  shows "deliver (serverTable 0 sampleHandler) [(PT_JSON_packet_value, loginPacket)] s =
    Inr (asyncWrite loginPacket s)"
  using login_deliver [of s _ "stackMem (\<lambda>i. 0)" "str ''{}''" textJson "str ''{}''" 0] assms
  by (simp add: sampleSession_fields loginPacket_def textJson_def login_lengths)
     (simp add: str_def)

section \<open>Packets\<close>

text \<open>
  C1. The TCP parser of the server implements the framing: on a receive stream whose bytes frame
  into the packets \<open>fs\<close>, each with a registered handler, followed by the unframed rest \<open>r\<close>, it hands
  exactly these packets to their handlers, in order, stops with the rest in the stream, and
  returns true or, at a header out of range, false. If a handler fails, so does it.
\<close>

theorem parser_implements_framing:
  assumes "bs_wf (recvStream s)" and "splitFrames (contents (recvStream s)) = (fs, e, r)"
    and "e \<noteq> Stalled" and "fst ` set fs \<subseteq> dom (serverTable w (SE_jsonHandler mem L))"
  shows "case deliver (serverTable w (SE_jsonHandler mem L)) fs s of
      Inl f \<Rightarrow> parseTcp (serverReceiver w (SE_jsonHandler mem L)) (serverTable w (SE_jsonHandler mem L)) s =
        Some (Inl f)
    | Inr t \<Rightarrow> \<exists>st. consumed (recvStream s) st \<and> contents st = r
        \<and> parseTcp (serverReceiver w (SE_jsonHandler mem L)) (serverTable w (SE_jsonHandler mem L)) s =
            Some (Inr (e = Waiting, t\<lparr>recvStream := st\<rparr>))"
  using assms by (rule server_packets.parseTcp_split)


theorem parser_implements_framing_witness:
  "\<exists>st. contents st = [] \<and>
     parseTcp (serverReceiver 0 sampleHandler) (serverTable 0 sampleHandler)
       (sampleSession\<lparr>recvStream := loginStream\<rparr>) =
     Some (Inr (True, asyncWrite loginPacket sampleSession\<lparr>recvStream := st\<rparr>))"
proof -
  let ?s = "sampleSession\<lparr>recvStream := loginStream\<rparr>"
  have "deliver (serverTable 0 sampleHandler) [(PT_JSON_packet_value, loginPacket)] ?s =
      Inr (asyncWrite loginPacket ?s)"
    by (rule login_delivered) (simp_all add: sampleSession_fields)
  then show ?thesis
    using parser_implements_framing [of ?s "[(PT_JSON_packet_value, loginPacket)]" Waiting "[]" 0
        "stackMem (\<lambda>i. 0)" textJson]
    by (auto simp: loginStream_ok loginPacket_frames server_dom asyncWrite_def emit_def)
qed

text \<open>
  C2. How the bytes of a TCP stream are cut into reads does not matter: as long as they fit the
  receive buffer, feeding any sequence of pieces to the server delivers the packets of the whole
  and leaves the bytes behind the last packet.
\<close>

theorem reads_may_be_cut_anywhere:
  assumes "bs_wf (recvStream s)"
    and "posWrite (recvStream s) + int (length (concat cs)) \<le> int (length (buffer (recvStream s)))"
    and "nextFrame (contents (recvStream s)) = More"
    and "splitFrames (contents (recvStream s) @ concat cs) = (fs, Waiting, r)"
    and "fst ` set fs \<subseteq> dom (serverTable w (SE_jsonHandler mem L))"
    and "deliver (serverTable w (SE_jsonHandler mem L)) fs s = Inr t"
  shows "\<exists>st. feedAll (serverReceiver w (SE_jsonHandler mem L)) (serverTable w (SE_jsonHandler mem L)) cs s =
      Some (Inr (t\<lparr>recvStream := st\<rparr>)) \<and> contents st = r \<and> bs_wf st"
  using assms by (rule server_packets.feedAll_chunks)

lemma concat_singletons: "concat (map (\<lambda>b. [b]) xs) = xs"
  by (induction xs) simp_all

theorem reads_may_be_cut_anywhere_witness:
  "\<exists>st. feedAll (serverReceiver 0 sampleHandler) (serverTable 0 sampleHandler)
      (map (\<lambda>b. [b]) loginPacket) sampleSession =
    Some (Inr (asyncWrite loginPacket sampleSession\<lparr>recvStream := st\<rparr>)) \<and> contents st = [] \<and> bs_wf st"
proof (rule reads_may_be_cut_anywhere [where fs = "[(PT_JSON_packet_value, loginPacket)]"])
  show "bs_wf (recvStream sampleSession)"
    by (simp add: sampleSession_stream newByteStream_wf DEFAULT_BUFFER_SIZE_def)
  show "nextFrame (contents (recvStream sampleSession)) = More"
    by (simp add: sampleSession_stream nextFrame_def sizeof_HEADER_def)
  show "deliver (serverTable 0 sampleHandler) [(PT_JSON_packet_value, loginPacket)] sampleSession =
      Inr (asyncWrite loginPacket sampleSession)"
    by (rule login_delivered) (simp_all add: sampleSession_fields)
qed (simp_all add: sampleSession_stream concat_singletons loginPacket_frames server_dom
    length_loginPacket DEFAULT_BUFFER_SIZE_def)

text \<open>
  A login over TCP, from the wire to the wire: a session with a user receives, in any number of
  reads, the packet that a client sends for \<open>/lobby/login\<close>; if the body is JSON and the printed
  value fits a packet, the server writes exactly one packet, the one with the same URL and the
  printed value, and the receive stream is empty again.
\<close>

lemma login_is_answered:
  assumes "recvStream s = newByteStream DEFAULT_BUFFER_SIZE" and "spUser s = Some u"
    and "userSessionType u = TCP" and "userSession u = identity s"
    and "sessionManip s = Some s_packetManip" and "length mem = sizeof_PT_JSON"
    and "body \<noteq> []" and "HEADER_SIZE + length body \<le> DEFAULT_BUFFER_SIZE"
    and "length body \<le> MAX_BODY_SIZE"
    and "jl_parse L body = Inr jv" and "length (jl_serialize L jv) \<le> MAX_BODY_SIZE"
    and "concat cs = wirePacket url_lobby_login body"
  shows "\<exists>st. feedAll (serverReceiver w (SE_jsonHandler mem L)) (serverTable w (SE_jsonHandler mem L)) cs s =
      Some (Inr (asyncWrite (wirePacket url_lobby_login (jl_serialize L jv)) s\<lparr>recvStream := st\<rparr>))
    \<and> contents st = [] \<and> bs_wf st"
  by (rule server_receives [OF assms])

text \<open>
  C3. The sample's login, there and back: a client that connects sends one packet; a server session
  that was just accepted, receiving this packet in any number of reads, sends one packet; the client,
  receiving that one in any number of reads, takes it and stays as it is, with an empty stream. The
  JSON library must parse the client's text and what the server prints of it, which has to fit a
  packet; nothing else is assumed of the two ends but that they are new sessions of these services.
\<close>

theorem login_there_and_back:
  assumes "recvStream c = newByteStream DEFAULT_BUFFER_SIZE" and "sessionManip c = Some s_packetManip"
    and "remote c"
    and "recvStream s0 = newByteStream DEFAULT_BUFFER_SIZE" and "sessionManip s0 = Some s_packetManip"
    and "sessionType s0 = TCP"
    and "jl_parse L sampleLoginBody = Inr jv" and "jl_parse L (jl_serialize L jv) = Inr jv'"
    and "jl_serialize L jv \<noteq> []" and "length (jl_serialize L jv) \<le> MAX_BODY_SIZE"
    and "HEADER_SIZE + length (jl_serialize L jv) \<le> DEFAULT_BUFFER_SIZE"
  shows "\<exists>c1 s request answer.
      SC_onConnect (stackMem g) remote c = Inr c1 \<and> c1 = asyncWrite request (setUser (Some (newUserBase c)) c)
    \<and> SE_onAccept s0 = Inr s
    \<and> (\<forall>cs. concat cs = request \<longrightarrow> (\<exists>st.
        feedAll (serverReceiver w (SE_jsonHandler (stackMem g') L)) (serverTable w (SE_jsonHandler (stackMem g') L)) cs s =
          Some (Inr (asyncWrite answer s\<lparr>recvStream := st\<rparr>)) \<and> contents st = [] \<and> bs_wf st))
    \<and> (\<forall>cs. concat cs = answer \<longrightarrow> (\<exists>st.
        feedAll (clientReceiver (stackMem g) remote (SC_jsonHandler L)) (clientTable (stackMem g) remote (SC_jsonHandler L)) cs c1 =
          Some (Inr (c1\<lparr>recvStream := st\<rparr>)) \<and> contents st = [] \<and> bs_wf st))"
proof -
  let ?request = "wirePacket url_lobby_login sampleLoginBody"
  let ?answer = "wirePacket url_lobby_login (jl_serialize L jv)"
  let ?c1 = "asyncWrite ?request (setUser (Some (newUserBase c)) c)"
  obtain s where s: "SE_onAccept s0 = Inr s" using SE_onAccept_returns by blast
  note acc = accepted_user [OF s]
  have c1: "recvStream ?c1 = newByteStream DEFAULT_BUFFER_SIZE" "spUser ?c1 = Some (newUserBase c)"
    using assms(1) by (simp_all add: asyncWrite_def emit_def setUser_def)
  have body: "sampleLoginBody \<noteq> []" "HEADER_SIZE + length sampleLoginBody \<le> DEFAULT_BUFFER_SIZE"
      "length sampleLoginBody \<le> MAX_BODY_SIZE"
    using sample_lengths(2) by (auto simp: HEADER_SIZE_def DEFAULT_BUFFER_SIZE_def MAX_BODY_SIZE_def)
  have server: "\<forall>cs. concat cs = ?request \<longrightarrow> (\<exists>st.
        feedAll (serverReceiver w (SE_jsonHandler (stackMem g') L)) (serverTable w (SE_jsonHandler (stackMem g') L)) cs s =
          Some (Inr (asyncWrite ?answer s\<lparr>recvStream := st\<rparr>)) \<and> contents st = [] \<and> bs_wf st)"
    using acc assms(4-6)
    by (intro allI impI server_receives [OF _ acc(1) _ _ _ length_stackMem body assms(7,10)])
       (simp_all add: newUserBase_def)
  have client: "\<forall>cs. concat cs = ?answer \<longrightarrow> (\<exists>st.
        feedAll (clientReceiver (stackMem g) remote (SC_jsonHandler L)) (clientTable (stackMem g) remote (SC_jsonHandler L)) cs ?c1 =
          Some (Inr (?c1\<lparr>recvStream := st\<rparr>)) \<and> contents st = [] \<and> bs_wf st)"
    by (intro allI impI client_receives [OF c1 assms(9,11,10,8)])
  show ?thesis
    using SC_onConnect_sends [of c remote g, OF assms(2,3)] s server client by blast
qed

definition newClient :: session where
  "newClient = startConnect TCP (newSession TCP (Some s_packetManip) 3)"

theorem login_there_and_back_witness:
  "\<exists>c1 s request answer.
      SC_onConnect (stackMem (\<lambda>i. 0)) (\<lambda>s. True) newClient = Inr c1
    \<and> SE_onAccept (sampleSession\<lparr>spUser := None\<rparr>) = Inr s
    \<and> (\<exists>st. feedAll (serverReceiver 0 sampleHandler) (serverTable 0 sampleHandler)
          [take 10 request, drop 10 request] s =
        Some (Inr (asyncWrite answer s\<lparr>recvStream := st\<rparr>)) \<and> contents st = [] \<and> bs_wf st)"
proof -
  have lens: "sampleLoginBody \<noteq> []" "length sampleLoginBody \<le> MAX_BODY_SIZE"
      "HEADER_SIZE + length sampleLoginBody \<le> DEFAULT_BUFFER_SIZE"
    using sample_lengths(2) by (auto simp: MAX_BODY_SIZE_def HEADER_SIZE_def DEFAULT_BUFFER_SIZE_def)
  have client: "recvStream newClient = newByteStream DEFAULT_BUFFER_SIZE" "sessionManip newClient = Some s_packetManip"
    by (simp_all add: newClient_def startConnect_def renewExpireTime_def asyncRead_def emit_def newSession_def Let_def)
  have server: "sessionType sampleSession = TCP"
    by (simp add: sampleSession_def startAccept_def renewExpireTime_def asyncRead_def emit_def
        session.extend_def newSession_def Let_def)
  obtain c1 s request answer where "SC_onConnect (stackMem (\<lambda>i. 0)) (\<lambda>s. True) newClient = Inr c1"
      and "SE_onAccept (sampleSession\<lparr>spUser := None\<rparr>) = Inr s"
      and "\<forall>cs. concat cs = request \<longrightarrow> (\<exists>st. feedAll (serverReceiver 0 sampleHandler) (serverTable 0 sampleHandler) cs s =
        Some (Inr (asyncWrite answer s\<lparr>recvStream := st\<rparr>)) \<and> contents st = [] \<and> bs_wf st)"
    using login_there_and_back [of newClient "\<lambda>s. True" "sampleSession\<lparr>spUser := None\<rparr>" textJson
        sampleLoginBody sampleLoginBody "\<lambda>i. 0" 0 "\<lambda>i. 0"] lens client server
    by (auto simp: sampleSession_stream sampleSession_fields textJson_def simp del: feedAll.simps)
  moreover have "concat [take 10 request, drop 10 request] = request" by simp
  ultimately show ?thesis by blast
qed

text \<open>
  C4. What a client sends is what a server reads: \<open>sendJsonPacket\<close> hands the bytes of one packet to
  the socket, the packet parser takes exactly these bytes as one frame of the JSON code, whatever
  follows them, and \<open>readJsonPacket\<close> on that frame calls the dispatcher with the URL and the parsed
  body that were sent.
\<close>

theorem json_packet_roundtrip:
  assumes "length mem = sizeof_PT_JSON" and "sessionManip s = Some s_packetManip"
    and "length url < MAX_URL_STRING" and "0 \<notin> set url" and "body \<noteq> []"
    and "length body \<le> MAX_BODY_SIZE"
    and "jsonParsingCallback jh = Some f" and "f body False = Inr (True, jv, v)"
  shows "\<exists>p. sendJsonPacket mem EncType_GREETING url body (Some s) =
        Inr (int (length p), Some (asyncWrite p s))
    \<and> (\<forall>rest. nextFrame (p @ rest) = Frame PT_JSON_packet_value p rest)
    \<and> (\<exists>packet. newPacket p = Inr packet \<and>
        (\<exists>packet'. readJsonPacket jh t (length p) packet =
          bindR (jsonDispatch jh t url jv) (\<lambda>t'. Inr (True, packet', t'))))"
proof -
  let ?p = "wirePacket url body"
  have u: "length url \<le> MAX_URL_STRING" using assms(3) by simp
  have len: "length ?p = HEADER_SIZE + length body" by (rule length_wirePacket [OF u])
  obtain packet where pk: "newPacket ?p = Inr packet" "bs_wf packet" "contents packet = ?p"
    using newPacket_ok [of ?p] len assms(6) by (auto simp: layout_defs)
  have "sendJsonPacket mem EncType_GREETING url body (Some s) =
      Inr (int (length ?p), Some (asyncWrite ?p s))"
    using sendJsonPacket_sends [OF assms(1,2) u assms(6)] len by simp
  moreover have "\<forall>rest. nextFrame (?p @ rest) = Frame PT_JSON_packet_value ?p rest"
    using wirePacket_frame [OF u assms(6)] by blast
  moreover have "\<exists>packet'. readJsonPacket jh t (length ?p) packet =
      bindR (jsonDispatch jh t url jv) (\<lambda>t'. Inr (True, packet', t'))"
    unfolding len by (rule readJsonPacket_wire [OF pk(2,3) assms(3-8)])
  ultimately show ?thesis using pk(1) by blast
qed

theorem json_packet_roundtrip_witness:
  "\<exists>p. sendJsonPacket (stackMem (\<lambda>i. 0)) EncType_GREETING url_lobby_login (str ''{}'') (Some sampleSession) =
        Inr (int (length p), Some (asyncWrite p sampleSession))
    \<and> (\<forall>rest. nextFrame (p @ rest) = Frame PT_JSON_packet_value p rest)
    \<and> (\<exists>packet. newPacket p = Inr packet \<and>
        (\<exists>packet'. readJsonPacket sampleHandler sampleSession (length p) packet =
          bindR (jsonDispatch sampleHandler sampleSession url_lobby_login (str ''{}''))
            (\<lambda>t'. Inr (True, packet', t'))))"
proof (rule json_packet_roundtrip)
  show "jsonParsingCallback sampleHandler = Some (jsonParser textJson)" by (simp add: SE_json_defs)
  show "jsonParser textJson (str ''{}'') False = Inr (True, str ''{}'', [])"
    by (simp add: jsonParser_def textJson_def boostjson_parse_def catchJson_def)
qed (simp_all add: sampleSession_fields sample_lengths login_lengths MAX_URL_STRING_def,
     simp_all add: url_lobby_login_def str_def)

section \<open>The life of a session\<close>

abbreviation serverReach :: "nat \<Rightarrow> byte list \<Rightarrow> 'j json_lib \<Rightarrow> server_session \<Rightarrow> bool" where
  "serverReach w mem L \<equiv> session_reach (serverReceiver w (SE_jsonHandler mem L))
     (dispatch (serverProcedure w (SE_jsonHandler mem L)))"

abbreviation serverStep :: "nat \<Rightarrow> byte list \<Rightarrow> 'j json_lib \<Rightarrow> server_session \<Rightarrow> server_session \<Rightarrow> bool" where
  "serverStep w mem L \<equiv> session_step (serverReceiver w (SE_jsonHandler mem L))
     (dispatch (serverProcedure w (SE_jsonHandler mem L)))"

abbreviation serverRun :: "nat \<Rightarrow> byte list \<Rightarrow> 'j json_lib \<Rightarrow> nat \<Rightarrow> server_session
    \<Rightarrow> server_session result option" where
  "serverRun w mem L \<equiv> runStrand (serverReceiver w (SE_jsonHandler mem L))
     (dispatch (serverProcedure w (SE_jsonHandler mem L)))"

text \<open>The sample session, before and after its peer has closed the connection.\<close>

definition eofSession :: server_session where
  "eofSession = post (T_handleRead Ec_eof []) (sampleSession\<lparr>readsInFlight := 0\<rparr>)"

definition pendingSession :: server_session where
  "pendingSession = tryCloseByFailed Shutdown_receive (sampleSession\<lparr>readsInFlight := 0\<rparr>)"

lemma sampleSession_state:
  "readsInFlight sampleSession = 1" "strand sampleSession = []" "socketStatus sampleSession = OPEN"
  "readHandlerPending sampleSession = 0" "sessionType sampleSession = TCP"
  "g_userManager sampleSession = emptyManager" "socketOpen sampleSession = False"
  "keepAliveWaits sampleSession = 0" "closeWaits sampleSession = []"
  by (simp_all add: sampleSession_def startAccept_def renewExpireTime_def asyncRead_def emit_def
      session.extend_def newSession_def Let_def server_session.fields_def)

lemma sampleSession_reach: "serverReach w mem L sampleSession"
proof -
  let ?n = "session.extend (newSession TCP (Some s_packetManip) 7) (server_session.fields emptyManager)"
  have "serverReach w mem L (startAccept ?n)"
    using session_reach.accepted [of ?n TCP "Some s_packetManip" 0 0 7 False ?n]
    by (simp add: session.extend_def session.truncate_def create_def newSession_def)
  moreover have "serverStep w mem L (startAccept ?n) sampleSession"
    unfolding sampleSession_def
    by (rule session_step.application) (simp add: setUser_def [symmetric] api_setUser)
  ultimately show ?thesis by (rule session_reach.step)
qed

lemma eofSession_step: "serverStep w mem L sampleSession eofSession"
  unfolding eofSession_def
  by (rule session_step.read_done) (simp_all add: sampleSession_state)

lemma pendingSession_step: "serverStep w mem L eofSession pendingSession"
proof (rule session_step.run)
  show "strand eofSession = T_handleRead Ec_eof [] # []"
    by (simp add: eofSession_def post_def sampleSession_state)
  have "eofSession\<lparr>strand := []\<rparr> = sampleSession\<lparr>readsInFlight := 0\<rparr>"
    by (simp add: eofSession_def post_def) (simp add: sampleSession_state)
  then show "runTask (serverReceiver w (SE_jsonHandler mem L))
      (dispatch (serverProcedure w (SE_jsonHandler mem L))) (T_handleRead Ec_eof [])
      (eofSession\<lparr>strand := []\<rparr>) = Some (Inr pendingSession)"
    by (simp add: handleRead_def pendingSession_def)
qed

lemma pendingSession_state:
  "strand pendingSession = [T_onClose]" "socketStatus pendingSession = PENDING_CLOSE"
  "spUser pendingSession = spUser sampleSession" "g_userManager pendingSession = emptyManager"
  by (simp_all add: pendingSession_def session_ops sampleSession_state)

lemma pendingSession_reach: "serverReach w mem L pendingSession"
  by (rule session_reach.step [OF session_reach.step [OF sampleSession_reach eofSession_step]
        pendingSession_step])

text \<open>
  C7. Reads are never concurrent and retries are bounded: in every reachable state of a server
  session at most one read is in flight or waiting on the strand, and after the sixth failed
  attempt (five retries) no read is left.
\<close>

theorem one_read_at_a_time:
  assumes "serverReach w mem L s"
  shows "readTokens s \<le> 1
    \<and> (postRetryCount s \<le> HANDLE_READ_RETRY_MAX
       \<or> readTokens s = 0 \<and> postRetryCount s = HANDLE_READ_RETRY_MAX + 1)"
  using server_session.reach_inv [OF assms] by (simp add: session_inv_def read_ok_def)

theorem one_read_at_a_time_witness:
  "serverReach 0 (stackMem (\<lambda>i. 0)) textJson sampleSession \<and> readTokens sampleSession \<le> 1"
  using one_read_at_a_time sampleSession_reach by blast

text \<open>
  C6. The application is told of the end of a session exactly once: a reachable session has
  called \<open>onClose\<close> of the receiver once if it is closed and never before, and the handler that
  will do so is queued exactly when a close is pending, and then once.
\<close>

theorem close_notice_exactly_once:
  assumes "serverReach w mem L s"
  shows "closeNotices s = (if socketStatus s = CLOSED then 1 else 0)
    \<and> countTask ((=) T_onClose) s = (if socketStatus s = PENDING_CLOSE then 1 else 0)"
  using server_session.reach_inv [OF assms] by (simp add: session_inv_def close_ok_def)

theorem close_notice_exactly_once_witness:
  "socketStatus pendingSession = PENDING_CLOSE \<and> countTask ((=) T_onClose) pendingSession = 1
   \<and> closeNotices pendingSession = 0"
  using close_notice_exactly_once [OF pendingSession_reach] by (simp add: pendingSession_state)

text \<open>
  While a session is open, the counter of pending reads is the number of dispatches that
  wait on its strand (modulo the width of the counter).
\<close>

lemma pending_counts_dispatches:
  assumes "serverReach w mem L s" and "socketStatus s = OPEN"
  shows "readHandlerPending s = of_nat (countTask ((=) T_dispatch) s)"
  using server_session.reach_inv [OF assms(1)] assms(2) by (simp add: session_inv_def pending_ok_def)

text \<open>
  C17. No step moves the status of a session backwards: open, then pending close, then closed; in
  particular a closed session stays closed.
\<close>

theorem status_only_advances:
  assumes "serverStep w mem L s s'"
  shows "statusRank (socketStatus s) \<le> statusRank (socketStatus s')"
  using assms by (rule server_session.step_rank)

theorem status_only_advances_witness:
  "statusRank (socketStatus eofSession) \<le> statusRank (socketStatus pendingSession)"
  by (rule status_only_advances [OF pendingSession_step])

text \<open>
  C5. A pending close completes: if data that were read still fit the stream and the session has a
  user, running the handlers on the strand closes the session within the length of the strand.
  Then its socket is closed, the application was told once, the user's entry is gone from the
  table of sessions by user, and the user manager still lists the session.
\<close>

theorem pending_close_completes:
  assumes "serverReach w mem L s" and "socketStatus s = PENDING_CLOSE"
    and "readFits (strand s) (recvStream s)" and "spUser s = Some u"
    and "list_repr (userSessionPair (g_userManager s)) m"
  shows "\<exists>n s'. n \<le> length (strand s) \<and> serverRun w mem L n s = Some (Inr s')
    \<and> socketStatus s' = CLOSED \<and> \<not> socketOpen s' \<and> closeNotices s' = 1
    \<and> list_repr (userSessionPair (g_userManager s')) (m(of_nat (userId u) := None))
    \<and> users (g_userManager s') = users (g_userManager s)"
proof -
  have inv: "session_inv s" using assms(1) by (rule server_session.reach_inv)
  then have "countTask ((=) T_onClose) s = 1" and one: "countTask isHandleRead s \<le> 1"
    using assms(2) by (simp_all add: session_inv_def close_ok_def read_ok_def readTokens_def)
  then have "T_onClose \<in> set (strand s)" by (metis filter_empty_conv list.size(3) zero_neq_one)
  then obtain pre rest where st: "strand s = pre @ T_onClose # rest" "T_onClose \<notin> set pre"
    by (metis split_list_first)
  have fits: "length (filter isHandleRead pre) \<le> 1" "readFits pre (recvStream s)"
    using one assms(3) st(1) by (auto simp: readFits_def)
  obtain s1 q where s1: "serverRun w mem L (length pre) s = Some (Inr s1)"
      "strand s1 = T_onClose # rest @ q" "sameOwner s s1"
    using pending_run [where disp = "dispatch (serverProcedure w (SE_jsonHandler mem L))",
        OF _ assms(2) st fits] dispatch_closed by blast
  let ?s1 = "s1\<lparr>strand := rest @ q\<rparr>"
  have own: "socketStatus ?s1 \<noteq> CLOSED" "spUser ?s1 = Some u" "g_userManager ?s1 = g_userManager s"
    using s1(3) assms(2,4) userManager_more [of s1 s] by (simp_all add: sameOwner_def)
  obtain s' where s': "onClose (serverReceiver w (SE_jsonHandler mem L)) ?s1 = Inr s'"
      "socketStatus s' = CLOSED" "\<not> socketOpen s'" "users (g_userManager s') = users (g_userManager s)"
      "list_repr (userSessionPair (g_userManager s')) (m(of_nat (userId u) := None))"
    using server_onClose [OF own(1,2), of m w "SE_jsonHandler mem L"] assms(5) own(3) by auto
  have run: "serverRun w mem L (length pre + 1) s = Some (Inr s')"
    using runStrand_add [OF s1(1), of 1] s1(2) s'(1) by simp
  have "closeNotices s' = 1"
    using server_session.reach_inv [OF runStrand_reach [OF assms(1) run]] s'(2)
    by (simp add: session_inv_def close_ok_def)
  then show ?thesis using run s' st(1) by (intro exI [of _ "length pre + 1"]) auto
qed

theorem pending_close_completes_witness:
  "\<exists>n s'. n \<le> 1 \<and> serverRun 0 (stackMem (\<lambda>i. 0)) textJson n pendingSession = Some (Inr s')
    \<and> socketStatus s' = CLOSED \<and> closeNotices s' = 1"
proof -
  have "list_repr (newUserSessionPair 16 (newReclaimer newHazardPointerList)) Map.empty"
    by (rule newUserSessionPair_repr [OF _ _ newReclaimer_wf])
       (simp_all add: newReclaimer_def newHazardPointerList_def marked_def)
  then show ?thesis
    using pending_close_completes [OF pendingSession_reach, of "\<lparr>userId = 0, userSessionType = TCP, userSession = 7\<rparr>"
        Map.empty 0 "stackMem (\<lambda>i. 0)" textJson]
    by (auto simp: pendingSession_state sampleSession_fields readFits_def emptyManager_def
        newUserManager_def simp del: runStrand.simps)
qed

section \<open>Packets that are not as they should be\<close>

text \<open>A sample session that has received a header.\<close>

definition headerStream :: "int \<Rightarrow> u32 \<Rightarrow> byte_stream" where
  "headerStream n c = (case bwrite (encodeHEADER \<lparr>hsize = n, hcode = c\<rparr>) (newByteStream DEFAULT_BUFFER_SIZE) of
     Inl f \<Rightarrow> newByteStream 0 | Inr bs \<Rightarrow> bs)"

lemma headerStream_ok:
  "bs_wf (headerStream n c)" "contents (headerStream n c) = encodeHEADER \<lparr>hsize = n, hcode = c\<rparr>"
  "posWrite (headerStream n c) = 8" "length (buffer (headerStream n c)) = DEFAULT_BUFFER_SIZE"
proof -
  let ?h = "encodeHEADER \<lparr>hsize = n, hcode = c\<rparr>"
  have wf: "bs_wf (newByteStream DEFAULT_BUFFER_SIZE)"
    by (simp add: newByteStream_wf DEFAULT_BUFFER_SIZE_def)
  have "bsize (newByteStream DEFAULT_BUFFER_SIZE) = 0" by (simp add: bsize_wf [OF wf])
  then obtain bs where "bwrite ?h (newByteStream DEFAULT_BUFFER_SIZE) = Inr bs" "bs_wf bs" "contents bs = ?h"
    "posWrite bs = 8" "length (buffer bs) = DEFAULT_BUFFER_SIZE"
    using bwrite_ok [OF wf, of ?h]
    by (auto simp: canWrite_def sizeof_HEADER_def DEFAULT_BUFFER_SIZE_def)
  then show "bs_wf (headerStream n c)" "contents (headerStream n c) = ?h"
    "posWrite (headerStream n c) = 8" "length (buffer (headerStream n c)) = DEFAULT_BUFFER_SIZE"
    by (simp_all add: headerStream_def)
qed

lemma header_frame:
  assumes "- (2 ^ 31) \<le> n" and "n < 2 ^ 31"
  shows "nextFrame (encodeHEADER \<lparr>hsize = n, hcode = c\<rparr>) =
    (if n < 0 \<or> n > USHRT_MAX then Bad else if n > 8 then More
     else Frame c (take (nat n) (encodeHEADER \<lparr>hsize = n, hcode = c\<rparr>))
            (drop (nat n) (encodeHEADER \<lparr>hsize = n, hcode = c\<rparr>)))"
  using decode_encodeHEADER [of "\<lparr>hsize = n, hcode = c\<rparr>" "[]"] assms
  by (auto simp: nextFrame_def Let_def sizeof_HEADER_def)

text \<open>
  C26. A frame of size 0 of a known code never ends: on a stream that starts with a header of size 0
  and the JSON code, the parser of the server does not return.
\<close>

theorem zero_size_frame_never_returns:
  assumes "bs_wf (recvStream s)"
    and "nextFrame (contents (recvStream s)) = Frame PT_JSON_packet_value [] r"
  shows "parseTcp (serverReceiver w (SE_jsonHandler mem L)) (serverTable w (SE_jsonHandler mem L)) s = None"
  using assms by (rule server_stalls)

theorem zero_size_frame_never_returns_witness:
  "parseTcp (serverReceiver 0 sampleHandler) (serverTable 0 sampleHandler)
     (sampleSession\<lparr>recvStream := headerStream 0 PT_JSON_packet_value\<rparr>) = None"
  by (rule zero_size_frame_never_returns
        [where r = "encodeHEADER \<lparr>hsize = 0, hcode = PT_JSON_packet_value\<rparr>"])
     (simp_all add: headerStream_ok header_frame USHRT_MAX_def)

text \<open>
  C24. A packet of an unknown code is taken from the stream and ends the session: the parser calls
  \<open>noHandler\<close>, with which the server reserves an immediate close, and stops with the bytes behind the
  packet in the stream.
\<close>

theorem unknown_code_closes:
  assumes "bs_wf (recvStream s)" and "nextFrame (contents (recvStream s)) = Frame c p r"
    and "c \<noteq> PT_JSON_packet_value" and "c \<noteq> PT_JSON_FOR_WEBSOCKET_packet_value"
  shows "\<exists>st. contents st = r \<and>
    parseTcp (serverReceiver w (SE_jsonHandler mem L)) (serverTable w (SE_jsonHandler mem L)) s =
      Some (Inr (False, closeReserve 0 None (s\<lparr>recvStream := st\<rparr>)))"
proof -
  have "serverTable w (SE_jsonHandler mem L) c = None"
    using assms(3,4) by (simp add: serverProcedure_def init_table)
  then obtain st packet where "contents st = r"
    "parseTcp (serverReceiver w (SE_jsonHandler mem L)) (serverTable w (SE_jsonHandler mem L)) s =
      Some (bindR (callFn2 (noHandler (serverReceiver w (SE_jsonHandler mem L))) (s\<lparr>recvStream := st\<rparr>) packet)
        (\<lambda>s'. Inr (False, s')))"
    using server_packets.parseTcp_unknown [OF assms(1,2)] by metis
  then show ?thesis by (auto simp: serverReceiver_defs SE_noHandler_def)
qed

theorem unknown_code_closes_witness:
  "\<exists>st. contents st = [] \<and>
    parseTcp (serverReceiver 0 sampleHandler) (serverTable 0 sampleHandler)
       (sampleSession\<lparr>recvStream := headerStream 8 3\<rparr>) =
      Some (Inr (False, closeReserve 0 None (sampleSession\<lparr>recvStream := st\<rparr>)))"
  using unknown_code_closes [of "sampleSession\<lparr>recvStream := headerStream 8 3\<rparr>" 3
      "contents (headerStream 8 3)" "[]" 0 "stackMem (\<lambda>i. 0)" textJson]
  by (simp add: headerStream_ok header_frame USHRT_MAX_def sizeof_HEADER_def
      PT_JSON_packet_value_def PT_JSON_FOR_WEBSOCKET_packet_value_def)

text \<open>
  C25. A header out of range neither ends the session nor is it skipped: whatever is received after
  it, as long as it fits the buffer, is appended to the stream, and nothing else about the session
  changes: no packet is delivered, nothing is sent, no close is reserved.
\<close>

theorem bad_header_blocks_session:
  assumes "bs_wf (recvStream s)" and "nextFrame (contents (recvStream s)) = Bad"
    and "posWrite (recvStream s) + int (length (concat cs)) \<le> int (length (buffer (recvStream s)))"
  shows "\<exists>st. feedAll (serverReceiver w (SE_jsonHandler mem L)) (serverTable w (SE_jsonHandler mem L)) cs s =
      Some (Inr (s\<lparr>recvStream := st\<rparr>)) \<and> contents st = contents (recvStream s) @ concat cs"
  using assms by (rule server_packets.feedAll_rejected)

theorem bad_header_blocks_session_witness:
  "\<exists>st. feedAll (serverReceiver 0 sampleHandler) (serverTable 0 sampleHandler) [loginPacket, loginPacket]
      (sampleSession\<lparr>recvStream := headerStream (-1) PT_JSON_packet_value\<rparr>) =
    Some (Inr (sampleSession\<lparr>recvStream := st\<rparr>))
    \<and> contents st = contents (headerStream (-1) PT_JSON_packet_value) @ loginPacket @ loginPacket"
  using bad_header_blocks_session [of "sampleSession\<lparr>recvStream := headerStream (-1) PT_JSON_packet_value\<rparr>"
      "[loginPacket, loginPacket]" 0 "stackMem (\<lambda>i. 0)" textJson]
  by (simp add: headerStream_ok header_frame length_loginPacket DEFAULT_BUFFER_SIZE_def del: feedAll.simps)

text \<open>
  A websocket session never empties its receive stream: dispatching leaves every byte in it, so
  the next message is parsed together with all messages before it.
\<close>

lemma websocket_stream_is_not_consumed:
  assumes "sessionType s = WEBSOCKET" and "socketStatus s = OPEN"
    and "dispatch (serverProcedure w (SE_jsonHandler mem L)) s = Some (Inr (b, s'))"
  shows "recvStream s' = recvStream s"
proof -
  let ?jh = "SE_jsonHandler mem L"
  obtain t where "parseWebsocket (serverTable w ?jh) s = Inr (b, t)" "s' = decReadHandlerPendingCount t"
    using assms by (auto simp: dispatch_def serverProcedure_parser parse_def split: sum.splits)
  then show ?thesis
    using websocket_keeps_stream [of ?jh _ _ s b t]
    by (simp add: serverProcedure_def decReadHandlerPendingCount_def)
qed

lemma login_not_url: "loginPacket \<noteq> url_lobby_login"
  using length_loginPacket sample_lengths(1) by auto

section \<open>Services\<close>

text \<open>A service of the server, and an operating system that lets it listen.\<close>

definition sampleParams :: "(server_session, unit) service_params" where
  "sampleParams = \<lparr>sp_ioc = 1, sp_receiver = serverReceiver 0 sampleHandler,
     sp_packetParser = Some (parse (serverReceiver 0 sampleHandler)), sp_manip = Some s_packetManip,
     sp_serviceUpdateTimeMs = 1000, sp_keepAliveTimeMs = 60000\<rparr>"

definition allListen :: "byte list \<Rightarrow> u16 \<Rightarrow> listen_result" where
  "allListen addr port = \<lparr>lr_resolves = True, lr_opens = True, lr_binds = True, lr_listens = True\<rparr>"

text \<open>The invariant along the steps of a session that was started.\<close>

lemma steps_inv: "rtranclp (serverStep w mem L) s0 s \<Longrightarrow> session_inv s0 \<Longrightarrow> session_inv s"
  by (induction rule: rtranclp_induct) (auto intro: server_session.step_inv)

lemma session_inv_extend: "session_inv (session.extend s x) = session_inv s" for s :: session
  using session_inv_truncate [of "session.extend s x"] by simp

lemma accepted_inv:
  assumes "newServiceAcceptor garbage seed sh p i = Inr a" and "sp_receiver p = serverReceiver w jh"
    and "acceptWait addr tcp web os now a = Inr (ok, acc0)" and "accept_reach acc0 acc"
  shows "acceptor_inv acc" and "s \<in> set (a_sessions acc) \<Longrightarrow> session_inv s"
proof -
  have a: "tcpAccept a = None" "webAccept a = None" "handshakes a = []" "a_sessions a = []"
    "eventReceiver (a_netObj a) = serverReceiver w jh"
    using assms(1,2)
    by (auto simp: newServiceAcceptor_def newNetServiceAcceptor_def newNetCommonObjects_def
        bindR_eq_Inr clone_eq setIndex_def Let_def)
  note w = acceptWait_ok [OF assms(3) a(1-3)]
  have er: "eventReceiver (a_netObj acc0) = serverReceiver w jh" using w(5) a(5) by simp
  have "\<forall>s \<in> set (a_sessions acc0). session_inv s" using w(4) a(4) by simp
  then show "acceptor_inv acc" "s \<in> set (a_sessions acc) \<Longrightarrow> session_inv s"
    using server_accept.reach_acceptor_inv [OF assms(4) er w(1)]
      server_accept.reach_sessions_inv [OF assms(4) er w(1)] by blast+
qed

text \<open>
  C18. Accepting keeps its invariants from the start of the server on: after \<open>acceptWait\<close>, whatever
  accepts and handshakes complete, every session that was started satisfies the session invariant, at
  most one websocket connection is on its way in, and what waits to be accepted is a new session of
  the right kind.
\<close>

theorem accepted_sessions_are_sound:
  assumes "newServiceAcceptor garbage seed sh p i = Inr a" and "sp_receiver p = serverReceiver w jh"
    and "acceptWait addr tcp web os now a = Inr (ok, acc0)" and "accept_reach acc0 acc"
  shows "acceptor_inv acc \<and> (\<forall>s \<in> set (a_sessions acc). session_inv s)"
  using accepted_inv [OF assms] by blast

text \<open>The sample service, created and listening.\<close>

lemma sample_listens:
  obtains a acc0 where "newServiceAcceptor 0 1 (server_session.fields emptyManager) sampleParams i = Inr a"
    and "acceptWait [] 9090 9091 allListen 0 a = Inr (True, acc0)"
    and "eventReceiver (a_netObj acc0) = serverReceiver 0 sampleHandler" and "acceptor_inv acc0"
    and "a_sessions acc0 = []" and "ids_ok acc0" and "identitySeed acc0 = 3"
proof -
  let ?sh = "server_session.fields emptyManager"
  obtain ob where ob: "newNetCommonObjects sampleParams = Inr ob"
      "eventReceiver ob = serverReceiver 0 sampleHandler"
    using serverProcedure_service [of sampleParams 0 sampleHandler] by (auto simp: sampleParams_def)
  define a where "a = \<lparr>a_netObj = setIndex i ob, tcpAccept = None, webAccept = None, handshakes = [],
    a_sessions = [], a_serviceIndex = 0, identitySeed = 1, a_shared = ?sh\<rparr>"
  have a: "newServiceAcceptor 0 1 ?sh sampleParams i = Inr a"
    by (simp add: newServiceAcceptor_def newNetServiceAcceptor_def ob(1) a_def)
  obtain acc0 where acc0: "acceptWait [] 9090 9091 allListen 0 a = Inr (True, acc0)"
      "ids_ok acc0" "identitySeed acc0 = 3"
    by (auto simp: acceptWait_def createSession_def acceptorSession_def create_def allListen_def a_def
        ids_ok_def pendingIds_def newSession_def setServiceID_def Let_def)
  note w = acceptWait_ok [OF acc0(1)]
  show thesis
    using w acc0 a ob(2) by (intro that [of a acc0]) (simp_all add: a_def setIndex_def)
qed

text \<open>The sample service accepts a TCP connection.\<close>

lemma sample_accepts:
  obtains a acc0 acc s0 where "newServiceAcceptor 0 1 (server_session.fields emptyManager) sampleParams 0 = Inr a"
    and "acceptWait [] 9090 9091 allListen 0 a = Inr (True, acc0)" and "accept_reach acc0 acc" and "s0 \<in> set (a_sessions acc)"
proof -
  obtain a acc0 where s: "newServiceAcceptor 0 1 (server_session.fields emptyManager) sampleParams 0 = Inr a"
      "acceptWait [] 9090 9091 allListen 0 a = Inr (True, acc0)"
      "eventReceiver (a_netObj acc0) = serverReceiver 0 sampleHandler" "acceptor_inv acc0"
    by (rule sample_listens)
  obtain t where t: "tcpAccept acc0 = Some t"
    using s(2) by (auto simp: acceptWait_def createSession_def acceptorSession_def allListen_def split_beta Let_def
        expireTimerReady_def armUpdater_def)
  let ?t = "session.extend (saveEndPoint ([], 5) (t\<lparr>socketOpen := True\<rparr>)) (a_shared acc0)"
  obtain s1 where s1: "SE_onAccept ?t = Inr s1" using SE_onAccept_returns by blast
  let ?n = "acceptorSession (sessionType (startAccept s1)) (acc0\<lparr>tcpAccept := None, a_sessions := a_sessions acc0 @
      [session.truncate (startAccept s1)], a_shared := session.more (startAccept s1)\<rparr>)"
  obtain acc where acc: "handleAccept Ec_ok (Some ([], 5)) (t\<lparr>socketOpen := True\<rparr>) (acc0\<lparr>tcpAccept := None\<rparr>) = Inr acc"
      "session.truncate (startAccept s1) \<in> set (a_sessions acc)"
    using s(3) s1 by (auto simp: handleAccept_def serverReceiver_defs acceptorSession_def split_beta Let_def)
  have "accept_step acc0 acc" by (rule accept_step.tcp [OF t, where ec = Ec_ok]) (use acc(1) in simp)
  then have "accept_reach acc0 acc" using accept_reach.step [OF accept_reach.start] by blast
  then show thesis using that s(1,2) acc(2) by blast
qed

theorem accepted_sessions_are_sound_witness:
  "\<exists>a acc0 acc s0. newServiceAcceptor 0 1 (server_session.fields emptyManager) sampleParams 0 = Inr a
    \<and> acceptWait [] 9090 9091 allListen 0 a = Inr (True, acc0) \<and> accept_reach acc0 acc
    \<and> acceptor_inv acc \<and> s0 \<in> set (a_sessions acc) \<and> session_inv s0"
proof -
  obtain a acc0 acc s0 where s: "newServiceAcceptor 0 1 (server_session.fields emptyManager) sampleParams 0 = Inr a"
      "acceptWait [] 9090 9091 allListen 0 a = Inr (True, acc0)" "accept_reach acc0 acc" "s0 \<in> set (a_sessions acc)"
    by (rule sample_accepts)
  have "sp_receiver sampleParams = serverReceiver 0 sampleHandler" by (simp add: sampleParams_def)
  then have "acceptor_inv acc \<and> session_inv s0"
    using accepted_sessions_are_sound [OF s(1) _ s(2,3)] s(4) by blast
  then show ?thesis using s by blast
qed

text \<open>
  C28. The keep-alive timer never runs, whatever keep-alive time (\<open>sp_keepAliveTimeMs\<close>) the service was
  given: \<open>Session::create\<close>, which the accept loops call with the service's time, does not pass it on. Take
  any session that a service of the server has accepted, and any steps of it: it does not wait for the
  timer and was never reported as expired. In the witness the time is a minute.
\<close>

theorem keep_alive_never_fires:
  assumes "newServiceAcceptor garbage seed sh p i = Inr a" and "sp_receiver p = serverReceiver w (SE_jsonHandler mem L)"
    and "acceptWait addr tcp web os now a = Inr (ok, acc0)" and "accept_reach acc0 acc"
    and "s0 \<in> set (a_sessions acc)" and "rtranclp (serverStep w mem L) (session.extend s0 x) s"
  shows "keepAliveTime s = 0 \<and> keepAliveWaits s = 0 \<and> F_onExpiredSession \<notin> set (effects s)"
proof -
  have "session_inv (session.extend s0 x)" using accepted_inv(2) [OF assms(1-5)] by (simp add: session_inv_extend)
  from steps_inv [OF assms(6) this] show ?thesis by (simp add: session_inv_def keepAlive_off_def)
qed

theorem keep_alive_never_fires_witness:
  "sp_keepAliveTimeMs sampleParams = 60000
   \<and> (\<exists>a acc0 acc s0. newServiceAcceptor 0 1 (server_session.fields emptyManager) sampleParams 0 = Inr a
        \<and> acceptWait [] 9090 9091 allListen 0 a = Inr (True, acc0) \<and> accept_reach acc0 acc \<and> s0 \<in> set (a_sessions acc)
        \<and> keepAliveWaits s0 = 0)"
proof -
  obtain a acc0 acc s0 where r: "newServiceAcceptor 0 1 (server_session.fields emptyManager) sampleParams 0 = Inr a"
      "acceptWait [] 9090 9091 allListen 0 a = Inr (True, acc0)" "accept_reach acc0 acc" "s0 \<in> set (a_sessions acc)"
    by (rule sample_accepts)
  let ?x = "server_session.fields emptyManager"
  have p: "sp_receiver sampleParams = serverReceiver 0 (SE_jsonHandler (stackMem (\<lambda>i. 0)) textJson)"
    by (simp add: sampleParams_def)
  have "keepAliveWaits (session.extend s0 ?x) = 0"
    using keep_alive_never_fires [OF r(1) p r(2-4), of ?x "session.extend s0 ?x"] by simp
  then have "keepAliveWaits s0 = 0" by (simp add: session.extend_def)
  then show ?thesis using r by (auto simp: sampleParams_def)
qed

text \<open>
  One failed accept ends the TCP service: after \<open>handleAccept\<close> was called with an error, no accept
  is under way again and no TCP session is ever added, whatever happens on the websocket side.
\<close>

lemma failed_accept_ends_listening:
  assumes "eventReceiver (a_netObj acc) = serverReceiver w jh" and "acceptor_inv acc" and "ec \<noteq> Ec_ok"
    and "handleAccept ec remote s (acc\<lparr>tcpAccept := None\<rparr>) = Inr acc1" and "accept_reach acc1 acc2"
  shows "tcpAccept acc2 = None \<and> sessionsOf TCP acc2 = sessionsOf TCP acc"
proof -
  have acc1: "acc1 = acc\<lparr>tcpAccept := None\<rparr>" using assms(3,4) by (simp add: handleAccept_def)
  have "acceptor_inv acc1" using assms(2) acc1 by (simp add: acceptor_inv_def)
  then show ?thesis
    using server_accept.reach_tcp_dead [OF assms(5), of w jh] assms(1) acc1 by (simp add: sessionsOf_def)
qed

text \<open>
  Session identities are unique: as long as the 64-bit counter does not wrap around, a step of the
  acceptor keeps all identities of started and waiting sessions distinct and below the counter.
\<close>

lemma identities_stay_unique:
  assumes "accept_step acc acc'" and "eventReceiver (a_netObj acc) = serverReceiver w jh"
    and "acceptor_inv acc" and "ids_ok acc" and "identitySeed acc + 1 \<noteq> 0"
  shows "ids_ok acc'"
  using assms by (rule server_accept.accept_step_ids)

text \<open>
  C19. \<open>connectWait\<close> for \<open>n\<close> sessions makes \<open>n\<close> sessions: once the name is resolved and every connect
  succeeds, the sample client starts exactly \<open>n\<close> sessions, one after the other, and then no connect
  is under way.
\<close>

theorem connects_requested_sessions:
  assumes "eventReceiver (c_netObj c) = clientReceiver (stackMem g) (\<lambda>s. True) jh"
    and "getManip (packetProc (c_netObj c)) = Some s_packetManip" and "resolver c = Unresolved"
    and "dns (if targetAddr c = [] then str ''127.0.0.1'' else targetAddr c) (targetPort c) = Some ep0"
    and "connecting c = []" and "0 < n" and "n < 2 ^ 16"
  shows "\<exists>c'. runConnects (replicate n (Ec_ok, Some ep, True)) (connectWait dns True now (of_nat n) 0 c) = Inr c'
    \<and> connecting c' = [] \<and> length (c_sessions c') = length (c_sessions c) + n"
proof -
  let ?c = "connectWait dns True now (of_nat n) 0 c"
  obtain k where k: "n = Suc k" using assms(6) by (cases n) auto
  have c: "eventReceiver (c_netObj ?c) = clientReceiver (stackMem g) (\<lambda>s. True) jh"
    "getManip (packetProc (c_netObj ?c)) = Some s_packetManip" "c_sessions ?c = c_sessions c"
    "connecting ?c = [((setServiceID (index (c_netObj c)) (newSession TCP (Some s_packetManip) (c_identitySeed c)))
       \<lparr>socketOpen := True\<rparr>, of_nat k)]"
    using assms(1-5) k
    by (simp_all add: connectWait_def connectAsync_def setEndPoint_def createConnectSession_def create_def
        expireTimerReady_def armUpdater_def Let_def)
  show ?thesis
    using client_connect.runConnects_all [OF c(1,2,4), of ep] c(3) k assms(7) by simp
qed

text \<open>A client with a resolved name.\<close>

definition sampleClient :: "(unit, unit) connector" where
  "sampleClient = \<lparr>c_netObj = \<lparr>packetProc = newPacketProcedure None (Some s_packetManip),
       eventReceiver = clientReceiver (stackMem (\<lambda>i. 0)) (\<lambda>s. True) (SC_jsonHandler textJson),
       keepAliveTimeMs = 0, updateTimeMs = 1000, index = 0, prevTime = 0, updaterWaits = 0,
       updaterAborted = 0\<rparr>,
     targetAddr = [], targetPort = 9090, resolver = Unresolved, connecting = [], c_sessions = [],
     c_identitySeed = 1, c_shared = ()\<rparr>"

theorem connects_requested_sessions_witness:
  "\<exists>c'. runConnects (replicate 3 (Ec_ok, Some ([], 9090), True))
      (connectWait (\<lambda>a p. Some (a, 9090)) True 0 (of_nat 3) 0 sampleClient) = Inr c'
    \<and> connecting c' = [] \<and> length (c_sessions c') = 3"
  using connects_requested_sessions [of sampleClient "\<lambda>i. 0" "SC_jsonHandler textJson"
      "\<lambda>a p. Some (a, 9090)" "(str ''127.0.0.1'', 9090)" 3 "([], 9090)" 0]
  by (simp add: sampleClient_def getManip_def newPacketProcedure_def del: replicate.simps of_nat_numeral)

text \<open>
  A new acceptor gets the next index and stays in the table of services, whether or not it could
  listen: the caller is told the index in both cases, and only the number of worker threads differs.
\<close>

lemma acceptor_is_registered_anyway:
  assumes "newServiceAcceptor garbage seed sh p (length (s_acceptors st)) = Inr a"
    and "acceptWait (ap_addr u) (ap_port u) (ap_port u + 1) os now a = Inr (ok, a')"
  shows "\<exists>st'. createAcceptor os now garbage seed sh p u st = Inr (length (s_acceptors st), st')
    \<and> getAcceptor (length (s_acceptors st)) st' = Some (Some a')
    \<and> (\<forall>i < length (s_acceptors st). getAcceptor i st' = getAcceptor i st)
    \<and> s_threads st' = s_threads st + (if ok then ap_workerThreadsCount u else 0)"
proof -
  obtain st' where "createAcceptor os now garbage seed sh p u st = Inr (length (s_acceptors st), st')"
    "s_acceptors st' = s_acceptors st @ [Some a']"
    "s_threads st' = s_threads st + (if ok then ap_workerThreadsCount u else 0)"
    using createAcceptor_ok [OF assms] by blast
  then show ?thesis by (intro exI [of _ st']) (auto simp: getAcceptor_def nth_append)
qed

end
